(* ===== verification/Hound_Prelude.thy ===== *)
theory Hound_Prelude
  imports Main "HOL-Library.Word" "HOL-Library.Sublist" "HOL-Library.AList"
begin

text \<open>
  Shared ground of the development: the collections its components fill, and the generic
  facts on lists, options and 64-bit words that their proofs use. Nothing here models code.
\<close>

named_theorems chain_simps \<open>shape of the chain buffer after one primitive update\<close>
named_theorems chain_ok \<open>operations of the chain buffer that keep its invariant\<close>
named_theorems parser_frame \<open>fields a parsing step leaves alone\<close>
named_theorems wheel_ok \<open>operations of the timer wheel that keep its invariant\<close>

type_synonym size_t = "64 word"

section \<open>Lists\<close>

lemma concat_update_nth:
  assumes "i < length xss"
  shows "concat (xss[i := ys]) = concat (take i xss) @ ys @ concat (drop (Suc i) xss)"
  using assms by (simp add: upd_conv_take_nth_drop)

lemma drop_eq_Cons_nth: "i < length xs \<Longrightarrow> drop i xs = xs ! i # drop (Suc i) xs"
  by (simp add: Cons_nth_drop_Suc)

lemma drop_update_eq: "n \<le> i \<Longrightarrow> drop n (xs[i := y]) = (drop n xs)[i - n := y]"
  by (simp add: drop_update_swap)

lemma prefix_take_iff: "prefix p s \<longleftrightarrow> take (length p) s = p"
  by (metis append_eq_conv_conj prefix_def take_is_prefix)

lemma list_all_update:
  "\<lbrakk>\<forall>x \<in> set xs. P x; P y\<rbrakk> \<Longrightarrow> \<forall>x \<in> set (xs[i := y]). P x"
  using set_update_subset_insert [of xs i y] by auto

section \<open>First occurrence of a list in a list\<close>

text \<open>\<open>first_occ n s\<close> is the least position at which \<open>n\<close> occurs in \<open>s\<close>: the reference
  every search routine of the code is compared with.\<close>

fun first_occ :: "'a list \<Rightarrow> 'a list \<Rightarrow> nat option" where
  "first_occ n [] = (if n = [] then Some 0 else None)"
| "first_occ n (x # xs) =
     (if prefix n (x # xs) then Some 0 else map_option Suc (first_occ n xs))"

lemma first_occ_Some:
  "first_occ n s = Some i \<longleftrightarrow>
     i \<le> length s \<and> prefix n (drop i s) \<and> (\<forall>j < i. \<not> prefix n (drop j s))"
proof (induction s arbitrary: i)
  case Nil
  then show ?case by auto
next
  case (Cons x xs)
  show ?case
  proof (cases "prefix n (x # xs)")
    case True
    then show ?thesis by (cases i) auto
  next
    case False
    then show ?thesis
      by (cases i) (auto simp: Cons.IH less_Suc_eq_0_disj)
  qed
qed

lemma first_occ_None:
  "first_occ n s = None \<longleftrightarrow> (\<forall>j \<le> length s. \<not> prefix n (drop j s))"
proof (induction s)
  case Nil
  then show ?case by auto
next
  case (Cons x xs)
  have "(\<forall>j. j \<le> Suc (length xs) \<longrightarrow> \<not> prefix n (drop j (x # xs))) \<longleftrightarrow>
    \<not> prefix n (x # xs) \<and> (\<forall>j. j \<le> length xs \<longrightarrow> \<not> prefix n (drop j xs))"
    using All_less_Suc2 [of "Suc (length xs)" "\<lambda>j. \<not> prefix n (drop j (x # xs))"]
    by (simp add: less_Suc_eq_le)
  then show ?case by (simp add: Cons.IH)
qed

section \<open>Sequences of fallible steps\<close>

fun sum_bind :: "'e + 'a \<Rightarrow> ('a \<Rightarrow> 'e + 'b) \<Rightarrow> 'e + 'b" where
  "sum_bind (Inl e) f = Inl e"
| "sum_bind (Inr x) f = f x"

fun for_each :: "('a \<Rightarrow> 's \<Rightarrow> 'e + 's) \<Rightarrow> 'a list \<Rightarrow> 's \<Rightarrow> 'e + 's" where
  "for_each f [] s = Inr s"
| "for_each f (x # xs) s = sum_bind (f x s) (for_each f xs)"

lemma sum_bind_Inr_iff: "sum_bind r f = Inr y \<longleftrightarrow> (\<exists>x. r = Inr x \<and> f x = Inr y)"
  by (cases r) simp_all

lemma map_sum_Inr_iff: "map_sum f g x = Inr y \<longleftrightarrow> (\<exists>z. x = Inr z \<and> y = g z)"
  by (cases x) auto

section \<open>Step systems\<close>

text \<open>A system of states and steps with an invariant: what holds initially and is kept by every step holds in every
  state the system reaches.\<close>

locale step_system =
  fixes init :: "'s \<Rightarrow> bool"
    and step :: "'s \<Rightarrow> 's \<Rightarrow> bool"
    and inv :: "'s \<Rightarrow> bool"
  assumes inv_init: "init s \<Longrightarrow> inv s"
    and inv_step: "inv s \<Longrightarrow> step s t \<Longrightarrow> inv t"
begin

lemma inv_steps: "step\<^sup>*\<^sup>* s t \<Longrightarrow> inv s \<Longrightarrow> inv t"
  by (induction rule: rtranclp_induct) (auto intro: inv_step)

lemma inv_reached: "init s \<Longrightarrow> step\<^sup>*\<^sup>* s t \<Longrightarrow> inv t"
  by (rule inv_steps) (auto intro: inv_init)

end

end
