(* ===== verification/Cxx_Std.thy ===== *)
theory Cxx_Std
  imports Hound_Prelude
begin

text \<open>
  The part of the C++ standard library that the modelled sources call, on \<^typ>\<open>string\<close> (a
  list of bytes): character search and \<open>substr\<close> of \<open>std::string\<close>, the token loop
  \<open>while (std::getline(iss, tok, d))\<close> over an \<open>std::istringstream\<close>, \<open>std::strtoul\<close> on an
  LP64 platform (\<open>unsigned long\<close> has 64 bits) and \<open>std::to_string\<close>. A position is a
  \<^typ>\<open>nat option\<close>: \<^const>\<open>None\<close> is \<open>npos\<close>.
\<close>

section \<open>Definitions\<close>

abbreviation CR :: char where "CR \<equiv> CHR 0x0D"
abbreviation LF :: char where "LF \<equiv> CHR 0x0A"
abbreviation NUL :: char where "NUL \<equiv> CHR 0x00"

definition crlf :: string where
  "crlf = [CR, LF]"

text \<open>\<open>s.find(c)\<close>, and \<open>s.find(c, pos)\<close>.\<close>

primrec str_find :: "char \<Rightarrow> string \<Rightarrow> nat option" where
  "str_find c [] = None"
| "str_find c (x # xs) = (if x = c then Some 0 else map_option Suc (str_find c xs))"

definition str_find_from :: "char \<Rightarrow> nat \<Rightarrow> string \<Rightarrow> nat option" where
  "str_find_from c pos s = map_option (\<lambda>i. pos + i) (str_find c (drop pos s))"

text \<open>\<open>s.find(needle) != npos\<close>.\<close>

definition str_contains :: "string \<Rightarrow> string \<Rightarrow> bool" where
  "str_contains needle s = (first_occ needle s \<noteq> None)"

text \<open>\<open>s.rfind(c)\<close>.\<close>

definition str_rfind :: "char \<Rightarrow> string \<Rightarrow> nat option" where
  "str_rfind c s = map_option (\<lambda>i. length s - Suc i) (str_find c (rev s))"

text \<open>\<open>s.substr(pos, n)\<close> and \<open>s.substr(pos)\<close> for \<open>pos \<le> s.size()\<close>; every call in the
  sources has a position obtained from a search in the same string.\<close>

definition substr :: "nat \<Rightarrow> nat \<Rightarrow> string \<Rightarrow> string" where
  "substr pos n s = take n (drop pos s)"

text \<open>The successive values of \<open>tok\<close> in \<open>while (std::getline(iss, tok, d))\<close>. The stream is
  at its end once the last byte is read, so a trailing delimiter yields no empty token.\<close>

function getlines :: "char \<Rightarrow> string \<Rightarrow> string list" where
  "getlines d s =
     (if s = [] then []
      else case str_find d s of
             None \<Rightarrow> [s]
           | Some i \<Rightarrow> take i s # getlines d (drop (Suc i) s))"
  by pat_completeness auto
termination
  by (relation "measure (\<lambda>(d, s). length s)") auto

declare getlines.simps [simp del]

text \<open>\<open>std::strtoul\<close>: skip white space, an optional sign, an optional \<open>0x\<close> for base 16, the
  longest run of digits; \<open>ULONG_MAX\<close> when the value does not fit, the negated value
  modulo \<open>2\<close>\<open>^\<close>\<open>64\<close> after a minus sign.\<close>

definition is_space :: "char \<Rightarrow> bool" where
  "is_space c \<longleftrightarrow> c \<in> {CHR '' '', CHR 0x09, CHR 0x0A, CHR 0x0B, CHR 0x0C, CHR 0x0D}"

definition digit_val :: "char \<Rightarrow> nat option" where
  "digit_val c =
     (let n = of_char c :: nat
      in if 48 \<le> n \<and> n \<le> 57 then Some (n - 48)
         else if 97 \<le> n \<and> n \<le> 122 then Some (n - 87)
         else if 65 \<le> n \<and> n \<le> 90 then Some (n - 55)
         else None)"

definition is_digit :: "nat \<Rightarrow> char \<Rightarrow> bool" where
  "is_digit base c = (case digit_val c of None \<Rightarrow> False | Some d \<Rightarrow> d < base)"

definition digits_value :: "nat \<Rightarrow> string \<Rightarrow> nat" where
  "digits_value base ds = foldl (\<lambda>a c. a * base + the (digit_val c)) 0 ds"

fun skip_sign :: "string \<Rightarrow> bool \<times> string" where
  "skip_sign (c # s) = (if c = CHR ''-'' then (True, s)
                        else if c = CHR ''+'' then (False, s) else (False, c # s))"
| "skip_sign [] = (False, [])"

fun skip_0x :: "nat \<Rightarrow> string \<Rightarrow> string" where
  "skip_0x base (z # x # h # s) =
     (if base = 16 \<and> z = CHR ''0'' \<and> (x = CHR ''x'' \<or> x = CHR ''X'') \<and> is_digit 16 h
      then h # s else z # x # h # s)"
| "skip_0x base s = s"

definition strtoul :: "nat \<Rightarrow> string \<Rightarrow> size_t" where
  "strtoul base s =
     (let (neg, s2) = skip_sign (dropWhile is_space s);
          v = digits_value base (takeWhile (is_digit base) (skip_0x base s2))
      in if 2 ^ 64 \<le> v then - 1 else if neg then - of_nat v else of_nat v)"

text \<open>\<open>strtoul\<close> on a pointer into an array without a terminating zero. \<open>mem\<close> is the array
  from the pointer on; the call reads past the end of the array when nothing inside it
  stops the scan.\<close>

definition strtoul_mem :: "nat \<Rightarrow> string \<Rightarrow> size_t option" where
  "strtoul_mem base mem =
     (let s2 = snd (skip_sign (dropWhile is_space mem))
      in if dropWhile (is_digit base) (skip_0x base s2) = [] \<or> (base = 16 \<and> s2 \<in> {''0x'', ''0X''})
         then None else Some (strtoul base mem))"

text \<open>\<open>std::to_string\<close>, and \<open>operator<<\<close> on an integer.\<close>

definition digit_char :: "nat \<Rightarrow> char" where
  "digit_char d = char_of (48 + d)"

fun dec_string :: "nat \<Rightarrow> string" where
  "dec_string n = (if n < 10 then [digit_char n]
                   else dec_string (n div 10) @ [digit_char (n mod 10)])"

declare dec_string.simps [simp del]

definition to_string :: "int \<Rightarrow> string" where
  "to_string i = (if i < 0 then CHR ''-'' # dec_string (nat (- i)) else dec_string (nat i))"

section \<open>Character search\<close>

lemma str_find_None [simp]: "str_find c s = None \<longleftrightarrow> c \<notin> set s"
  by (induction s) auto

lemma str_find_NoneI [simp]: "c \<notin> set s \<Longrightarrow> str_find c s = None"
  by simp

lemma str_find_Some:
  "str_find c s = Some i \<longleftrightarrow> i < length s \<and> s ! i = c \<and> c \<notin> set (take i s)"
proof (induction s arbitrary: i)
  case (Cons x xs)
  then show ?case by (cases i) auto
qed simp

lemma str_find_SomeD:
  assumes "str_find c s = Some i"
  shows "i < length s" and "s = take i s @ c # drop (Suc i) s" and "c \<notin> set (take i s)"
  using assms by (auto simp: str_find_Some id_take_nth_drop)

lemma str_find_append [simp]: "c \<notin> set a \<Longrightarrow> str_find c (a @ c # b) = Some (length a)"
  by (simp add: str_find_Some)

lemma str_find_append_notin:
  "c \<notin> set a \<Longrightarrow> str_find c (a @ b) = map_option (\<lambda>i. length a + i) (str_find c b)"
proof (induction a)
  case Nil
  then show ?case by (cases "str_find c b") simp_all
next
  case (Cons x a)
  then show ?case by (cases "str_find c b") auto
qed

lemma str_find_first_occ: "str_find c s = first_occ [c] s"
  by (induction s) (auto simp: prefix_def)

section \<open>Tokens\<close>

lemma getlines_Nil [simp]: "getlines d [] = []"
  by (subst getlines.simps) simp

lemma getlines_notin: "d \<notin> set s \<Longrightarrow> s \<noteq> [] \<Longrightarrow> getlines d s = [s]"
  by (subst getlines.simps) (auto split: option.splits simp: str_find_Some)

lemma getlines_Cons: "d \<notin> set a \<Longrightarrow> getlines d (a @ d # s) = a # getlines d s"
  by (subst getlines.simps) simp

lemma getlines_no_delim: "t \<in> set (getlines d s) \<Longrightarrow> d \<notin> set t"
proof (induction d s rule: getlines.induct)
  case (1 d s)
  then show ?case
    by (subst (asm) (2) getlines.simps)
      (auto split: if_splits option.splits dest: str_find_SomeD)
qed

section \<open>Numbers\<close>

lemma of_char_digit_char [simp]: "d < 10 \<Longrightarrow> (of_char (digit_char d) :: nat) = 48 + d"
  by (simp add: digit_char_def)

lemma digit_val_digit_char [simp]: "d < 10 \<Longrightarrow> digit_val (digit_char d) = Some d"
  by (simp add: digit_val_def)

lemma is_digit_digit_char [simp]: "d < 10 \<Longrightarrow> is_digit 10 (digit_char d)"
  by (simp add: is_digit_def)

lemma digits_value_snoc:
  "digits_value base (ds @ [c]) = digits_value base ds * base + the (digit_val c)"
  by (simp add: digits_value_def)

lemma dec_string_nonempty [simp]: "dec_string n \<noteq> []"
  by (subst dec_string.simps) simp

lemma dec_string_digits: "c \<in> set (dec_string n) \<Longrightarrow> is_digit 10 c"
proof (induction n rule: dec_string.induct)
  case (1 n)
  then show ?case
    by (subst (asm) (2) dec_string.simps) (auto split: if_splits)
qed

lemma takeWhile_dec_string [simp]: "takeWhile (is_digit 10) (dec_string n) = dec_string n"
  using dec_string_digits by (auto simp only: takeWhile_eq_all_conv)

lemma digits_value_dec_string [simp]: "digits_value 10 (dec_string n) = n"
proof (induction n rule: dec_string.induct)
  case (1 n)
  then show ?case
    by (subst dec_string.simps) (auto simp: digits_value_snoc digits_value_def)
qed

lemma is_digit_10_iff: "is_digit 10 c \<longleftrightarrow> 48 \<le> (of_char c :: nat) \<and> (of_char c :: nat) \<le> 57"
  by (auto simp: is_digit_def digit_val_def Let_def)

lemma digit_not_space: "is_digit 10 c \<Longrightarrow> \<not> is_space c"
  by (auto simp: is_space_def is_digit_10_iff)

lemma digit_not_special:
  assumes "is_digit 10 c"
  shows "c \<noteq> CHR ''-''" "c \<noteq> CHR ''+''" "c \<noteq> CR" "c \<noteq> LF" "c \<noteq> CHR '' ''"
  using assms by (auto simp: is_digit_10_iff)

lemma skip_sign_digit: "is_digit 10 (hd s) \<Longrightarrow> s \<noteq> [] \<Longrightarrow> skip_sign s = (False, s)"
  by (cases s) (auto dest: digit_not_special)

lemma skip_0x_10 [simp]: "skip_0x 10 s = s"
  by (cases "(10::nat, s)" rule: skip_0x.cases) auto

text \<open>Reading a printed number back: the law that ties every \<open>Content-Length\<close> written by
  the code to the one it reads.\<close>

lemma strtoul_dec_string: "n < 2 ^ 64 \<Longrightarrow> strtoul 10 (dec_string n) = of_nat n"
proof -
  assume n: "n < 2 ^ 64"
  have hd: "is_digit 10 (hd (dec_string n))"
    by (rule dec_string_digits [of _ n]) simp
  have "dropWhile is_space (dec_string n) = dec_string n"
    using digit_not_space [OF hd] by (cases "dec_string n") auto
  then show ?thesis
    using n hd by (simp add: strtoul_def skip_sign_digit)
qed

lemma dec_string_no_crlf: "CR \<notin> set (dec_string n)" "LF \<notin> set (dec_string n)"
  using dec_string_digits [of _ n] digit_not_special(3,4) by blast+

lemma to_string_nat [simp]: "to_string (int n) = dec_string n"
  by (simp add: to_string_def)

section \<open>Hexadecimal numbers inside a buffer\<close>

lemma is_digit_16_iff:
  "is_digit 16 c \<longleftrightarrow>
     (let n = of_char c :: nat in 48 \<le> n \<and> n \<le> 57 \<or> 97 \<le> n \<and> n \<le> 102 \<or> 65 \<le> n \<and> n \<le> 70)"
  by (auto simp: is_digit_def digit_val_def Let_def)

lemma hex_not_special:
  assumes "is_digit 16 c"
  shows "\<not> is_space c" "c \<noteq> CHR ''-''" "c \<noteq> CHR ''+''" "c \<noteq> CHR ''x''" "c \<noteq> CHR ''X''" "c \<noteq> CR"
  using assms by (auto simp: is_digit_16_iff is_space_def Let_def)

lemma skip_0x_id: "x \<noteq> CHR ''x'' \<Longrightarrow> x \<noteq> CHR ''X'' \<Longrightarrow> skip_0x base (z # x # s) = z # x # s"
  by (cases s) simp_all

text \<open>A line of hexadecimal digits ended by a carriage return: the scan stops there, and never
  looks at what follows in memory.\<close>

lemma strtoul_mem_hex:
  assumes "l \<noteq> []" and "\<forall>c \<in> set l. is_digit 16 c" and "digits_value 16 l < 2 ^ 64"
  shows "strtoul_mem 16 (l @ CR # mem) = Some (of_nat (digits_value 16 l))"
proof -
  let ?s = "l @ CR # mem"
  obtain z x t where s: "?s = z # x # t" and z: "is_digit 16 z" and x: "x \<noteq> CHR ''x''" "x \<noteq> CHR ''X''"
    using assms(1,2) hex_not_special(4,5) by (cases l rule: list.exhaust; cases "tl l") auto
  have sp: "dropWhile is_space ?s = ?s" and sg: "skip_sign ?s = (False, ?s)" and sk: "skip_0x 16 ?s = ?s"
    using hex_not_special [OF z] x by (simp_all add: s skip_0x_id)
  have cr: "\<not> is_digit 16 CR"
    by (simp add: is_digit_16_iff)
  have "takeWhile (is_digit 16) ?s = l" and "dropWhile (is_digit 16) ?s = CR # mem"
    using assms(2) cr by (simp_all add: takeWhile_append2 dropWhile_append2)
  moreover have "?s \<noteq> ''0x''" and "?s \<noteq> ''0X''"
    using x by (simp_all add: s)
  ultimately show ?thesis
    using assms(3) sp sg sk cr by (simp add: strtoul_mem_def strtoul_def)
qed

section \<open>Joining tokens\<close>

text \<open>\<open>join sep ts\<close> is what a client writes when it separates tokens; the inverse of the token
  loops up to what \<open>getline\<close> drops.\<close>

fun join :: "'a list \<Rightarrow> 'a list list \<Rightarrow> 'a list" where
  "join sep [] = []"
| "join sep [t] = t"
| "join sep (t # ts) = t @ sep @ join sep ts"

lemma join_Cons: "ts \<noteq> [] \<Longrightarrow> join sep (t # ts) = t @ sep @ join sep ts"
  by (cases ts) simp_all

lemma getlines_join:
  "\<forall>t \<in> set ts. d \<notin> set t \<Longrightarrow> ts = [] \<or> last ts \<noteq> [] \<Longrightarrow> getlines d (join [d] ts) = ts"
proof (induction ts)
  case (Cons t ts)
  then show ?case
    by (cases ts) (auto simp: getlines_notin getlines_Cons)
qed simp

lemma getlines_join_padded:
  "\<forall>t \<in> set ts. d \<notin> set t \<Longrightarrow> d \<notin> set pad \<Longrightarrow> t \<noteq> [] \<Longrightarrow> d \<notin> set t \<Longrightarrow> [] \<notin> set ts \<Longrightarrow>
   getlines d (join (d # pad) (t # ts)) = t # map ((@) pad) ts"
proof (induction ts arbitrary: t)
  case (Cons u ts)
  have "getlines d (join (d # pad) ((pad @ u) # ts)) = (pad @ u) # map ((@) pad) ts"
    using Cons by auto
  moreover have "pad @ join (d # pad) (u # ts) = join (d # pad) ((pad @ u) # ts)"
    by (cases ts) simp_all
  ultimately show ?case
    using Cons.prems by (simp add: getlines_Cons)
qed (simp add: getlines_notin)

end
