(* ===== verification/Timer_Wheel.thy ===== *)
theory Timer_Wheel
  imports Cxx_Std Complex_Main "HOL-Library.Signed_Division" "HOL-Library.Multiset" "HOL-Library.Log_Nat"
begin

text \<open>
  Timestamps (\<open>src/hound/src/reactor/timestamp.h\<close>) and the timer wheel (\<open>timer_wheel.h\<close>, \<open>timer_wheel.cpp\<close>).
  A timestamp is its count of microseconds, an integer (the 64 bits of the code last for 290000
  years, and leaving their range is undefined there); divisions truncate as in C++, and a conversion to \<open>int\<close> keeps 32 bits. A \<open>double\<close> is
  the rational it stands for, and a product or quotient of doubles is rounded to the nearest one. A bucket is the list of its timers; the iterator a timer keeps to
  itself is never read and left out. User callbacks are the parameter \<open>run\<close>, what a callback
  does to the wheel. \<open>tick\<close> is modelled to the last statement, with fuel for its inner
  loop, although \<open>tick_never_fires\<close> shows that the loop is never reached.
\<close>

section \<open>Timestamps\<close>

type_synonym timestamp = int

text \<open>\<open>static_cast<int>\<close> of a 64-bit integer.\<close>

definition to_int32 :: "int \<Rightarrow> int" where
  "to_int32 x = signed_take_bit 31 x"

text \<open>The double nearest to a number, ties to even: 53 significant bits, and steps of \<open>2\<close> to the power -1074 close
  to 0. Overflow to infinity is left out.\<close>

definition round_even :: "rat \<Rightarrow> int" where
  "round_even x = (let f = \<lfloor>x\<rfloor>; r = x - of_int f in if r < 1 / 2 \<or> r = 1 / 2 \<and> even f then f else f + 1)"

definition fraction_bits :: "rat \<Rightarrow> int" where
  "fraction_bits x =
     (if 1 \<le> \<bar>x\<bar> then 53 - int (floorlog 2 (nat \<lfloor>\<bar>x\<bar>\<rfloor>))
      else min 1074 (52 + int (floorlog 2 (nat \<lfloor>1 / \<bar>x\<bar>\<rfloor>))))"

definition to_double :: "rat \<Rightarrow> rat" where
  "to_double x = of_int (round_even (x * 2 powi fraction_bits x)) / 2 powi fraction_bits x"

definition valid :: "timestamp \<Rightarrow> bool" where
  "valid us \<longleftrightarrow> us > 0"

definition trunc :: "rat \<Rightarrow> int" where
  "trunc x = (if 0 \<le> x then \<lfloor>x\<rfloor> else \<lceil>x\<rceil>)"

definition add_seconds :: "timestamp \<Rightarrow> rat \<Rightarrow> timestamp" where
  "add_seconds us s = us + trunc (to_double (s * 1000000))"

definition add_ms :: "timestamp \<Rightarrow> int \<Rightarrow> timestamp" where
  "add_ms us ms = us + ms * 1000"

definition diff_ms :: "timestamp \<Rightarrow> timestamp \<Rightarrow> int" where
  "diff_ms us other = (us - other) sdiv 1000"

definition timestamp_to_string :: "timestamp \<Rightarrow> string" where
  "timestamp_to_string us = to_string (us sdiv 1000000) @ ''.'' @ to_string (us smod 1000000 sdiv 1000) @ ''s''"

section \<open>The wheel\<close>

record 'cb timer =
  timer_id :: int
  expiration :: timestamp
  callback :: 'cb
  interval :: rat
  rounds :: int

record 'cb timer_wheel =
  tick_ms :: int
  slot_count :: int
  buckets :: "'cb timer list list"
  current_slot :: int
  last_tick :: timestamp
  next_timer_id :: int
  timer_count :: nat

definition TimerWheel_new :: "int \<Rightarrow> int \<Rightarrow> timestamp \<Rightarrow> 'cb timer_wheel" where
  "TimerWheel_new tick slots now =
     \<lparr>tick_ms = tick, slot_count = slots, buckets = replicate (nat slots) [], current_slot = 0,
      last_tick = now, next_timer_id = 1, timer_count = 0\<rparr>"

definition insert_timer :: "'cb timer \<Rightarrow> 'cb timer_wheel \<Rightarrow> 'cb timer_wheel" where
  "insert_timer t w =
     (let w1 = w\<lparr>timer_count := Suc (timer_count w)\<rparr>;
          delta0 = diff_ms (expiration t) (last_tick w1);
          delta_ms = (if delta0 < 0 then 0 else delta0);
          t1 = t\<lparr>rounds := to_int32 (delta_ms sdiv (tick_ms w1 * slot_count w1))\<rparr>;
          slot = nat (to_int32 ((current_slot w1 + delta_ms sdiv tick_ms w1) smod slot_count w1))
      in w1\<lparr>buckets := (buckets w1)[slot := buckets w1 ! slot @ [t1]]\<rparr>)"

definition add_repeating :: "timestamp \<Rightarrow> rat \<Rightarrow> 'cb \<Rightarrow> 'cb timer_wheel \<Rightarrow> int \<times> 'cb timer_wheel" where
  "add_repeating when ival cb w =
     (let t = \<lparr>timer_id = next_timer_id w, expiration = when, callback = cb, interval = ival, rounds = 0\<rparr>
      in (timer_id t, insert_timer t (w\<lparr>next_timer_id := next_timer_id w + 1\<rparr>)))"

definition add_timer :: "timestamp \<Rightarrow> 'cb \<Rightarrow> 'cb timer_wheel \<Rightarrow> int \<times> 'cb timer_wheel" where
  "add_timer when cb w =
     (let t = \<lparr>timer_id = next_timer_id w, expiration = when, callback = cb, interval = 0, rounds = 0\<rparr>
      in (timer_id t, insert_timer t (w\<lparr>next_timer_id := next_timer_id w + 1\<rparr>)))"

text \<open>\<open>cancel\<close>: the first timer with that id in the first bucket that has one.\<close>

fun erase_id :: "int \<Rightarrow> 'cb timer list \<Rightarrow> 'cb timer list option" where
  "erase_id x [] = None"
| "erase_id x (t # ts) = (if timer_id t = x then Some ts else map_option ((#) t) (erase_id x ts))"

fun cancel_buckets :: "int \<Rightarrow> 'cb timer list list \<Rightarrow> 'cb timer list list option" where
  "cancel_buckets x [] = None"
| "cancel_buckets x (b # bs) =
     (case erase_id x b of
        Some b' \<Rightarrow> Some (b' # bs)
      | None \<Rightarrow> map_option ((#) b) (cancel_buckets x bs))"

definition cancel :: "int \<Rightarrow> 'cb timer_wheel \<Rightarrow> 'cb timer_wheel" where
  "cancel x w =
     (case cancel_buckets x (buckets w) of
        Some bs \<Rightarrow> w\<lparr>buckets := bs, timer_count := timer_count w - 1\<rparr>
      | None \<Rightarrow> w)"

text \<open>The loop of \<open>tick\<close> over one bucket. The iterator is an index; while a callback runs it is
  held as the identity of the timer it points to. If that timer is gone afterwards the
  iterator dangles, the result \<^const>\<open>Inl\<close>. What fired is collected in order.\<close>

datatype wheel_fault = DanglingIterator

type_synonym 'cb fired = "(int \<times> 'cb) list"
type_synonym 'cb tick_result = "wheel_fault + 'cb timer_wheel \<times> 'cb fired"

fun position_of :: "int \<Rightarrow> 'cb timer list \<Rightarrow> nat option" where
  "position_of x [] = None"
| "position_of x (t # ts) = (if timer_id t = x then Some 0 else map_option Suc (position_of x ts))"

definition set_bucket :: "nat \<Rightarrow> 'cb timer list \<Rightarrow> 'cb timer_wheel \<Rightarrow> 'cb timer_wheel" where
  "set_bucket s ts w = w\<lparr>buckets := (buckets w)[s := ts]\<rparr>"

definition fire :: "('cb \<Rightarrow> 'cb timer_wheel \<Rightarrow> 'cb timer_wheel) \<Rightarrow> timestamp \<Rightarrow> 'cb timer \<Rightarrow> 'cb timer_wheel \<Rightarrow> 'cb timer_wheel" where
  "fire run now t w =
     (let w1 = run (callback t) w
      in if interval t > 0 then snd (add_repeating (add_seconds now (interval t)) (interval t) (callback t) w1)
         else w1)"

fun fire_loop :: "nat \<Rightarrow> ('cb \<Rightarrow> 'cb timer_wheel \<Rightarrow> 'cb timer_wheel) \<Rightarrow> timestamp \<Rightarrow> nat \<Rightarrow> nat \<Rightarrow>
    'cb timer_wheel \<Rightarrow> 'cb fired \<Rightarrow> 'cb tick_result option" where
  "fire_loop 0 run now s i w fired = None"
| "fire_loop (Suc fuel) run now s i w fired =
     (let bucket = buckets w ! s
      in if length bucket \<le> i then Some (Inr (w, fired))
         else let t = bucket ! i
              in if rounds t > 0
                 then fire_loop fuel run now s (Suc i)
                        (set_bucket s (bucket[i := t\<lparr>rounds := rounds t - 1\<rparr>]) w) fired
                 else let bucket' = take i bucket @ drop (Suc i) bucket;
                          w1 = (set_bucket s bucket' w)\<lparr>timer_count := timer_count w - 1\<rparr>;
                          w2 = fire run now t w1;
                          fired' = fired @ [(timer_id t, callback t)]
                      in if length bucket' \<le> i then Some (Inr (w2, fired'))
                         else case position_of (timer_id (bucket' ! i)) (buckets w2 ! s) of
                                None \<Rightarrow> Some (Inl DanglingIterator)
                              | Some j \<Rightarrow> fire_loop fuel run now s j w2 fired')"

definition advance_slot :: "nat \<Rightarrow> ('cb \<Rightarrow> 'cb timer_wheel \<Rightarrow> 'cb timer_wheel) \<Rightarrow> timestamp \<Rightarrow>
    'cb timer_wheel \<Rightarrow> 'cb fired \<Rightarrow> 'cb tick_result option" where
  "advance_slot fuel run now w fired =
     (let w1 = w\<lparr>current_slot := (current_slot w + 1) smod slot_count w\<rparr>
      in fire_loop fuel run now (nat (current_slot w1)) 0 w1 fired)"

fun advance :: "nat \<Rightarrow> ('cb \<Rightarrow> 'cb timer_wheel \<Rightarrow> 'cb timer_wheel) \<Rightarrow> timestamp \<Rightarrow> nat \<Rightarrow>
    'cb timer_wheel \<Rightarrow> 'cb fired \<Rightarrow> 'cb tick_result option" where
  "advance fuel run now 0 w fired = Some (Inr (w, fired))"
| "advance fuel run now (Suc k) w fired =
     (case advance_slot fuel run now w fired of
        Some (Inr (w', fired')) \<Rightarrow> advance fuel run now k w' fired'
      | r \<Rightarrow> r)"

definition tick :: "nat \<Rightarrow> ('cb \<Rightarrow> 'cb timer_wheel \<Rightarrow> 'cb timer_wheel) \<Rightarrow> timestamp \<Rightarrow>
    'cb timer_wheel \<Rightarrow> 'cb tick_result option" where
  "tick fuel run now w =
     (let w1 = w\<lparr>last_tick := now\<rparr>;
          elapsed_ms = diff_ms now (last_tick w1)
      in if elapsed_ms \<le> 0 then Some (Inr (w1, []))
         else let n = to_int32 (elapsed_ms sdiv tick_ms w1);
                  slots_to_advance = (if n > slot_count w1 then slot_count w1 else n)
              in advance fuel run now (nat slots_to_advance) w1 [])"

fun first_nonempty :: "nat \<Rightarrow> int \<Rightarrow> 'cb timer_wheel \<Rightarrow> int option" where
  "first_nonempty 0 offset w = None"
| "first_nonempty (Suc k) offset w =
     (if buckets w ! nat ((current_slot w + offset) smod slot_count w) \<noteq> [] then Some offset
      else first_nonempty k (offset + 1) w)"

definition next_timeout_ms :: "'cb timer_wheel \<Rightarrow> int" where
  "next_timeout_ms w =
     (if timer_count w = 0 then - 1
      else case first_nonempty (nat (slot_count w)) 0 w of
             Some offset \<Rightarrow> offset * tick_ms w
           | None \<Rightarrow> slot_count w * tick_ms w)"

definition active_count :: "'cb timer_wheel \<Rightarrow> nat" where
  "active_count w = timer_count w"

section \<open>Invariant\<close>

abbreviation timers :: "'cb timer_wheel \<Rightarrow> 'cb timer list" where
  "timers w \<equiv> concat (buckets w)"

text \<open>The length of a whole turn, an \<open>int\<close> product in the code, must fit; the loop's wheel turns once a minute, in 60000 ms.\<close>

definition wheel_ok :: "'cb timer_wheel \<Rightarrow> bool" where
  "wheel_ok w \<longleftrightarrow>
     0 < tick_ms w \<and> 0 < slot_count w \<and> tick_ms w * slot_count w < 2 ^ 31 \<and> length (buckets w) = nat (slot_count w) \<and>
     0 \<le> current_slot w \<and> current_slot w < slot_count w \<and>
     distinct (map timer_id (timers w)) \<and>
     (\<forall>t \<in> set (timers w). timer_id t < next_timer_id w) \<and>
     timer_count w = length (timers w)"

lemma sdiv_nonneg [simp]: "0 \<le> a \<Longrightarrow> 0 < b \<Longrightarrow> (a :: int) sdiv b = a div b"
  by (auto simp: signed_divide_int_def sgn_if)

lemma smod_nonneg [simp]: "0 \<le> a \<Longrightarrow> 0 < b \<Longrightarrow> (a :: int) smod b = a mod b"
  by (auto simp: signed_modulo_int_def sgn_if)

lemma sdiv_neg: "a < 0 \<Longrightarrow> 0 < b \<Longrightarrow> (a :: int) sdiv b \<le> 0"
  by (auto simp: signed_divide_int_def sgn_if pos_imp_zdiv_nonneg_iff)

lemma mset_set_nth:
  "s < length bs \<Longrightarrow> mset (concat (bs[s := x])) + mset (bs ! s) = mset (concat bs) + mset x"
proof (induction bs arbitrary: s)
  case (Cons b bs)
  then show ?case by (cases s) (auto simp: add.assoc add.left_commute)
qed simp

definition delta_of :: "timestamp \<Rightarrow> 'cb timer_wheel \<Rightarrow> int" where
  "delta_of when w = (if diff_ms when (last_tick w) < 0 then 0 else diff_ms when (last_tick w))"

definition slot_of :: "timestamp \<Rightarrow> 'cb timer_wheel \<Rightarrow> nat" where
  "slot_of when w = nat ((current_slot w + delta_of when w div tick_ms w) mod slot_count w)"

definition placed :: "'cb timer \<Rightarrow> 'cb timer_wheel \<Rightarrow> 'cb timer" where
  "placed t w = t\<lparr>rounds := to_int32 (delta_of (expiration t) w div tick_ms w div slot_count w)\<rparr>"

lemma to_int32_id: "- (2 ^ 31) \<le> x \<Longrightarrow> x < 2 ^ 31 \<Longrightarrow> to_int32 x = x"
  unfolding to_int32_def by (intro signed_take_bit_int_eq_self) auto

lemma turn_fits:
  assumes "wheel_ok w"
  shows "slot_count w < 2 ^ 31"
proof -
  have "1 * slot_count w \<le> tick_ms w * slot_count w"
    using assms by (intro mult_right_mono) (simp_all add: wheel_ok_def)
  also have "\<dots> < 2 ^ 31" using assms by (simp add: wheel_ok_def)
  finally show ?thesis by simp
qed

lemma delta_of_nonneg: "0 \<le> delta_of when w"
  by (simp add: delta_of_def)

lemma rounds_exact:
  assumes "wheel_ok w" and "delta_of when w div tick_ms w div slot_count w < 2 ^ 31"
  shows "max 0 (to_int32 (delta_of when w div tick_ms w div slot_count w)) = delta_of when w div tick_ms w div slot_count w"
proof -
  have "0 \<le> delta_of when w div tick_ms w div slot_count w"
    using assms(1) delta_of_nonneg [of "when" w] by (simp add: wheel_ok_def pos_imp_zdiv_nonneg_iff)
  then show ?thesis using assms(2) by (simp add: to_int32_id)
qed

lemma insert_timer_eq:
  assumes "wheel_ok w"
  shows "insert_timer t w =
    w\<lparr>timer_count := Suc (timer_count w),
      buckets := (buckets w)[slot_of (expiration t) w := buckets w ! slot_of (expiration t) w @ [placed t w]]\<rparr>"
    and "slot_of (expiration t) w < length (buckets w)"
proof -
  let ?d = "delta_of (expiration t) w"
  have pos: "0 < tick_ms w" "0 < slot_count w" "0 \<le> current_slot w"
    and len: "length (buckets w) = nat (slot_count w)"
    using assms by (auto simp: wheel_ok_def)
  have d: "0 \<le> ?d" by (rule delta_of_nonneg)
  then have "0 \<le> ?d div tick_ms w"
    using pos by (simp add: pos_imp_zdiv_nonneg_iff)
  then have "(current_slot w + ?d sdiv tick_ms w) smod slot_count w = (current_slot w + ?d div tick_ms w) mod slot_count w"
    using d pos by simp
  moreover have "to_int32 (x mod slot_count w) = x mod slot_count w" for x
  proof (rule to_int32_id)
    have "x mod slot_count w < slot_count w" "0 \<le> x mod slot_count w" using pos(2) by simp_all
    then show "x mod slot_count w < 2 ^ 31" "- (2 ^ 31) \<le> x mod slot_count w" using turn_fits [OF assms] by simp_all
  qed
  ultimately have slot: "to_int32 ((current_slot w + ?d sdiv tick_ms w) smod slot_count w) = (current_slot w + ?d div tick_ms w) mod slot_count w"
    by simp
  have rounds: "?d sdiv (tick_ms w * slot_count w) = ?d div tick_ms w div slot_count w"
    using d pos by (simp add: zdiv_zmult2_eq)
  have "insert_timer t w =
      (let slot = nat (to_int32 ((current_slot w + ?d sdiv tick_ms w) smod slot_count w))
       in w\<lparr>timer_count := Suc (timer_count w),
            buckets := (buckets w)[slot := buckets w ! slot @ [t\<lparr>rounds := to_int32 (?d sdiv (tick_ms w * slot_count w))\<rparr>]]\<rparr>)"
    by (simp add: insert_timer_def delta_of_def Let_def)
  then show "insert_timer t w =
    w\<lparr>timer_count := Suc (timer_count w),
      buckets := (buckets w)[slot_of (expiration t) w := buckets w ! slot_of (expiration t) w @ [placed t w]]\<rparr>"
    unfolding slot rounds Let_def slot_of_def placed_def .
  show "slot_of (expiration t) w < length (buckets w)"
    using pos len by (simp add: slot_of_def nat_less_iff)
qed

lemma mset_insert_timer:
  "wheel_ok w \<Longrightarrow> mset (timers (insert_timer t w)) = add_mset (placed t w) (mset (timers w))"
  using mset_set_nth [OF insert_timer_eq(2), of w t "buckets w ! slot_of (expiration t) w @ [placed t w]"]
  by (simp add: insert_timer_eq)

lemma wheel_ok_cong:
  assumes "mset (timers w') = add_mset t (mset (timers w))" and "wheel_ok w"
    and "tick_ms w' = tick_ms w" "slot_count w' = slot_count w" "current_slot w' = current_slot w"
    and "length (buckets w') = length (buckets w)" and "timer_count w' = Suc (timer_count w)"
    and "next_timer_id w' = next_timer_id w + 1" and "timer_id t = next_timer_id w"
  shows "wheel_ok w'"
proof -
  have set: "set (timers w') = insert t (set (timers w))"
    using arg_cong [OF assms(1), of set_mset] by simp
  have "mset (map timer_id (timers w')) = mset (map timer_id (t # timers w))"
    using assms(1) by simp
  then have "distinct (map timer_id (timers w')) = distinct (map timer_id (t # timers w))"
    by (rule mset_eq_imp_distinct_iff)
  moreover have "timer_id t \<notin> timer_id ` set (timers w)"
    using assms(2,9) by (fastforce simp: wheel_ok_def)
  moreover have "length (timers w') = Suc (length (timers w))"
    using arg_cong [OF assms(1), of size] by simp
  moreover have "\<forall>u \<in> set (timers w'). timer_id u < next_timer_id w'"
  proof
    fix u
    assume "u \<in> set (timers w')"
    then have "u = t \<or> u \<in> set (timers w)" unfolding set by blast
    then show "timer_id u < next_timer_id w'"
      using assms(2,8,9) by (force simp: wheel_ok_def simp del: set_concat)
  qed
  ultimately show ?thesis
    using assms(2-) by (simp add: wheel_ok_def del: set_concat)
qed

lemma add_repeating_ok:
  assumes "wheel_ok w"
  shows "wheel_ok (snd (add_repeating when ival cb w))"
    and "mset (timers (snd (add_repeating when ival cb w))) = add_mset
      (placed \<lparr>timer_id = next_timer_id w, expiration = when, callback = cb, interval = ival, rounds = 0\<rparr> w) (mset (timers w))"
proof -
  let ?t = "\<lparr>timer_id = next_timer_id w, expiration = when, callback = cb, interval = ival, rounds = 0\<rparr>"
  let ?w = "w\<lparr>next_timer_id := next_timer_id w + 1\<rparr>"
  have ok: "wheel_ok ?w"
    using assms by (force simp: wheel_ok_def)
  have p: "placed ?t ?w = placed ?t w"
    by (simp add: placed_def delta_of_def)
  have m: "mset (timers (insert_timer ?t ?w)) = add_mset (placed ?t w) (mset (timers w))"
    using mset_insert_timer [OF ok, of ?t] by (simp add: p)
  then show "mset (timers (snd (add_repeating when ival cb w))) = add_mset (placed ?t w) (mset (timers w))"
    by (simp add: add_repeating_def)
  have "timer_id (placed ?t w) = next_timer_id w"
    by (simp add: placed_def)
  then have "wheel_ok (insert_timer ?t ?w)"
    by (intro wheel_ok_cong [OF m assms]) (simp_all add: insert_timer_eq(1) [OF ok])
  then show "wheel_ok (snd (add_repeating when ival cb w))"
    by (simp add: add_repeating_def)
qed

lemma add_timer_repeating: "add_timer when cb w = add_repeating when 0 cb w"
  by (simp add: add_timer_def add_repeating_def)

subsection \<open>Cancellation\<close>

lemma filter_absent: "x \<notin> timer_id ` set ts \<Longrightarrow> filter (\<lambda>t. timer_id t \<noteq> x) ts = ts"
  by (induction ts) auto

lemma length_filter_present:
  "distinct (map timer_id ts) \<Longrightarrow> x \<in> timer_id ` set ts \<Longrightarrow>
   Suc (length (filter (\<lambda>t. timer_id t \<noteq> x) ts)) = length ts"
  by (induction ts) (auto simp: filter_absent)

lemma erase_id_filter:
  "distinct (map timer_id ts) \<Longrightarrow>
   erase_id x ts = (if x \<in> timer_id ` set ts then Some (filter (\<lambda>t. timer_id t \<noteq> x) ts) else None)"
  by (induction ts) (auto simp: filter_absent)

lemma cancel_buckets_filter:
  "distinct (map timer_id (concat bs)) \<Longrightarrow>
   cancel_buckets x bs =
   (if x \<in> timer_id ` set (concat bs) then Some (map (filter (\<lambda>t. timer_id t \<noteq> x)) bs) else None)"
proof (induction bs)
  case (Cons b bs)
  have b: "erase_id x b = (if x \<in> timer_id ` set b then Some (filter (\<lambda>t. timer_id t \<noteq> x) b) else None)"
    by (rule erase_id_filter) (use Cons.prems in simp)
  have "map (filter (\<lambda>t. timer_id t \<noteq> x)) bs = bs" if "x \<in> timer_id ` set b"
  proof -
    have "x \<notin> timer_id ` set (concat bs)"
      using Cons.prems that by auto
    then show ?thesis
      by (intro map_idI filter_absent) auto
  qed
  then show ?case
    using Cons b by (auto simp: filter_absent)
qed simp

lemma concat_map_filter: "concat (map (filter P) bs) = filter P (concat bs)"
  by (induction bs) simp_all

lemma cancel_eq:
  assumes "wheel_ok w"
  shows "timers (cancel x w) = filter (\<lambda>t. timer_id t \<noteq> x) (timers w)" and "wheel_ok (cancel x w)"
proof -
  let ?ids = "timer_id ` set (timers w)" and ?f = "filter (\<lambda>t. timer_id t \<noteq> x)"
  have d: "distinct (map timer_id (timers w))"
    using assms by (simp add: wheel_ok_def)
  have eq: "cancel x w = (if x \<in> ?ids then w\<lparr>buckets := map ?f (buckets w), timer_count := timer_count w - 1\<rparr> else w)"
    unfolding cancel_def cancel_buckets_filter [OF d] by simp
  have no: "?f (timers w) = timers w" if "x \<notin> ?ids"
    using that by (rule filter_absent)
  show t: "timers (cancel x w) = ?f (timers w)"
    unfolding eq using no by (simp add: concat_map_filter del: set_concat)
  have "length (?f (timers w)) = length (timers w) - 1" if "x \<in> ?ids"
    using length_filter_present [OF d that] by simp
  moreover have "distinct (map timer_id (?f (timers w)))"
    using d by (simp add: distinct_map_filter)
  ultimately show "wheel_ok (cancel x w)"
    using assms t unfolding eq by (auto simp: wheel_ok_def concat_map_filter simp del: set_concat)
qed

section \<open>Advancing the hand\<close>

text \<open>What advancing by one slot does when callbacks leave the wheel alone and no timer repeats.\<close>

abbreviation neutral :: "'cb \<Rightarrow> 'cb timer_wheel \<Rightarrow> 'cb timer_wheel" where
  "neutral \<equiv> (\<lambda>cb w. w)"

definition one_shot :: "'cb timer_wheel \<Rightarrow> bool" where
  "one_shot w \<longleftrightarrow> (\<forall>t \<in> set (timers w). interval t = 0)"

definition due_now :: "'cb timer list \<Rightarrow> 'cb fired" where
  "due_now ts = map (\<lambda>t. (timer_id t, callback t)) (filter (\<lambda>t. rounds t \<le> 0) ts)"

definition waiting :: "'cb timer list \<Rightarrow> 'cb timer list" where
  "waiting ts = map (\<lambda>t. t\<lparr>rounds := rounds t - 1\<rparr>) (filter (\<lambda>t. 0 < rounds t) ts)"

lemma waiting_simps [simp]: "waiting [] = []"
  "waiting (t # ts) = (if 0 < rounds t then t\<lparr>rounds := rounds t - 1\<rparr> # waiting ts else waiting ts)"
  by (simp_all add: waiting_def)

lemma due_now_simps [simp]: "due_now [] = []"
  "due_now (t # ts) = (if 0 < rounds t then due_now ts else (timer_id t, callback t) # due_now ts)"
  by (simp_all add: due_now_def)

lemma position_of_middle:
  "distinct (map timer_id (pre @ t # ts)) \<Longrightarrow> position_of (timer_id t) (pre @ t # ts) = Some (length pre)"
  by (induction pre) auto

lemma fire_loop_neutral:
  "s < length (buckets w) \<Longrightarrow> buckets w ! s = pre @ ts \<Longrightarrow> \<forall>t \<in> set ts. interval t = 0 \<Longrightarrow>
   distinct (map timer_id (pre @ ts)) \<Longrightarrow> length ts < fuel \<Longrightarrow>
   fire_loop fuel neutral now s (length pre) w fired =
   Some (Inr (w\<lparr>buckets := (buckets w)[s := pre @ waiting ts],
                timer_count := timer_count w - length (due_now ts)\<rparr>, fired @ due_now ts))"
proof (induction ts arbitrary: pre w fuel fired)
  case Nil
  then obtain f where f: "fuel = Suc f" by (cases fuel) auto
  from Nil.prems have pre: "pre = buckets w ! s" by simp
  show ?case
    unfolding pre f by simp
next
  case (Cons t ts)
  then obtain f where f: "fuel = Suc f" "length ts < f" by (cases fuel) auto
  show ?case
  proof (cases "0 < rounds t")
    case True
    let ?t = "t\<lparr>rounds := rounds t - 1\<rparr>"
    let ?w = "set_bucket s (pre @ ?t # ts) w"
    have "fire_loop f neutral now s (length (pre @ [?t])) ?w fired =
        Some (Inr (?w\<lparr>buckets := (buckets ?w)[s := (pre @ [?t]) @ waiting ts],
                timer_count := timer_count ?w - length (due_now ts)\<rparr>, fired @ due_now ts))"
      by (rule Cons.IH) (use Cons.prems f in \<open>auto simp: set_bucket_def\<close>)
    then show ?thesis
      using True Cons.prems f(1) by (simp add: set_bucket_def)
  next
    case False
    let ?w = "(set_bucket s (pre @ ts) w)\<lparr>timer_count := timer_count w - 1\<rparr>"
    have w: "buckets ?w ! s = pre @ ts" "fire neutral now t ?w = ?w"
      using Cons.prems by (simp_all add: set_bucket_def fire_def)
    show ?thesis
    proof (cases ts)
      case Nil
      then show ?thesis
        using False Cons.prems f(1) w(2) by (simp add: set_bucket_def)
    next
      case ts: (Cons u us)
      have "fire_loop f neutral now s (length pre) ?w (fired @ [(timer_id t, callback t)]) =
          Some (Inr (?w\<lparr>buckets := (buckets ?w)[s := pre @ waiting ts],
            timer_count := timer_count ?w - length (due_now ts)\<rparr>, (fired @ [(timer_id t, callback t)]) @ due_now ts))"
        by (rule Cons.IH) (use Cons.prems f w in \<open>auto simp: set_bucket_def\<close>)
      moreover have "position_of (timer_id u) (pre @ ts) = Some (length pre)"
        unfolding ts by (rule position_of_middle) (use Cons.prems ts in auto)
      ultimately show ?thesis
        using False Cons.prems f(1) w ts
        by (simp add: set_bucket_def nth_append del: waiting_simps due_now_simps)
          (simp add: nth_append)
    qed
  qed
qed

definition next_slot :: "'cb timer_wheel \<Rightarrow> nat" where
  "next_slot w = nat ((current_slot w + 1) mod slot_count w)"

definition step :: "'cb timer_wheel \<Rightarrow> 'cb timer_wheel" where
  "step w = w\<lparr>current_slot := int (next_slot w),
     buckets := (buckets w)[next_slot w := waiting (buckets w ! next_slot w)],
     timer_count := timer_count w - length (due_now (buckets w ! next_slot w))\<rparr>"

lemma wheel_okD:
  assumes "wheel_ok w"
  shows "0 < slot_count w" "length (buckets w) = nat (slot_count w)" "0 \<le> current_slot w"
    "current_slot w < slot_count w" "next_slot w < length (buckets w)"
  using assms by (auto simp: wheel_ok_def next_slot_def nat_less_iff)

lemma distinct_bucket:
  "distinct (map timer_id (concat bs)) \<Longrightarrow> s < length bs \<Longrightarrow> distinct (map timer_id (bs ! s))"
proof (induction bs arbitrary: s)
  case (Cons b bs)
  then show ?case by (cases s) auto
qed simp

lemma bucket_le: "s < length bs \<Longrightarrow> length (bs ! s) \<le> length (concat bs)"
proof (induction bs arbitrary: s)
  case (Cons b bs)
  then show ?case by (cases s) (auto intro: trans_le_add2)
qed simp

lemma advance_slot_eq:
  assumes "wheel_ok w" and "one_shot w" and "timer_count w < fuel"
  shows "advance_slot fuel neutral now w fired = Some (Inr (step w, fired @ due_now (buckets w ! next_slot w)))"
proof -
  let ?s = "next_slot w"
  let ?w = "w\<lparr>current_slot := int ?s\<rparr>"
  note ok = wheel_okD [OF assms(1)]
  have c: "(current_slot w + 1) smod slot_count w = int ?s"
    using ok(1,3) by (simp add: next_slot_def)
  have "buckets w ! ?s \<in> set (buckets w)"
    using ok(5) by simp
  then have one: "\<forall>t \<in> set (buckets w ! ?s). interval t = 0"
    using assms(2) by (auto simp: one_shot_def)
  have fuel: "length (buckets w ! ?s) < fuel"
    using bucket_le [OF ok(5)] assms(1,3) by (simp add: wheel_ok_def)
  have dist: "distinct (map timer_id (buckets w ! ?s))"
    by (rule distinct_bucket [OF _ ok(5)]) (use assms(1) in \<open>simp add: wheel_ok_def\<close>)
  from fire_loop_neutral [of ?s ?w "[]" "buckets w ! ?s" fuel now fired] ok(5) one fuel dist
  show ?thesis
    by (simp add: advance_slot_def c step_def)
qed

lemma waiting_ids: "map timer_id (waiting ts) = map timer_id (filter (\<lambda>t. 0 < rounds t) ts)"
  by (induction ts) simp_all

lemma length_due_now: "length (due_now ts) + length (waiting ts) = length ts"
  by (induction ts) simp_all

lemma mset_step:
  "wheel_ok w \<Longrightarrow> mset (timers (step w)) + mset (buckets w ! next_slot w) =
     mset (timers w) + mset (waiting (buckets w ! next_slot w))"
  using mset_set_nth [OF wheel_okD(5)] by (simp add: step_def)

lemma ids_step:
  assumes "wheel_ok w"
  shows "mset (map timer_id (timers (step w))) \<subseteq># mset (map timer_id (timers w))"
proof -
  let ?b = "buckets w ! next_slot w"
  have "mset (map timer_id (timers (step w))) + mset (map timer_id ?b) =
      mset (map timer_id (timers w)) + mset (map timer_id (waiting ?b))"
    using arg_cong [OF mset_step [OF assms], of "image_mset timer_id"] by simp
  moreover have "mset (map timer_id (waiting ?b)) \<subseteq># mset (map timer_id ?b)"
    unfolding waiting_ids mset_map by (intro image_mset_subseteq_mono) (simp add: mset_filter)
  ultimately show ?thesis
    by (metis mset_subset_eq_mono_add_right_cancel subset_mset.add_left_mono)
qed

lemma distinct_submset:
  assumes "mset xs \<subseteq># mset ys" and "distinct ys"
  shows "distinct xs"
proof -
  obtain c where c: "mset ys = mset xs + c"
    using assms(1) by (auto simp: mset_subset_eq_exists_conv)
  obtain zs where "mset zs = c" using ex_mset by blast
  with c have "mset ys = mset (xs @ zs)" by simp
  then have "distinct (xs @ zs)"
    using assms(2) mset_eq_imp_distinct_iff by blast
  then show ?thesis by simp
qed

lemma step_frame:
  "tick_ms (step w) = tick_ms w" "slot_count (step w) = slot_count w" "next_timer_id (step w) = next_timer_id w"
  "current_slot (step w) = int (next_slot w)" "length (buckets (step w)) = length (buckets w)"
  "timer_count (step w) = timer_count w - length (due_now (buckets w ! next_slot w))"
  by (simp_all add: step_def)

lemma step_timers:
  assumes "wheel_ok w" and "t \<in> set (timers (step w))"
  shows "\<exists>u \<in> set (timers w). timer_id t = timer_id u \<and> interval t = interval u"
proof -
  let ?b = "buckets w ! next_slot w"
  have "set (timers (step w)) \<subseteq> set (timers w) \<union> set (waiting ?b)"
    using set_update_subset_insert [of "buckets w" "next_slot w" "waiting ?b"] by (auto simp: step_def)
  moreover have "set ?b \<subseteq> set (timers w)"
    using wheel_okD(5) [OF assms(1)] by (auto intro: nth_mem)
  ultimately show ?thesis
    using assms(2) by (fastforce simp: waiting_def simp del: set_concat)
qed

lemma step_ok:
  assumes "wheel_ok w" and "one_shot w"
  shows "wheel_ok (step w)" and "one_shot (step w)" and "timer_count (step w) \<le> timer_count w"
    and "set (map timer_id (timers (step w))) \<subseteq> set (map timer_id (timers w))"
proof -
  let ?b = "buckets w ! next_slot w"
  note ok = wheel_okD [OF assms(1)]
  show "one_shot (step w)"
    using assms step_timers [OF assms(1)] by (fastforce simp: one_shot_def simp del: set_concat)
  show "set (map timer_id (timers (step w))) \<subseteq> set (map timer_id (timers w))"
    using set_mset_mono [OF ids_step [OF assms(1)]] by simp
  have "distinct (map timer_id (timers (step w)))"
    by (rule distinct_submset [OF ids_step [OF assms(1)]]) (use assms(1) in \<open>simp add: wheel_ok_def\<close>)
  moreover have "length (timers (step w)) + length ?b = length (timers w) + length (waiting ?b)"
    using arg_cong [OF mset_step [OF assms(1)], of size] by simp
  then have "timer_count (step w) = length (timers (step w))"
    using assms(1) length_due_now [of ?b] by (simp add: wheel_ok_def step_frame)
  moreover have "\<forall>t \<in> set (timers (step w)). timer_id t < next_timer_id w"
  proof
    fix t
    assume "t \<in> set (timers (step w))"
    from step_timers [OF assms(1) this] obtain u where
      u: "u \<in> set (timers w)" "timer_id t = timer_id u" by blast
    have "timer_id u < next_timer_id w"
      using assms(1) u(1) unfolding wheel_ok_def by blast
    with u(2) show "timer_id t < next_timer_id w" by simp
  qed
  moreover have "0 < tick_ms w" "tick_ms w * slot_count w < 2 ^ 31" "int (next_slot w) < slot_count w"
    using assms(1) ok by (simp_all add: wheel_ok_def)
  ultimately show "wheel_ok (step w)"
    unfolding wheel_ok_def step_frame using ok of_nat_0_le_iff by blast
  show "timer_count (step w) \<le> timer_count w"
    by (simp add: step_frame)
qed

text \<open>The number of slots the hand still has to advance before a timer in slot \<open>s\<close> fires. A negative number of rounds counts as none.\<close>

definition due :: "'cb timer_wheel \<Rightarrow> nat \<Rightarrow> 'cb timer \<Rightarrow> int" where
  "due w s t =
     (let k = (int s - current_slot w) mod slot_count w
      in (if k = 0 then slot_count w else k) + max 0 (rounds t) * slot_count w)"

lemma mod_pred: "0 < (n :: int) \<Longrightarrow> (a - 1) mod n = (if a mod n = 0 then n - 1 else a mod n - 1)"
proof -
  assume n: "0 < n"
  have "(a - 1) mod n = (a mod n - 1) mod n"
    by (simp add: mod_diff_left_eq)
  moreover have "(r - 1) mod n = (if r = 0 then n - 1 else r - 1)" if "0 \<le> r" "r < n" for r
    using that n by (auto simp: zmod_minus1 intro!: mod_pos_pos_trivial)
  ultimately show ?thesis
    using n by simp
qed

lemma slot_distance:
  assumes "wheel_ok w" and "s < length (buckets w)"
  defines "k \<equiv> (int s - current_slot w) mod slot_count w"
  shows "(int s - int (next_slot w)) mod slot_count w = (if k = 0 then slot_count w - 1 else k - 1)"
    and "s = next_slot w \<longleftrightarrow> (if k = 0 then slot_count w else k) = 1"
proof -
  let ?n = "slot_count w"
  note ok = wheel_okD [OF assms(1)]
  have c: "int (next_slot w) = (current_slot w + 1) mod ?n"
    using ok by (simp add: next_slot_def)
  have "(int s - int (next_slot w)) mod ?n = (int s - (current_slot w + 1)) mod ?n"
    unfolding c by (simp add: mod_diff_right_eq)
  also have "int s - (current_slot w + 1) = (int s - current_slot w) - 1" by simp
  finally show m: "(int s - int (next_slot w)) mod ?n = (if k = 0 then ?n - 1 else k - 1)"
    unfolding k_def using mod_pred [OF ok(1)] by simp
  have lt: "int s < ?n" "int (next_slot w) < ?n" "0 \<le> k" "k < ?n"
    using assms(2) ok by (simp_all add: k_def)
  have "s = next_slot w \<longleftrightarrow> (int s - int (next_slot w)) mod ?n = 0"
    using lt by (metis dvd_eq_mod_eq_0 mod_eq_dvd_iff mod_pos_pos_trivial of_nat_0_le_iff of_nat_eq_iff)
  then show "s = next_slot w \<longleftrightarrow> (if k = 0 then ?n else k) = 1"
    unfolding m using lt by auto
qed

lemma due_step:
  assumes "wheel_ok w" and "s < length (buckets w)"
  shows "1 \<le> due w s t"
    and "due w s t = 1 \<longleftrightarrow> s = next_slot w \<and> rounds t \<le> 0"
    and "s = next_slot w \<Longrightarrow> 0 < rounds t \<Longrightarrow> due (step w) s (t\<lparr>rounds := rounds t - 1\<rparr>) = due w s t - 1"
    and "s \<noteq> next_slot w \<Longrightarrow> due (step w) s t = due w s t - 1"
proof -
  let ?n = "slot_count w" and ?k = "(int s - current_slot w) mod slot_count w" and ?r = "max 0 (rounds t)"
  note ok = wheel_okD [OF assms(1)] and d = slot_distance [OF assms]
  obtain k where kd: "?k = k" and k: "0 \<le> k" "k < ?n" using ok(1) by simp
  note d = d [unfolded kd]
  have due: "due w s t = (if k = 0 then ?n else k) + ?r * ?n"
    by (simp add: due_def kd)
  have rn: "0 \<le> ?r * ?n" using ok(1) by simp
  obtain m where m: "?r * ?n = m" "0 \<le> m" "m = 0 \<longleftrightarrow> rounds t \<le> 0"
    using rn ok(1) by (simp add: max_def)
  show "1 \<le> due w s t" unfolding due m(1) using k m(2) ok(1) by auto
  show "due w s t = 1 \<longleftrightarrow> s = next_slot w \<and> rounds t \<le> 0"
    unfolding due m(1) m(3) [symmetric] d(2) using k m(2) ok(1) by auto
  show "due (step w) s (t\<lparr>rounds := rounds t - 1\<rparr>) = due w s t - 1" if "s = next_slot w" "0 < rounds t"
    using that d(2) ok(1) unfolding due by (simp add: due_def step_frame left_diff_distrib max_def)
  show "due (step w) s t = due w s t - 1" if "s \<noteq> next_slot w"
    using that d k unfolding due by (auto simp: due_def step_frame Let_def)
qed

lemma advance_ids:
  "wheel_ok w \<Longrightarrow> one_shot w \<Longrightarrow> timer_count w < fuel \<Longrightarrow>
   \<exists>w' out. advance fuel neutral now k w fired = Some (Inr (w', fired @ out)) \<and>
     fst ` set out \<subseteq> set (map timer_id (timers w))"
proof (induction k arbitrary: w fired)
  case (Suc k)
  let ?b = "buckets w ! next_slot w"
  note st = step_ok [OF Suc.prems(1,2)]
  from Suc.IH [OF st(1,2), of "fired @ due_now ?b"] obtain w' out where
    out: "advance fuel neutral now k (step w) (fired @ due_now ?b) = Some (Inr (w', (fired @ due_now ?b) @ out))"
    "fst ` set out \<subseteq> set (map timer_id (timers (step w)))"
    using st(3) Suc.prems(3) by auto
  have "set ?b \<subseteq> set (timers w)"
    using wheel_okD(5) [OF Suc.prems(1)] by (auto intro: nth_mem)
  then have "fst ` set (due_now ?b) \<subseteq> set (map timer_id (timers w))"
    by (auto simp: due_now_def simp del: set_concat)
  then show ?case
    using out st(4) advance_slot_eq [OF Suc.prems] by (auto simp: image_Un simp del: set_concat)
qed simp

lemma same_timer:
  "distinct (map f (concat bs)) \<Longrightarrow> i < length bs \<Longrightarrow> j < length bs \<Longrightarrow> x \<in> set (bs ! i) \<Longrightarrow> y \<in> set (bs ! j) \<Longrightarrow>
   f x = f y \<Longrightarrow> i = j \<and> x = y"
proof (induction bs arbitrary: i j)
  case (Cons b bs)
  have rest: "z \<in> set (concat bs)" if "z \<in> set (bs ! k)" "k < length bs" for z k
    using that by auto
  have disj: "f u \<noteq> f v" if "u \<in> set b" "v \<in> set (concat bs)" for u v
  proof -
    have "f ` set b \<inter> f ` set (concat bs) = {}"
      using Cons.prems(1) by simp
    then show ?thesis using that by (metis disjoint_iff imageI)
  qed
  have inj: "inj_on f (set b)" and dist: "distinct (map f (concat bs))"
    using Cons.prems(1) by (simp_all add: distinct_map)
  show ?case
  proof (cases i)
    case 0
    then show ?thesis
      using Cons.prems inj disj [OF _ rest] by (cases j) (auto dest: inj_onD)
  next
    case i: (Suc i')
    show ?thesis
    proof (cases j)
      case 0
      then show ?thesis
        using Cons.prems i disj [of y x] rest [of x i'] by simp
    next
      case (Suc j')
      then show ?thesis
        using Cons.prems i Cons.IH [OF dist, of i' j'] by simp
    qed
  qed
qed simp

lemma not_due_now:
  assumes "wheel_ok w" and "s < length (buckets w)" and "t \<in> set (buckets w ! s)"
    and "s = next_slot w \<Longrightarrow> 0 < rounds t"
  shows "timer_id t \<notin> fst ` set (due_now (buckets w ! next_slot w))"
proof
  assume "timer_id t \<in> fst ` set (due_now (buckets w ! next_slot w))"
  then obtain u where u: "u \<in> set (buckets w ! next_slot w)" "rounds u \<le> 0" "timer_id t = timer_id u"
    by (auto simp: due_now_def)
  have "distinct (map timer_id (timers w))"
    using assms(1) by (simp add: wheel_ok_def)
  from same_timer [OF this assms(2) wheel_okD(5) [OF assms(1)] assms(3) u(1) u(3)] assms(4) u(2)
  show False by simp
qed

lemma advance_schedule:
  "wheel_ok w \<Longrightarrow> one_shot w \<Longrightarrow> timer_count w < fuel \<Longrightarrow> s < length (buckets w) \<Longrightarrow> t \<in> set (buckets w ! s) \<Longrightarrow>
   \<exists>w' out. advance fuel neutral now k w fired = Some (Inr (w', fired @ out)) \<and>
     (timer_id t \<in> fst ` set out \<longleftrightarrow> due w s t \<le> int k)"
proof (induction k arbitrary: w fired t)
  case 0
  then show ?case using due_step(1) [of w s t] by simp
next
  case (Suc k)
  let ?b = "buckets w ! next_slot w" and ?n = "next_slot w"
  note st = step_ok [OF Suc.prems(1,2)] and ds = due_step [OF Suc.prems(1,4), of t]
  have fuel: "timer_count (step w) < fuel" using st(3) Suc.prems(3) by simp
  have adv: "advance fuel neutral now (Suc k) w fired = advance fuel neutral now k (step w) (fired @ due_now ?b)"
    using advance_slot_eq [OF Suc.prems(1-3)] by simp
  have bs: "buckets (step w) ! i = (if i = ?n then waiting ?b else buckets w ! i)" for i
    using wheel_okD(5) [OF Suc.prems(1)] by (simp add: step_def)
  show ?case
  proof (cases "due w s t = 1")
    case True
    then have "(timer_id t, callback t) \<in> set (due_now ?b)"
      using ds(2) Suc.prems(5) by (auto simp: due_now_def)
    then have "timer_id t \<in> fst ` set (due_now ?b)" by force
    moreover obtain w' out where
      "advance fuel neutral now k (step w) (fired @ due_now ?b) = Some (Inr (w', (fired @ due_now ?b) @ out))"
      using advance_ids [OF st(1,2) fuel] by blast
    ultimately show ?thesis
      unfolding adv using True by (auto simp: image_Un)
  next
    case False
    let ?t = "if s = ?n then t\<lparr>rounds := rounds t - 1\<rparr> else t"
    have r: "s = ?n \<Longrightarrow> 0 < rounds t" using False ds(2) by linarith
    have "?t \<in> set (buckets (step w) ! s)"
      using Suc.prems(5) r by (auto simp: bs waiting_def)
    from Suc.IH [OF st(1,2) fuel _ this, of "fired @ due_now ?b"] obtain w' out where
      out: "advance fuel neutral now k (step w) (fired @ due_now ?b) = Some (Inr (w', (fired @ due_now ?b) @ out))"
      "timer_id ?t \<in> fst ` set out \<longleftrightarrow> due (step w) s ?t \<le> int k"
      using Suc.prems(4) step_frame(5) [of w] by auto
    have "timer_id t \<notin> fst ` set (due_now ?b)"
      by (rule not_due_now [OF Suc.prems(1,4,5) r])
    then show ?thesis
      unfolding adv using out ds(3,4) r by (auto simp: image_Un split: if_splits)
  qed
qed

section \<open>The next timeout\<close>

lemma first_nonempty_spec:
  "case first_nonempty k off w of
     Some m \<Rightarrow> off \<le> m \<and> m < off + int k \<and> buckets w ! nat ((current_slot w + m) smod slot_count w) \<noteq> [] \<and>
       (\<forall>j. off \<le> j \<and> j < m \<longrightarrow> buckets w ! nat ((current_slot w + j) smod slot_count w) = [])
   | None \<Rightarrow> (\<forall>j. off \<le> j \<and> j < off + int k \<longrightarrow> buckets w ! nat ((current_slot w + j) smod slot_count w) = [])"
proof (induction k arbitrary: off)
  case (Suc k)
  let ?E = "\<lambda>j. buckets w ! nat ((current_slot w + j) smod slot_count w) = []"
  have split: "off \<le> j \<longleftrightarrow> j = off \<or> off + 1 \<le> j" for j by auto
  show ?case
    using Suc.IH [of "off + 1"]
    by (cases "first_nonempty k (off + 1) w") (auto simp: split [where j = "_ :: int"])
qed auto

lemma first_nonempty_None:
  assumes "first_nonempty k off w = None" and "off \<le> j" and "j < off + int k"
  shows "buckets w ! nat ((current_slot w + j) smod slot_count w) = []"
  using first_nonempty_spec [where k = k and off = off and w = w] assms by simp

lemma slot_at_distance:
  assumes "wheel_ok w" and "s < length (buckets w)"
  shows "nat ((current_slot w + (int s - current_slot w) mod slot_count w) smod slot_count w) = s"
proof -
  note ok = wheel_okD [OF assms(1)]
  have "(current_slot w + (int s - current_slot w) mod slot_count w) mod slot_count w = int s mod slot_count w"
    by (simp add: mod_add_right_eq)
  moreover have "int s mod slot_count w = int s"
    using assms(2) ok by simp
  moreover have "0 \<le> (int s - current_slot w) mod slot_count w" using ok(1) by simp
  ultimately show ?thesis
    using ok(1,3) by simp
qed

lemma some_bucket: "wheel_ok w \<Longrightarrow> timer_count w \<noteq> 0 \<Longrightarrow> \<exists>s < length (buckets w). buckets w ! s \<noteq> []"
  by (auto simp: wheel_ok_def in_set_conv_nth concat_eq_Nil_conv simp flip: length_greater_0_conv)

section \<open>Properties\<close>

text \<open>C30. Adding gives a fresh id and adds exactly that timer, cancelling an id removes
  exactly the timer that has it (nothing when there is none), cancelling what was just added
  restores the wheel's timers, and all of them keep the invariant: ids
  distinct and below the next id, slots in range, the counter equal to the number of timers. The wheel is one whose
  turn, \<open>tick_ms_ * slot_count_\<close> milliseconds, fits an \<open>int\<close>; the expiration is arbitrary, so the conversion of the rounds to \<open>int\<close> may wrap.\<close>

theorem timer_operations:
  assumes "wheel_ok w"
  shows "let (x, w1) = add_repeating when ival cb w
    in wheel_ok w1 \<and> x \<notin> timer_id ` set (timers w) \<and> active_count w1 = Suc (active_count w) \<and>
       (\<exists>t. mset (timers w1) = add_mset t (mset (timers w)) \<and> timer_id t = x \<and> expiration t = when \<and>
          callback t = cb \<and> interval t = ival) \<and>
       mset (timers (cancel x w1)) = mset (timers w) \<and>
       wheel_ok (cancel y w) \<and> timers (cancel y w) = filter (\<lambda>t. timer_id t \<noteq> y) (timers w) \<and>
       add_timer when cb w = add_repeating when 0 cb w"
proof -
  let ?x = "next_timer_id w"
  obtain w1 where r: "add_repeating when ival cb w = (?x, w1)"
    by (simp add: add_repeating_def)
  let ?t = "placed \<lparr>timer_id = ?x, expiration = when, callback = cb, interval = ival, rounds = 0\<rparr> w"
  note ok = add_repeating_ok [OF assms, of "when" ival cb, unfolded r snd_conv]
  have t: "timer_id ?t = ?x" "expiration ?t = when" "callback ?t = cb" "interval ?t = ival"
    by (simp_all add: placed_def)
  have fresh: "?x \<notin> timer_id ` set (timers w)"
    using assms unfolding wheel_ok_def by (metis (no_types, lifting) imageE less_irrefl)
  have "mset (timers (cancel ?x w1)) = filter_mset (\<lambda>t. timer_id t \<noteq> ?x) (mset (timers w1))"
    using cancel_eq(1) [OF ok(1)] by (simp add: mset_filter)
  also have "\<dots> = mset (filter (\<lambda>t. timer_id t \<noteq> ?x) (timers w))"
    unfolding ok(2) using t(1) by (simp add: mset_filter)
  also have "\<dots> = mset (timers w)"
    using filter_absent [OF fresh] by simp
  finally have c: "mset (timers (cancel ?x w1)) = mset (timers w)" .
  have count: "active_count w1 = Suc (active_count w)"
    using arg_cong [OF ok(2), of size] ok(1) assms by (simp add: wheel_ok_def active_count_def)
  show ?thesis
    unfolding r Let_def prod.case
    by (intro conjI exI [of _ ?t])
      (rule ok t fresh c count cancel_eq [OF assms] add_timer_repeating)+
qed

theorem timer_operations_witness:
  "wheel_ok (snd (add_repeating 5000 0 ''cb'' (TimerWheel_new 10 6 0)))"
proof -
  have "wheel_ok (TimerWheel_new 10 6 0)"
    by (simp add: wheel_ok_def TimerWheel_new_def)
  from timer_operations [OF this, of 5000 0 "''cb''" 0] show ?thesis
    by (simp add: case_prod_unfold Let_def)
qed

text \<open>C29. \<open>tick\<close> stores the current time before it computes how much time has passed since the last
  tick, so the elapsed time is always 0: no timer ever fires, whatever is in the wheel and
  however late it is, the hand does not move, and the timeout for the next poll stays the same.\<close>

theorem tick_never_fires:
  "tick fuel run now w = Some (Inr (w\<lparr>last_tick := now\<rparr>, [])) \<and>
   next_timeout_ms (w\<lparr>last_tick := now\<rparr>) = next_timeout_ms w"
proof -
  have "first_nonempty k off (w\<lparr>last_tick := now\<rparr>) = first_nonempty k off w" for k off
    by (induction k arbitrary: off) simp_all
  then show ?thesis
    by (simp add: tick_def diff_ms_def next_timeout_ms_def split: option.splits)
qed

text \<open>C35. The placement of a timer and the advance of the hand fit together, but for two cases. With
  one-shot timers and callbacks that leave the wheel alone, a timer added \<open>d\<close> ticks
  ahead, less than \<open>2\<close> to the power 31 turns, fires when the hand has advanced exactly \<open>d\<close> slots, unless \<open>d\<close> is a multiple of the number of
  slots (0 in particular, a timer already due): then it fires a whole turn late. Further ahead the
  number of rounds is what the conversion to \<open>int\<close> leaves, and a negative one counts as none: the timer fires
  when its slot is next reached and that many turns have passed.\<close>

theorem timer_schedule:
  assumes "wheel_ok w" and "one_shot w" and "Suc (timer_count w) < fuel"
  shows "let (x, w1) = add_timer when cb w;
             n = slot_count w;
             d = max 0 (diff_ms when (last_tick w)) div tick_ms w;
             D = (if n dvd d then n else d mod n) + max 0 (to_int32 (d div n)) * n
    in (\<exists>w' out. advance fuel neutral now k w1 [] = Some (Inr (w', out)) \<and> (x \<in> fst ` set out \<longleftrightarrow> D \<le> int k)) \<and>
       (d div n < 2 ^ 31 \<longrightarrow> D = (if n dvd d then d + n else d))"
proof -
  let ?new = "\<lparr>timer_id = next_timer_id w, expiration = when, callback = cb, interval = 0, rounds = 0\<rparr>"
  let ?v = "w\<lparr>next_timer_id := next_timer_id w + 1\<rparr>" and ?w = "snd (add_repeating when 0 cb w)"
  let ?d = "delta_of when w div tick_ms w" and ?n = "slot_count w"
  let ?t = "placed ?new w" and ?s = "slot_of when w"
  let ?D = "(if ?n dvd ?d then ?n else ?d mod ?n) + max 0 (to_int32 (?d div ?n)) * ?n"
  have v: "wheel_ok ?v" using assms(1) by (force simp: wheel_ok_def)
  have "delta_of when ?v = delta_of when w" by (simp add: delta_of_def)
  then have same: "slot_of when ?v = ?s" "placed ?new ?v = ?t"
    by (simp_all add: slot_of_def placed_def)
  have w: "?w = ?v\<lparr>timer_count := Suc (timer_count w), buckets := (buckets w)[?s := buckets w ! ?s @ [?t]]\<rparr>"
    using insert_timer_eq(1) [OF v, of ?new] by (simp add: add_repeating_def same)
  have s: "?s < length (buckets w)"
    using insert_timer_eq(2) [OF v, of ?new] by (simp add: same)
  note ok = add_repeating_ok [OF assms(1), of "when" 0 cb]
  have "set (timers ?w) = insert ?t (set (timers w))"
    using arg_cong [OF ok(2), of set_mset] by simp
  then have one: "one_shot ?w"
    using assms(2) by (auto simp: one_shot_def placed_def simp del: set_concat)
  have n: "0 < ?n" using assms(1) by (simp add: wheel_ok_def)
  have "int ?s = (current_slot w + ?d) mod ?n"
    using n by (simp add: slot_of_def)
  then have "(int ?s - current_slot w) mod ?n = ?d mod ?n"
    by (simp add: mod_diff_left_eq)
  then have due: "due ?w ?s ?t = ?D"
    by (simp add: due_def w placed_def Let_def dvd_eq_mod_eq_0)
  have "\<exists>w' out. advance fuel neutral now k ?w [] = Some (Inr (w', [] @ out)) \<and>
      (timer_id ?t \<in> fst ` set out \<longleftrightarrow> due ?w ?s ?t \<le> int k)"
    by (rule advance_schedule [OF ok(1) one]) (use assms(3) s in \<open>simp_all add: w\<close>)
  moreover have x: "add_timer when cb w = (timer_id ?t, ?w)"
    by (simp add: add_timer_repeating add_repeating_def placed_def)
  moreover have d: "max 0 (diff_ms when (last_tick w)) = delta_of when w"
    by (simp add: delta_of_def)
  moreover have "?D = (if ?n dvd ?d then ?d + ?n else ?d)" if "?d div ?n < 2 ^ 31"
    using rounds_exact [OF assms(1) that] div_mult_mod_eq [of ?d ?n] by (simp add: dvd_eq_mod_eq_0)
  ultimately show ?thesis
    unfolding x d Let_def prod.case due by simp
qed

theorem timer_schedule_witness:
  "\<exists>w' out. advance 3 neutral 0 2 (snd (add_timer 25000 ''cb'' (TimerWheel_new 10 6 0))) [] = Some (Inr (w', out)) \<and>
     1 \<in> fst ` set out"
proof -
  let ?w = "TimerWheel_new 10 6 0 :: string timer_wheel"
  have ok: "wheel_ok ?w" "one_shot ?w" "Suc (timer_count ?w) < 3"
    by (simp_all add: wheel_ok_def one_shot_def TimerWheel_new_def)
  have d: "max 0 (diff_ms 25000 0) div 10 = 2" by (simp add: diff_ms_def signed_divide_int_def)
  have x: "fst (add_timer 25000 ''cb'' ?w) = 1"
    by (simp add: add_timer_def TimerWheel_new_def)
  have w: "last_tick ?w = 0" "tick_ms ?w = 10" "slot_count ?w = 6"
    by (simp_all add: TimerWheel_new_def)
  from timer_schedule [OF ok, of 25000 "''cb''" 0 2] show ?thesis
    by (simp add: w d x case_prod_unfold Let_def to_int32_id)
qed

text \<open>Far ahead the conversion shows: in a wheel of one slot of a millisecond, a timer \<open>2\<close> to the power 31 milliseconds
  ahead gets a negative number of rounds and fires with the first advance of the hand.\<close>

lemma far_timer_fires_early:
  "map_option (map_sum id snd) (advance 3 neutral 0 1 (snd (add_timer (2 ^ 31 * 1000) ''cb'' (TimerWheel_new 1 1 0))) []) =
   Some (Inr [(1, ''cb'')])"
  by code_simp

text \<open>\<open>next_timeout_ms\<close> is -1 exactly when there is no timer; otherwise it is the distance, in
  milliseconds, from the hand to the nearest slot that holds a timer, counted from
  the slot the hand is on.\<close>

lemma next_timeout_nearest:
  assumes "wheel_ok w"
  shows "(next_timeout_ms w = - 1 \<longleftrightarrow> active_count w = 0) \<and>
    (active_count w \<noteq> 0 \<longrightarrow>
      (\<exists>s < length (buckets w). buckets w ! s \<noteq> [] \<and>
        next_timeout_ms w = (int s - current_slot w) mod slot_count w * tick_ms w) \<and>
      (\<forall>s < length (buckets w). buckets w ! s \<noteq> [] \<longrightarrow>
        next_timeout_ms w \<le> (int s - current_slot w) mod slot_count w * tick_ms w))"
proof (cases "timer_count w = 0")
  case True
  then show ?thesis by (simp add: next_timeout_ms_def active_count_def)
next
  case False
  let ?n = "slot_count w" and ?k = "\<lambda>s. (int s - current_slot w) mod slot_count w"
  note ok = wheel_okD [OF assms]
  have pos: "0 < tick_ms w" using assms by (simp add: wheel_ok_def)
  have k: "0 \<le> ?k s" "?k s < int (nat ?n)" for s using ok(1) by simp_all
  obtain s where ne: "s < length (buckets w)" "buckets w ! s \<noteq> []"
    using some_bucket [OF assms False] by blast
  have "first_nonempty (nat ?n) 0 w \<noteq> None"
  proof
    assume "first_nonempty (nat ?n) 0 w = None"
    from first_nonempty_None [OF this, of "?k s"] k [of s] have
      "buckets w ! nat ((current_slot w + ?k s) smod ?n) = []" by simp
    then show False using slot_at_distance [OF assms ne(1)] ne(2) by simp
  qed
  then obtain m where m: "first_nonempty (nat ?n) 0 w = Some m" by blast
  from first_nonempty_spec [where k = "nat ?n" and off = 0 and w = w] have
    m1: "0 \<le> m" "m < ?n" "buckets w ! nat ((current_slot w + m) smod ?n) \<noteq> []"
    and m2: "\<And>j. 0 \<le> j \<Longrightarrow> j < m \<Longrightarrow> buckets w ! nat ((current_slot w + j) smod ?n) = []"
    using ok(1) by (simp_all add: m)
  let ?s = "nat ((current_slot w + m) smod ?n)"
  have s: "?s < length (buckets w)" "?k ?s = m"
    using ok m1(1,2) by (simp_all add: nat_less_iff mod_diff_left_eq)
  have le: "m \<le> ?k s" if "s < length (buckets w)" "buckets w ! s \<noteq> []" for s
    using m2 [OF k(1), of s] slot_at_distance [OF assms that(1)] that(2) by (metis not_le)
  have nt: "next_timeout_ms w = m * tick_ms w"
    using False by (simp add: next_timeout_ms_def m)
  moreover have "0 \<le> m * tick_ms w" using m1(1) pos by simp
  ultimately have "next_timeout_ms w \<noteq> - 1" by simp
  moreover have "next_timeout_ms w \<le> ?k s * tick_ms w" if "s < length (buckets w)" "buckets w ! s \<noteq> []" for s
    unfolding nt using le [OF that] pos by (simp add: mult_right_mono)
  moreover have "next_timeout_ms w = ?k ?s * tick_ms w"
    unfolding nt s(2) ..
  ultimately show ?thesis
    using False s(1) m1(3) unfolding active_count_def by blast
qed

end
