(* ===== verification/Select_Poller.thy ===== *)
theory Select_Poller
  imports Timer_Wheel
begin

unbundle bit_operations_syntax

text \<open>
  Channels (\<open>src/hound/src/reactor/channel.h\<close>, \<open>channel.cpp\<close>) and the select-based poller
  (\<open>poller.h\<close>, \<open>select_poller.cpp\<close>). Channels are objects with an identity: a heap maps
  their addresses to records, and a read of an address that is not allocated is the fault
  \<open>UseAfterFree\<close>. The poller keeps the map from descriptors to channels as an association
  list (its order does not matter) beside the list it iterates. \<open>select\<close> itself is a
  parameter; \<open>select_ok\<close> states its documented behaviour.
\<close>

section \<open>Channels\<close>

definition kNoneEvent :: int where "kNoneEvent = 0"
definition kReadEvent :: int where "kReadEvent = 1"
definition kWriteEvent :: int where "kWriteEvent = 2"
definition kErrorEvent :: int where "kErrorEvent = 4"

text \<open>The four callbacks are flags here (is one set?): \<open>handle_event\<close> returns which of them it calls,
  in order. The tie is the state of the weak pointer: none, alive or expired.\<close>

datatype tie = Untied | TiedAlive | TiedExpired

record channel =
  fd :: int
  events :: int
  revents :: int
  index :: int
  read_callback :: bool
  write_callback :: bool
  close_callback :: bool
  error_callback :: bool
  tie_state :: tie
  added_to_loop :: bool

definition Channel_new :: "int \<Rightarrow> channel" where
  "Channel_new f =
     \<lparr>fd = f, events = kNoneEvent, revents = kNoneEvent, index = - 1, read_callback = False,
      write_callback = False, close_callback = False, error_callback = False, tie_state = Untied,
      added_to_loop = False\<rparr>"

definition is_reading :: "channel \<Rightarrow> bool" where
  "is_reading ch \<longleftrightarrow> events ch AND kReadEvent \<noteq> 0"

definition is_writing :: "channel \<Rightarrow> bool" where
  "is_writing ch \<longleftrightarrow> events ch AND kWriteEvent \<noteq> 0"

definition is_none_event :: "channel \<Rightarrow> bool" where
  "is_none_event ch \<longleftrightarrow> events ch = kNoneEvent"

datatype channel_call = ErrorCall | CloseCall | ReadCall timestamp | WriteCall

definition handle_event :: "timestamp \<Rightarrow> channel \<Rightarrow> channel_call list" where
  "handle_event receive_time ch =
     (if tie_state ch = TiedExpired then []
      else (if revents ch AND kErrorEvent \<noteq> 0 \<and> \<not> revents ch AND kReadEvent \<noteq> 0
            then (if error_callback ch then [ErrorCall] else []) else [])
         @ (if revents ch AND kErrorEvent \<noteq> 0 then (if close_callback ch then [CloseCall] else []) else [])
         @ (if revents ch AND kReadEvent \<noteq> 0 then (if read_callback ch then [ReadCall receive_time] else []) else [])
         @ (if revents ch AND kWriteEvent \<noteq> 0 then (if write_callback ch then [WriteCall] else []) else []))"

section \<open>The poller\<close>

type_synonym addr = nat

datatype poll_fault = UseAfterFree | FdOutOfRange

record poller =
  heap :: "addr \<rightharpoonup> channel"
  channels :: "(int \<times> addr) list"
  channel_list :: "addr list"

definition upd_channel :: "addr \<Rightarrow> (channel \<Rightarrow> channel) \<Rightarrow> poller \<Rightarrow> poll_fault + poller" where
  "upd_channel a f p =
     (case heap p a of None \<Rightarrow> Inl UseAfterFree | Some ch \<Rightarrow> Inr (p\<lparr>heap := (heap p)(a \<mapsto> f ch)\<rparr>))"

definition update_channel :: "addr \<Rightarrow> poller \<Rightarrow> poll_fault + poller" where
  "update_channel a p =
     (case heap p a of
        None \<Rightarrow> Inl UseAfterFree
      | Some ch \<Rightarrow>
          (let p1 = (case map_of (channels p) (fd ch) of
                       None \<Rightarrow> p\<lparr>channels := AList.update (fd ch) a (channels p), channel_list := channel_list p @ [a]\<rparr>
                     | Some _ \<Rightarrow> p)
           in upd_channel a (\<lambda>ch. ch\<lparr>index := 0\<rparr>) p1))"

definition remove_channel :: "addr \<Rightarrow> poller \<Rightarrow> poll_fault + poller" where
  "remove_channel a p =
     (case heap p a of
        None \<Rightarrow> Inl UseAfterFree
      | Some ch \<Rightarrow>
          (let p1 = (case map_of (channels p) (fd ch) of
                       None \<Rightarrow> p
                     | Some _ \<Rightarrow> p\<lparr>channels := AList.delete (fd ch) (channels p),
                                   channel_list := filter (\<lambda>c. c \<noteq> a) (channel_list p)\<rparr>)
           in upd_channel a (\<lambda>ch. ch\<lparr>index := - 1\<rparr>) p1))"

definition has_channel :: "addr \<Rightarrow> poller \<Rightarrow> poll_fault + bool" where
  "has_channel a p =
     (case heap p a of
        None \<Rightarrow> Inl UseAfterFree
      | Some ch \<Rightarrow> Inr (map_of (channels p) (fd ch) \<noteq> None))"

text \<open>\<open>Channel::update\<close> after a change of the event mask, and \<open>Channel::remove\<close>.\<close>

definition channel_update :: "addr \<Rightarrow> poller \<Rightarrow> poll_fault + poller" where
  "channel_update a p =
     (case upd_channel a (\<lambda>ch. ch\<lparr>added_to_loop := True\<rparr>) p of Inl e \<Rightarrow> Inl e | Inr p1 \<Rightarrow> update_channel a p1)"

definition channel_remove :: "addr \<Rightarrow> poller \<Rightarrow> poll_fault + poller" where
  "channel_remove a p =
     (case heap p a of
        None \<Rightarrow> Inl UseAfterFree
      | Some ch \<Rightarrow>
          if \<not> added_to_loop ch then Inr p
          else (case upd_channel a (\<lambda>ch. ch\<lparr>added_to_loop := False\<rparr>) p of
                  Inl e \<Rightarrow> Inl e
                | Inr p1 \<Rightarrow> remove_channel a p1))"

definition with_events :: "(int \<Rightarrow> int) \<Rightarrow> addr \<Rightarrow> poller \<Rightarrow> poll_fault + poller" where
  "with_events f a p =
     (case upd_channel a (\<lambda>ch. ch\<lparr>events := f (events ch)\<rparr>) p of Inl e \<Rightarrow> Inl e | Inr p1 \<Rightarrow> channel_update a p1)"

definition enable_reading :: "addr \<Rightarrow> poller \<Rightarrow> poll_fault + poller" where
  "enable_reading = with_events (\<lambda>e. e OR kReadEvent)"

definition enable_writing :: "addr \<Rightarrow> poller \<Rightarrow> poll_fault + poller" where
  "enable_writing = with_events (\<lambda>e. e OR kWriteEvent)"

definition disable_reading :: "addr \<Rightarrow> poller \<Rightarrow> poll_fault + poller" where
  "disable_reading = with_events (\<lambda>e. e AND NOT kReadEvent)"

definition disable_writing :: "addr \<Rightarrow> poller \<Rightarrow> poll_fault + poller" where
  "disable_writing = with_events (\<lambda>e. e AND NOT kWriteEvent)"

definition disable_all :: "addr \<Rightarrow> poller \<Rightarrow> poll_fault + poller" where
  "disable_all = with_events (\<lambda>e. kNoneEvent)"

subsection \<open>Polling\<close>

record fd_sets =
  read_fds :: "int set"
  write_fds :: "int set"
  except_fds :: "int set"

definition FD_SETSIZE :: int where
  "FD_SETSIZE = 1024"

text \<open>The loop of \<open>rebuild_fds\<close>; \<open>FD_SET\<close> of a descriptor outside the set writes out of bounds.\<close>

fun rebuild_loop :: "(addr \<rightharpoonup> channel) \<Rightarrow> (int \<times> addr) list \<Rightarrow> fd_sets \<Rightarrow> int \<Rightarrow> poll_fault + fd_sets \<times> int" where
  "rebuild_loop h [] s max_fd = Inr (s, max_fd)"
| "rebuild_loop h (fa # rest) s max_fd =
     (case h (snd fa) of
        None \<Rightarrow> Inl UseAfterFree
      | Some ch \<Rightarrow>
          if fd ch < 0 \<or> FD_SETSIZE \<le> fd ch then Inl FdOutOfRange
          else let s1 = (if is_reading ch then s\<lparr>read_fds := insert (fd ch) (read_fds s)\<rparr> else s);
                   s2 = (if is_writing ch then s1\<lparr>write_fds := insert (fd ch) (write_fds s1)\<rparr> else s1);
                   s3 = s2\<lparr>except_fds := insert (fd ch) (except_fds s2)\<rparr>
               in rebuild_loop h rest s3 (if fd ch > max_fd then fd ch else max_fd))"

definition rebuild_fds :: "poller \<Rightarrow> poll_fault + fd_sets \<times> int" where
  "rebuild_fds p =
     (case rebuild_loop (heap p) (channels p) \<lparr>read_fds = {}, write_fds = {}, except_fds = {}\<rparr> 0 of
        Inl e \<Rightarrow> Inl e
      | Inr (s, max_fd) \<Rightarrow> Inr (s, max_fd + 1))"

definition ready_mask :: "fd_sets \<Rightarrow> int \<Rightarrow> int" where
  "ready_mask s f =
     (let r0 = kNoneEvent;
          r1 = (if f \<in> read_fds s then r0 OR kReadEvent else r0);
          r2 = (if f \<in> write_fds s then r1 OR kWriteEvent else r1)
      in if f \<in> except_fds s then r2 OR kErrorEvent else r2)"

fun active_loop :: "addr list \<Rightarrow> fd_sets \<Rightarrow> int \<Rightarrow> (addr \<rightharpoonup> channel) \<Rightarrow> addr list \<Rightarrow>
    poll_fault + (addr \<rightharpoonup> channel) \<times> addr list" where
  "active_loop [] s n h active = Inr (h, active)"
| "active_loop (a # as) s n h active =
     (case h a of
        None \<Rightarrow> Inl UseAfterFree
      | Some ch \<Rightarrow>
          let r = ready_mask s (fd ch)
          in if r \<noteq> kNoneEvent
             then let h1 = h(a \<mapsto> ch\<lparr>revents := r\<rparr>)
                  in if n - 1 \<le> 0 then Inr (h1, active @ [a])
                     else active_loop as s (n - 1) h1 (active @ [a])
             else active_loop as s n h active)"

text \<open>\<open>poll\<close>: \<open>select\<close> gets the largest descriptor plus one, the sets and the timeout (none for a negative one), and
  yields its result with the sets as it left them. The timestamp of the return is not modelled
  here.\<close>

type_synonym select_call = "int \<Rightarrow> fd_sets \<Rightarrow> (int \<times> int) option \<Rightarrow> int \<times> fd_sets"

definition poll :: "select_call \<Rightarrow> int \<Rightarrow> poller \<Rightarrow> addr list \<Rightarrow> poll_fault + poller \<times> addr list" where
  "poll select timeout_ms p active =
     (case rebuild_fds p of
        Inl e \<Rightarrow> Inl e
      | Inr (s, max_fd) \<Rightarrow>
          (let ptv = (if timeout_ms \<ge> 0 then Some (timeout_ms sdiv 1000, (timeout_ms smod 1000) * 1000) else None);
               (n, s') = select max_fd s ptv
           in if n < 0 then Inr (p, active)
              else if n = 0 then Inr (p, active)
              else case active_loop (channel_list p) s' n (heap p) [] of
                     Inl e \<Rightarrow> Inl e
                   | Inr (h, active') \<Rightarrow> Inr (p\<lparr>heap := h\<rparr>, active')))"

section \<open>Invariant\<close>

definition poller_ok :: "poller \<Rightarrow> bool" where
  "poller_ok p \<longleftrightarrow>
     distinct (map fst (channels p)) \<and> distinct (channel_list p) \<and>
     set (channel_list p) = snd ` set (channels p) \<and>
     (\<forall>fa \<in> set (channels p). \<exists>ch. heap p (snd fa) = Some ch \<and> fd ch = fst fa)"

lemma poller_ok_heap:
  "poller_ok p \<Longrightarrow> fa \<in> set (channels p) \<Longrightarrow> \<exists>ch. heap p (snd fa) = Some ch \<and> fd ch = fst fa"
  by (simp add: poller_ok_def)

lemma poller_ok_mono:
  assumes "poller_ok p" and "\<And>a ch. heap p a = Some ch \<Longrightarrow> \<exists>ch'. heap p' a = Some ch' \<and> fd ch' = fd ch"
    and "channels p' = channels p" and "channel_list p' = channel_list p"
  shows "poller_ok p'"
  unfolding poller_ok_def assms(3,4)
proof (intro conjI ballI)
  fix fa
  assume "fa \<in> set (channels p)"
  then obtain ch where "heap p (snd fa) = Some ch" "fd ch = fst fa"
    using poller_ok_heap [OF assms(1)] by blast
  with assms(2) [of "snd fa"] show "\<exists>ch. heap p' (snd fa) = Some ch \<and> fd ch = fst fa" by auto
qed (use assms(1) in \<open>simp_all add: poller_ok_def\<close>)

lemma poller_okD:
  assumes "poller_ok p"
  shows "\<And>a. a \<in> set (channel_list p) \<Longrightarrow>
      \<exists>ch. heap p a = Some ch \<and> map_of (channels p) (fd ch) = Some a"
    and "\<And>f a. map_of (channels p) f = Some a \<Longrightarrow> a \<in> set (channel_list p) \<and> (\<exists>ch. heap p a = Some ch \<and> fd ch = f)"
proof -
  fix a
  assume "a \<in> set (channel_list p)"
  then obtain f where f: "(f, a) \<in> set (channels p)"
    using assms by (auto simp: poller_ok_def)
  then obtain ch where "heap p a = Some ch" "fd ch = f"
    using assms unfolding poller_ok_def by fastforce
  moreover have "map_of (channels p) f = Some a"
    using f assms by (simp add: poller_ok_def)
  ultimately show "\<exists>ch. heap p a = Some ch \<and> map_of (channels p) (fd ch) = Some a" by auto
next
  fix f a
  assume "map_of (channels p) f = Some a"
  then have "(f, a) \<in> set (channels p)" by (rule map_of_SomeD)
  then show "a \<in> set (channel_list p) \<and> (\<exists>ch. heap p a = Some ch \<and> fd ch = f)"
    using assms unfolding poller_ok_def by force
qed

lemma update_fresh: "map_of al k = None \<Longrightarrow> AList.update k v al = al @ [(k, v)]"
  by (induction al) auto

lemma update_channel_ok:
  assumes "poller_ok p" and "heap p a = Some ch"
  shows "\<exists>p'. update_channel a p = Inr p' \<and> poller_ok p' \<and> heap p' = (heap p)(a \<mapsto> ch\<lparr>index := 0\<rparr>) \<and>
    map_of (channels p') (fd ch) = (case map_of (channels p) (fd ch) of None \<Rightarrow> Some a | Some b \<Rightarrow> Some b)"
proof (cases "map_of (channels p) (fd ch)")
  case None
  let ?p = "p\<lparr>channels := channels p @ [(fd ch, a)], channel_list := channel_list p @ [a]\<rparr>"
  have "a \<notin> set (channel_list p)"
    using poller_okD(1) [OF assms(1), of a] assms(2) None by auto
  moreover have "fd ch \<notin> fst ` set (channels p)"
    using None by (simp add: map_of_eq_None_iff)
  ultimately have "poller_ok ?p"
    using assms by (auto simp: poller_ok_def)
  then have "poller_ok (?p\<lparr>heap := (heap p)(a \<mapsto> ch\<lparr>index := 0\<rparr>)\<rparr>)"
    by (rule poller_ok_mono) (use assms(2) in auto)
  then show ?thesis
    using None assms(2) by (simp add: update_channel_def upd_channel_def update_fresh Let_def map_add_def)
next
  case (Some b)
  have "poller_ok (p\<lparr>heap := (heap p)(a \<mapsto> ch\<lparr>index := 0\<rparr>)\<rparr>)"
    by (rule poller_ok_mono [OF assms(1)]) (use assms(2) in auto)
  then show ?thesis
    using Some assms(2) by (simp add: update_channel_def upd_channel_def Let_def)
qed

lemma update_channel_frame:
  assumes "update_channel a p = Inr p'" and "heap p a = Some ch"
  shows "channels p' = (case map_of (channels p) (fd ch) of None \<Rightarrow> AList.update (fd ch) a (channels p) | Some b \<Rightarrow> channels p)"
  using assms by (auto simp: update_channel_def upd_channel_def Let_def split: option.splits)

text \<open>Changing the event mask of an allocated channel registers it, unless its descriptor already has a channel.\<close>

lemma with_events_ok:
  assumes "poller_ok p" and "heap p a = Some ch"
  shows "\<exists>p'. with_events g a p = Inr p' \<and> poller_ok p' \<and>
    heap p' = (heap p)(a \<mapsto> ch\<lparr>events := g (events ch), added_to_loop := True, index := 0\<rparr>) \<and>
    channels p' = (case map_of (channels p) (fd ch) of None \<Rightarrow> AList.update (fd ch) a (channels p) | Some b \<Rightarrow> channels p)"
proof -
  let ?ch = "ch\<lparr>events := g (events ch), added_to_loop := True\<rparr>"
  let ?p = "p\<lparr>heap := (heap p)(a \<mapsto> ?ch)\<rparr>"
  have ok: "poller_ok ?p"
    by (rule poller_ok_mono [OF assms(1)]) (use assms(2) in auto)
  then obtain p' where p': "update_channel a ?p = Inr p'" "poller_ok p'" "heap p' = (heap ?p)(a \<mapsto> ?ch\<lparr>index := 0\<rparr>)"
    using update_channel_ok [OF ok, of a ?ch] by auto
  moreover have "with_events g a p = update_channel a ?p"
    using assms(2) by (simp add: with_events_def upd_channel_def channel_update_def)
  ultimately show ?thesis using update_channel_frame [OF p'(1), of ?ch] by (auto split: option.splits)
qed

lemma remove_channel_ok:
  assumes "poller_ok p" and "heap p a = Some ch" and "map_of (channels p) (fd ch) \<in> {None, Some a}"
  shows "\<exists>p'. remove_channel a p = Inr p' \<and> poller_ok p' \<and> heap p' = (heap p)(a \<mapsto> ch\<lparr>index := - 1\<rparr>) \<and>
    map_of (channels p') (fd ch) = None \<and> a \<notin> set (channel_list p')"
proof (cases "map_of (channels p) (fd ch)")
  case None
  have "poller_ok (p\<lparr>heap := (heap p)(a \<mapsto> ch\<lparr>index := - 1\<rparr>)\<rparr>)"
    by (rule poller_ok_mono [OF assms(1)]) (use assms(2) in auto)
  moreover have "a \<notin> set (channel_list p)"
    using poller_okD(1) [OF assms(1), of a] assms(2) None by auto
  ultimately show ?thesis
    using None assms(2) by (simp add: remove_channel_def upd_channel_def)
next
  case (Some b)
  then have b: "b = a" using assms(3) by simp
  let ?p = "p\<lparr>channels := AList.delete (fd ch) (channels p), channel_list := filter (\<lambda>c. c \<noteq> a) (channel_list p)\<rparr>"
  have del: "set (AList.delete (fd ch) (channels p)) = {fa \<in> set (channels p). snd fa \<noteq> a}"
  proof -
    have "fst fa = fd ch \<longleftrightarrow> snd fa = a" if fa: "fa \<in> set (channels p)" for fa
    proof -
      obtain ch' where "heap p (snd fa) = Some ch'" "fd ch' = fst fa"
        using poller_ok_heap [OF assms(1) fa] by blast
      moreover have "map_of (channels p) (fst fa) = Some (snd fa)"
        using that assms(1) by (simp add: poller_ok_def)
      ultimately show ?thesis using assms(2) Some b by auto
    qed
    then show ?thesis by (fastforce simp: AList.delete_eq)
  qed
  have fields: "channels ?p = AList.delete (fd ch) (channels p)" "heap ?p = heap p"
    "channel_list ?p = filter (\<lambda>c. c \<noteq> a) (channel_list p)" by simp_all
  have "poller_ok ?p"
    unfolding poller_ok_def fields del
  proof (intro conjI ballI)
    show "distinct (map fst (AList.delete (fd ch) (channels p)))"
      using assms(1) by (simp add: poller_ok_def AList.delete_eq distinct_map_filter)
    show "set (filter (\<lambda>c. c \<noteq> a) (channel_list p)) = snd ` {fa \<in> set (channels p). snd fa \<noteq> a}"
      using assms(1) unfolding poller_ok_def by auto
  qed (use assms(1) in \<open>auto simp: poller_ok_def\<close>)
  then have "poller_ok (?p\<lparr>heap := (heap p)(a \<mapsto> ch\<lparr>index := - 1\<rparr>)\<rparr>)"
    by (rule poller_ok_mono) (use assms(2) in auto)
  then show ?thesis
    using Some assms(2) by (simp add: remove_channel_def upd_channel_def Let_def delete_conv')
qed

section \<open>Reported channels\<close>

lemma rebuild_loop_spec:
  "rebuild_loop h fas s m = Inr (s', m') \<Longrightarrow>
   read_fds s' = read_fds s \<union> {fd ch | fa ch. fa \<in> set fas \<and> h (snd fa) = Some ch \<and> is_reading ch} \<and>
   write_fds s' = write_fds s \<union> {fd ch | fa ch. fa \<in> set fas \<and> h (snd fa) = Some ch \<and> is_writing ch} \<and>
   except_fds s' = except_fds s \<union> {fd ch | fa ch. fa \<in> set fas \<and> h (snd fa) = Some ch}"
proof (induction h fas s m rule: rebuild_loop.induct)
  case (2 h fa rest s m)
  then obtain ch where ch: "h (snd fa) = Some ch" "0 \<le> fd ch" "fd ch < FD_SETSIZE"
    by (auto split: option.splits if_splits)
  obtain f0 a0 where fa: "fa = (f0, a0)" by fastforce
  have H: "{f. \<exists>fb c. f = fd c \<and> fb \<in> set (fa # rest) \<and> h (snd fb) = Some c \<and> P c} =
      (if P ch then insert (fd ch) else id) {f. \<exists>fb c. f = fd c \<and> fb \<in> set rest \<and> h (snd fb) = Some c \<and> P c}" for P
    using ch(1) by (auto simp: fa)
  have T: "{f. \<exists>fb c. f = fd c \<and> fb \<in> set (fa # rest) \<and> h (snd fb) = Some c} =
      insert (fd ch) {f. \<exists>fb c. f = fd c \<and> fb \<in> set rest \<and> h (snd fb) = Some c}"
    using ch(1) by (auto simp: fa)
  show ?case
    using "2.IH" [OF ch(1) _ refl refl refl] "2.prems" ch unfolding H T by (simp add: Let_def)
qed simp

lemma rebuild_loop_finite:
  "rebuild_loop h fas s m = Inr (s', m') \<Longrightarrow> finite (read_fds s) \<Longrightarrow> finite (write_fds s) \<Longrightarrow> finite (except_fds s) \<Longrightarrow>
   finite (read_fds s') \<and> finite (write_fds s') \<and> finite (except_fds s')"
proof (induction h fas s m rule: rebuild_loop.induct)
  case (2 h fa rest s m)
  then obtain ch where ch: "h (snd fa) = Some ch" "\<not> (fd ch < 0 \<or> FD_SETSIZE \<le> fd ch)"
    by (auto split: option.splits if_splits)
  show ?case
    using "2.IH" [OF ch refl refl refl] "2.prems" ch by (simp add: Let_def)
qed simp

lemma rebuild_fds_spec:
  assumes "rebuild_fds p = Inr (s, m)"
  shows "read_fds s = {fd ch | fa ch. fa \<in> set (channels p) \<and> heap p (snd fa) = Some ch \<and> is_reading ch}"
    and "write_fds s = {fd ch | fa ch. fa \<in> set (channels p) \<and> heap p (snd fa) = Some ch \<and> is_writing ch}"
    and "finite (read_fds s)" "finite (write_fds s)" "finite (except_fds s)"
proof -
  obtain m' where "rebuild_loop (heap p) (channels p) \<lparr>read_fds = {}, write_fds = {}, except_fds = {}\<rparr> 0 = Inr (s, m')"
    using assms by (auto simp: rebuild_fds_def split: sum.splits)
  note r = rebuild_loop_spec [OF this, unfolded fd_sets.simps Un_empty_left] and f = rebuild_loop_finite [OF this]
  show
    "read_fds s = {fd ch | fa ch. fa \<in> set (channels p) \<and> heap p (snd fa) = Some ch \<and> is_reading ch}"
    "write_fds s = {fd ch | fa ch. fa \<in> set (channels p) \<and> heap p (snd fa) = Some ch \<and> is_writing ch}"
    "finite (read_fds s)" "finite (write_fds s)" "finite (except_fds s)"
    using r f by (simp_all only: fd_sets.simps finite.emptyI simp_thms)
qed

lemma ready_mask_zero: "ready_mask s f = 0 \<longleftrightarrow> f \<notin> read_fds s \<and> f \<notin> write_fds s \<and> f \<notin> except_fds s"
  by (simp add: ready_mask_def kNoneEvent_def kReadEvent_def kWriteEvent_def kErrorEvent_def Let_def)

definition active_in :: "fd_sets \<Rightarrow> (addr \<rightharpoonup> channel) \<Rightarrow> addr \<Rightarrow> bool" where
  "active_in s h a \<longleftrightarrow> (case h a of None \<Rightarrow> False | Some ch \<Rightarrow> ready_mask s (fd ch) \<noteq> 0)"

definition mark :: "fd_sets \<Rightarrow> channel \<Rightarrow> channel" where
  "mark s ch = ch\<lparr>revents := ready_mask s (fd ch)\<rparr>"

lemma active_loop_all:
  "distinct as \<Longrightarrow> \<forall>a \<in> set as. h a \<noteq> None \<Longrightarrow> int (length (filter (active_in s h) as)) \<le> n \<Longrightarrow>
   active_loop as s n h acc =
   Inr (\<lambda>a. if a \<in> set as \<and> active_in s h a then map_option (mark s) (h a) else h a, acc @ filter (active_in s h) as)"
proof (induction as arbitrary: n h acc)
  case (Cons a as)
  then obtain ch where ch: "h a = Some ch" by auto
  show ?case
  proof (cases "active_in s h a")
    case False
    then have "ready_mask s (fd ch) = kNoneEvent"
      using ch by (simp add: active_in_def kNoneEvent_def)
    then show ?thesis
      using Cons False ch by (auto simp: fun_eq_iff)
  next
    case True
    then have r: "ready_mask s (fd ch) \<noteq> kNoneEvent"
      using ch by (simp add: active_in_def kNoneEvent_def)
    let ?h = "h(a \<mapsto> mark s ch)"
    have same: "active_in s ?h b = active_in s h b" if "b \<noteq> a" for b
      using that by (simp add: active_in_def)
    have f: "filter (active_in s ?h) as = filter (active_in s h) as"
      by (rule filter_cong [OF refl], rule same) (use Cons.prems in auto)
    show ?thesis
    proof (cases "n - 1 \<le> 0")
      case last: True
      moreover have "length (filter (active_in s h) (a # as)) = Suc (length (filter (active_in s h) as))"
        using True by simp
      ultimately have "length (filter (active_in s h) as) = 0"
        using Cons.prems(3) by linarith
      then have "filter (active_in s h) as = []" by simp
      then have "\<not> active_in s h b" if "b \<in> set as" for b
        using that by (simp add: filter_empty_conv)
      then show ?thesis
        using last True r ch by (auto simp: fun_eq_iff mark_def Let_def filter_empty_conv)
    next
      case False
      have IH: "active_loop as s (n - 1) ?h (acc @ [a]) =
          Inr (\<lambda>b. if b \<in> set as \<and> active_in s ?h b then map_option (mark s) (?h b) else ?h b,
            (acc @ [a]) @ filter (active_in s ?h) as)"
      proof (rule Cons.IH)
        show "int (length (filter (active_in s ?h) as)) \<le> n - 1"
          unfolding f using Cons.prems(3) True by simp
      qed (use Cons.prems in auto)
      have step: "active_loop (a # as) s n h acc = active_loop as s (n - 1) ?h (acc @ [a])"
        using False r ch by (simp add: mark_def Let_def)
      have "(\<lambda>b. if b \<in> set as \<and> active_in s ?h b then map_option (mark s) (?h b) else ?h b) =
          (\<lambda>b. if b \<in> set (a # as) \<and> active_in s h b then map_option (mark s) (h b) else h b)"
      proof
        fix b
        show "(if b \<in> set as \<and> active_in s ?h b then map_option (mark s) (?h b) else ?h b) =
          (if b \<in> set (a # as) \<and> active_in s h b then map_option (mark s) (h b) else h b)"
          using True ch Cons.prems(1) same by (cases "b = a") simp_all
      qed
      then show ?thesis
        unfolding step IH f using True by simp
    qed
  qed
qed simp

section \<open>Properties\<close>

text \<open>The documented behaviour of \<open>select\<close>, for a call that returns \<open>n\<close>: the sets are left with
  members of the given ones only, and \<open>n\<close> counts the members left in the three sets.\<close>

definition select_ok :: "fd_sets \<Rightarrow> int \<Rightarrow> fd_sets \<Rightarrow> bool" where
  "select_ok s n s' \<longleftrightarrow>
     read_fds s' \<subseteq> read_fds s \<and> write_fds s' \<subseteq> write_fds s \<and> except_fds s' \<subseteq> except_fds s \<and>
     n = int (card (read_fds s') + card (write_fds s') + card (except_fds s'))"

lemma fd_inj_on_list:
  assumes "poller_ok p"
  shows "inj_on (\<lambda>a. fd (the (heap p a))) (set (channel_list p))"
proof (rule inj_onI)
  fix a b
  assume ab: "a \<in> set (channel_list p)" "b \<in> set (channel_list p)" "fd (the (heap p a)) = fd (the (heap p b))"
  from poller_okD(1) [OF assms ab(1)] poller_okD(1) [OF assms ab(2)] ab(3) show "a = b" by auto
qed

lemma active_count_le:
  assumes "poller_ok p" and "finite (read_fds s)" "finite (write_fds s)" "finite (except_fds s)"
  shows "length (filter (active_in s (heap p)) (channel_list p))
    \<le> card (read_fds s) + card (write_fds s) + card (except_fds s)"
proof -
  let ?as = "filter (active_in s (heap p)) (channel_list p)" and ?f = "\<lambda>a. fd (the (heap p a))"
  have "distinct ?as" using assms(1) by (simp add: poller_ok_def)
  then have "length ?as = card (set ?as)" by (rule distinct_card [symmetric])
  also have "\<dots> = card (?f ` set ?as)"
    by (rule card_image [symmetric], rule inj_on_subset [OF fd_inj_on_list [OF assms(1)]]) auto
  also have "\<dots> \<le> card (read_fds s \<union> write_fds s \<union> except_fds s)"
  proof (rule card_mono)
    show "?f ` set ?as \<subseteq> read_fds s \<union> write_fds s \<union> except_fds s"
      by (auto simp: active_in_def ready_mask_zero split: option.splits)
  qed (use assms in simp)
  also have "\<dots> \<le> card (read_fds s) + card (write_fds s) + card (except_fds s)"
    by (meson card_Un_le le_trans add_le_mono1)
  finally show ?thesis .
qed

text \<open>C26. When \<open>select\<close> reports ready descriptors, \<open>poll\<close> reports exactly the registered channels whose
  descriptor is in one of the returned sets, in the order of registration, with the events
  that occurred: counting down from the number \<open>select\<close> returned never ends the scan too early.
  Only channels that asked for it are reported readable or writable.\<close>

theorem poll_reports_ready:
  assumes "poller_ok p" and "rebuild_fds p = Inr (s, m)" and "0 < n" and "select_ok s n s'"
    and "select m s (if timeout_ms \<ge> 0 then Some (timeout_ms sdiv 1000, (timeout_ms smod 1000) * 1000) else None) = (n, s')"
  shows "\<exists>p'. poll select timeout_ms p act =
      Inr (p', filter (\<lambda>a. \<exists>ch. heap p a = Some ch \<and> ready_mask s' (fd ch) \<noteq> 0) (channel_list p)) \<and>
    poller_ok p' \<and>
    (\<forall>a ch. heap p a = Some ch \<longrightarrow> heap p' a =
      Some (if a \<in> set (channel_list p) \<and> ready_mask s' (fd ch) \<noteq> 0 then ch\<lparr>revents := ready_mask s' (fd ch)\<rparr> else ch)) \<and>
    read_fds s' \<subseteq> {fd ch | fa ch. fa \<in> set (channels p) \<and> heap p (snd fa) = Some ch \<and> is_reading ch} \<and>
    write_fds s' \<subseteq> {fd ch | fa ch. fa \<in> set (channels p) \<and> heap p (snd fa) = Some ch \<and> is_writing ch}"
proof -
  let ?as = "channel_list p" and ?h = "heap p"
  let ?h' = "\<lambda>a. if a \<in> set ?as \<and> active_in s' ?h a then map_option (mark s') (?h a) else ?h a"
  have sub: "read_fds s' \<subseteq> read_fds s" "write_fds s' \<subseteq> write_fds s" "except_fds s' \<subseteq> except_fds s"
    and n: "n = int (card (read_fds s') + card (write_fds s') + card (except_fds s'))"
    using assms(4) by (simp_all add: select_ok_def)
  note spec = rebuild_fds_spec [OF assms(2)]
  have fin: "finite (read_fds s')" "finite (write_fds s')" "finite (except_fds s')"
    using finite_subset [OF sub(1) spec(3)] finite_subset [OF sub(2) spec(4)] finite_subset [OF sub(3) spec(5)]
    by simp_all
  have heap: "\<forall>a \<in> set ?as. ?h a \<noteq> None"
    using poller_okD(1) [OF assms(1)] by fastforce
  have loop: "active_loop ?as s' n ?h [] = Inr (?h', filter (active_in s' ?h) ?as)"
    using active_loop_all [OF _ heap, of s' n "[]"] active_count_le [OF assms(1) fin] assms(1)
    by (simp add: poller_ok_def n)
  have "poll select timeout_ms p act = Inr (p\<lparr>heap := ?h'\<rparr>, filter (active_in s' ?h) ?as)"
    using assms(2,3,5) loop by (simp add: poll_def)
  moreover have "active_in s' ?h = (\<lambda>a. \<exists>ch. ?h a = Some ch \<and> ready_mask s' (fd ch) \<noteq> 0)"
    by (simp add: active_in_def fun_eq_iff split: option.splits)
  moreover have "poller_ok (p\<lparr>heap := ?h'\<rparr>)"
    by (rule poller_ok_mono [OF assms(1)]) (auto simp: mark_def)
  ultimately show ?thesis
    using sub(1,2) spec(1,2) by (intro exI [of _ "p\<lparr>heap := ?h'\<rparr>"]) (auto simp: mark_def active_in_def)
qed

definition one_reader :: poller where
  "one_reader = \<lparr>heap = [1 \<mapsto> (Channel_new 3)\<lparr>events := kReadEvent\<rparr>], channels = [(3, 1)], channel_list = [1]\<rparr>"

theorem poll_reports_ready_witness:
  "let select = (\<lambda>m s tv. (1, \<lparr>read_fds = {3}, write_fds = {}, except_fds = {}\<rparr>))
   in \<exists>p'. poll select 100 one_reader [] = Inr (p', [1])"
proof -
  let ?r = "\<lparr>read_fds = {3}, write_fds = {}, except_fds = {}\<rparr>"
  let ?select = "\<lambda>m s tv. (1, ?r)"
  have ok: "poller_ok one_reader"
    by (simp add: poller_ok_def one_reader_def Channel_new_def)
  have fds: "rebuild_fds one_reader = Inr (\<lparr>read_fds = {3}, write_fds = {}, except_fds = {3}\<rparr>, 4)"
    by (simp add: rebuild_fds_def one_reader_def Channel_new_def is_reading_def is_writing_def kReadEvent_def
        kWriteEvent_def FD_SETSIZE_def Let_def)
  have sel: "select_ok \<lparr>read_fds = {3}, write_fds = {}, except_fds = {3}\<rparr> 1 ?r"
    by (simp add: select_ok_def)
  have "ready_mask ?r 3 \<noteq> 0" by (simp add: ready_mask_zero)
  then show ?thesis
    using poll_reports_ready [OF ok fds zero_less_one sel, of ?select 100 "[]"]
    by (auto simp: one_reader_def Channel_new_def)
qed

text \<open>A second channel for a descriptor that already has one is not registered: updating it
  changes neither the map nor the list, so it is never reported. Removing it removes the
  registration of the first channel, which is then no longer watched but stays in the list that \<open>poll\<close> scans,
  even after it has been removed itself: when it is freed, \<open>poll\<close> reads freed memory.\<close>

lemma second_channel_breaks_first:
  assumes "poller_ok p" and "heap p a = Some ca" and "heap p b = Some cb" and "fd ca = fd cb" and "a \<noteq> b"
    and "map_of (channels p) (fd ca) = Some a"
  shows "\<exists>p1 p2 p3. update_channel b p = Inr p1 \<and> channels p1 = channels p \<and> channel_list p1 = channel_list p \<and>
    b \<notin> set (channel_list p1) \<and>
    remove_channel b p1 = Inr p2 \<and> map_of (channels p2) (fd ca) = None \<and>
    remove_channel a p2 = Inr p3 \<and> a \<in> set (channel_list p3) \<and>
    active_loop (a # as) s n ((heap p3)(a := None)) act = Inl UseAfterFree"
proof -
  have b: "b \<notin> set (channel_list p)"
    using poller_okD(1) [OF assms(1), of b] assms(3-6) by auto
  have a: "a \<in> set (channel_list p)"
    using poller_okD(2) [OF assms(1,6)] by simp
  show ?thesis
    using assms a b
    by (simp add: update_channel_def remove_channel_def upd_channel_def Let_def delete_conv')
qed

end
