(* ===== verification/Event_Loop.thy ===== *)
theory Event_Loop
  imports Select_Poller
begin

text \<open>
  The event loop (\<open>src/hound/src/reactor/event_loop.h\<close>, \<open>event_loop.cpp\<close>) and the pool of loops
  (\<open>thread_pool.h\<close>, \<open>thread_pool.cpp\<close>). The first part has one definition per operation, as one
  thread executes it, with both branches of the wakeup mechanism. The second part
  is the loop thread and any number of other threads as a step relation, in which every access to
  shared state is one step. The third part is the pool.
\<close>

section \<open>The loop object\<close>

text \<open>\<open>LOG_FATAL\<close> ends in \<open>std::abort\<close>, and so does a failing \<open>assert\<close>. Tasks and timer callbacks are both
  \<open>std::function<void()>\<close>, hence one type parameter.\<close>

datatype loop_fault = Abort | PollFault poll_fault | WheelFault wheel_fault | OutOfFuel

datatype wakeup_kind = Eventfd | SocketPair nat

record 'task event_loop =
  loop_poller :: poller
  loop_wheel :: "'task timer_wheel"
  wakeup_fd :: int
  wakeup_write_fd :: int
  wakeup_dev :: wakeup_kind
  wakeup_count :: nat
  wakeup_channel :: addr
  looping :: bool
  quit_flag :: bool
  event_handling :: bool
  calling_pending_tasks :: bool
  thread_id :: nat
  pending_tasks :: "'task list"

text \<open>\<open>wakeup_count\<close> is what the kernel keeps for the wakeup descriptors. On Linux they are one eventfd: a
  write adds one, or fails with \<open>EAGAIN\<close> at the maximum of the counter; a read resets it. On Windows they are a
  connected pair of sockets: a write sends eight bytes, or fails when the buffer, with room for some
  messages beside the first, is full; a read takes eight bytes.\<close>

definition eventfd_max :: nat where
  "eventfd_max = 2 ^ 64 - 2"

definition write_wakeup :: "wakeup_kind \<Rightarrow> nat \<Rightarrow> nat" where
  "write_wakeup k c =
     (case k of
        Eventfd \<Rightarrow> if c < eventfd_max then c + 1 else c
      | SocketPair room \<Rightarrow> if c \<le> room then c + 1 else c)"

definition read_wakeup :: "wakeup_kind \<Rightarrow> nat \<Rightarrow> nat" where
  "read_wakeup k c = (case k of Eventfd \<Rightarrow> 0 | SocketPair room \<Rightarrow> c - 1)"

text \<open>Creating the descriptors, from the results of the system calls: a negative descriptor or a call that fails aborts.\<close>

definition create_eventfd :: "int \<Rightarrow> loop_fault + int \<times> int" where
  "create_eventfd efd = (if efd < 0 then Inl Abort else Inr (efd, efd))"

definition create_socket_pair :: "int \<Rightarrow> bool \<Rightarrow> bool \<Rightarrow> int \<Rightarrow> bool \<Rightarrow> int \<Rightarrow> loop_fault + int \<times> int" where
  "create_socket_pair listener bound listening writer joined reader =
     (if listener < 0 then Inl Abort
      else if \<not> bound then Inl Abort
      else if \<not> listening then Inl Abort
      else if writer < 0 then Inl Abort
      else if \<not> joined then Inl Abort
      else if reader < 0 then Inl Abort
      else Inr (reader, writer))"

definition is_in_loop_thread :: "nat \<Rightarrow> 'task event_loop \<Rightarrow> bool" where
  "is_in_loop_thread self l \<longleftrightarrow> thread_id l = self"

definition assert_in_loop_thread :: "nat \<Rightarrow> 'task event_loop \<Rightarrow> loop_fault + unit" where
  "assert_in_loop_thread self l = (if \<not> is_in_loop_thread self l then Inl Abort else Inr ())"

text \<open>Construction by the thread \<open>self\<close> at the time \<open>now\<close>; \<open>wfds\<close> is what creating the descriptors gave.\<close>

definition wakeup_channel_new :: "int \<Rightarrow> channel" where
  "wakeup_channel_new f = (Channel_new f)\<lparr>read_callback := True\<rparr>"

definition EventLoop_new :: "nat \<Rightarrow> wakeup_kind \<Rightarrow> loop_fault + int \<times> int \<Rightarrow> timestamp \<Rightarrow> loop_fault + 'task event_loop" where
  "EventLoop_new self kind wfds now =
     (case wfds of
        Inl e \<Rightarrow> Inl e
      | Inr (read_fd, write_fd) \<Rightarrow>
          (case enable_reading 0 \<lparr>heap = [0 \<mapsto> wakeup_channel_new read_fd], channels = [], channel_list = []\<rparr> of
             Inl e \<Rightarrow> Inl (PollFault e)
           | Inr p \<Rightarrow>
               Inr \<lparr>loop_poller = p, loop_wheel = TimerWheel_new 10 6000 now, wakeup_fd = read_fd, wakeup_write_fd = write_fd,
                    wakeup_dev = kind, wakeup_count = 0,
                    wakeup_channel = 0, looping = False, quit_flag = False, event_handling = False,
                    calling_pending_tasks = False, thread_id = self, pending_tasks = []\<rparr>))"

definition wakeup :: "'task event_loop \<Rightarrow> 'task event_loop" where
  "wakeup l = l\<lparr>wakeup_count := write_wakeup (wakeup_dev l) (wakeup_count l)\<rparr>"

definition handle_wakeup_read :: "'task event_loop \<Rightarrow> 'task event_loop" where
  "handle_wakeup_read l = l\<lparr>wakeup_count := read_wakeup (wakeup_dev l) (wakeup_count l)\<rparr>"

definition quit :: "nat \<Rightarrow> 'task event_loop \<Rightarrow> 'task event_loop" where
  "quit self l =
     (let l1 = l\<lparr>quit_flag := True\<rparr> in if \<not> is_in_loop_thread self l1 then wakeup l1 else l1)"

definition push_task :: "'task \<Rightarrow> 'task event_loop \<Rightarrow> 'task event_loop" where
  "push_task t l = l\<lparr>pending_tasks := pending_tasks l @ [t]\<rparr>"

definition needs_wakeup :: "nat \<Rightarrow> 'task event_loop \<Rightarrow> bool" where
  "needs_wakeup self l \<longleftrightarrow> \<not> is_in_loop_thread self l \<or> calling_pending_tasks l"

definition queue_in_loop :: "nat \<Rightarrow> 'task \<Rightarrow> 'task event_loop \<Rightarrow> 'task event_loop" where
  "queue_in_loop self t l =
     (let l1 = push_task t l in if needs_wakeup self l1 then wakeup l1 else l1)"

definition run_in_loop ::
  "('task \<Rightarrow> 'task event_loop \<Rightarrow> 'task event_loop) \<Rightarrow> nat \<Rightarrow> 'task \<Rightarrow> 'task event_loop \<Rightarrow> 'task event_loop" where
  "run_in_loop run self t l = (if is_in_loop_thread self l then run t l else queue_in_loop self t l)"

definition swap_tasks :: "'task event_loop \<Rightarrow> 'task list \<times> 'task event_loop" where
  "swap_tasks l = (pending_tasks l, l\<lparr>pending_tasks := []\<rparr>)"

definition do_pending_tasks ::
  "('task \<Rightarrow> 'task event_loop \<Rightarrow> 'task event_loop) \<Rightarrow> 'task event_loop \<Rightarrow> 'task event_loop" where
  "do_pending_tasks run l =
     (let (tasks, l1) = swap_tasks (l\<lparr>calling_pending_tasks := True\<rparr>)
      in (fold run tasks l1)\<lparr>calling_pending_tasks := False\<rparr>)"

subsection \<open>Delegates\<close>

definition with_poller ::
  "nat \<Rightarrow> (poller \<Rightarrow> poll_fault + poller) \<Rightarrow> 'task event_loop \<Rightarrow> loop_fault + 'task event_loop" where
  "with_poller self f l =
     (case assert_in_loop_thread self l of
        Inl e \<Rightarrow> Inl e
      | Inr _ \<Rightarrow> (case f (loop_poller l) of Inl e \<Rightarrow> Inl (PollFault e) | Inr p \<Rightarrow> Inr (l\<lparr>loop_poller := p\<rparr>)))"

definition loop_update_channel :: "nat \<Rightarrow> addr \<Rightarrow> 'task event_loop \<Rightarrow> loop_fault + 'task event_loop" where
  "loop_update_channel self a = with_poller self (update_channel a)"

definition loop_remove_channel :: "nat \<Rightarrow> addr \<Rightarrow> 'task event_loop \<Rightarrow> loop_fault + 'task event_loop" where
  "loop_remove_channel self a = with_poller self (remove_channel a)"

definition loop_has_channel :: "nat \<Rightarrow> addr \<Rightarrow> 'task event_loop \<Rightarrow> loop_fault + bool" where
  "loop_has_channel self a l =
     (case assert_in_loop_thread self l of
        Inl e \<Rightarrow> Inl e
      | Inr _ \<Rightarrow> (case has_channel a (loop_poller l) of Inl e \<Rightarrow> Inl (PollFault e) | Inr b \<Rightarrow> Inr b))"

definition with_wheel ::
  "('task timer_wheel \<Rightarrow> int \<times> 'task timer_wheel) \<Rightarrow> 'task event_loop \<Rightarrow> int \<times> 'task event_loop" where
  "with_wheel f l = (let (i, w) = f (loop_wheel l) in (i, l\<lparr>loop_wheel := w\<rparr>))"

definition run_after :: "timestamp \<Rightarrow> rat \<Rightarrow> 'task \<Rightarrow> 'task event_loop \<Rightarrow> int \<times> 'task event_loop" where
  "run_after now delay cb = with_wheel (add_timer (add_seconds now delay) cb)"

definition run_every :: "timestamp \<Rightarrow> rat \<Rightarrow> 'task \<Rightarrow> 'task event_loop \<Rightarrow> int \<times> 'task event_loop" where
  "run_every now ival cb = with_wheel (add_repeating (add_seconds now ival) ival cb)"

definition run_at :: "timestamp \<Rightarrow> 'task \<Rightarrow> 'task event_loop \<Rightarrow> int \<times> 'task event_loop" where
  "run_at time cb = with_wheel (add_timer time cb)"

definition cancel_timer :: "int \<Rightarrow> 'task event_loop \<Rightarrow> 'task event_loop" where
  "cancel_timer i l = l\<lparr>loop_wheel := cancel i (loop_wheel l)\<rparr>"

subsection \<open>Destruction\<close>

text \<open>The destructor of a channel, run by the thread \<open>self\<close>; \<open>handling\<close> is the channel's flag \<open>event_handling_\<close>.
  The destructor of the loop destroys its wakeup channel and closes the descriptor.\<close>

definition free_channel :: "addr \<Rightarrow> 'task event_loop \<Rightarrow> 'task event_loop" where
  "free_channel a l = l\<lparr>loop_poller := (loop_poller l)\<lparr>heap := (heap (loop_poller l))(a := None)\<rparr>\<rparr>"

definition Channel_destroy :: "nat \<Rightarrow> bool \<Rightarrow> addr \<Rightarrow> 'task event_loop \<Rightarrow> loop_fault + 'task event_loop" where
  "Channel_destroy self handling a l =
     (case heap (loop_poller l) a of
        None \<Rightarrow> Inl (PollFault UseAfterFree)
      | Some ch \<Rightarrow>
          (if (is_in_loop_thread self l \<or> \<not> handling) \<and> added_to_loop ch
           then (case with_poller self (channel_remove a) l of Inl e \<Rightarrow> Inl e | Inr l1 \<Rightarrow> Inr (free_channel a l1))
           else Inr (free_channel a l)))"

definition EventLoop_destroy :: "nat \<Rightarrow> 'task event_loop \<Rightarrow> loop_fault + 'task event_loop" where
  "EventLoop_destroy self l =
     (case with_poller self (disable_all (wakeup_channel l)) l of
        Inl e \<Rightarrow> Inl e
      | Inr l1 \<Rightarrow> Channel_destroy self False (wakeup_channel l1) l1)"

subsection \<open>The main loop\<close>

text \<open>The code the loop calls but does not contain is collected in one record: \<open>select\<close>, the effect of channel
  callbacks, of tasks and of timer callbacks, and the fuel for the timers of one slot. The wakeup
  channel's own callback is \<open>handle_wakeup_read\<close>.\<close>

record 'task loop_env =
  env_select :: select_call
  env_time :: timestamp
  env_handler :: "addr \<Rightarrow> channel_call \<Rightarrow> 'task event_loop \<Rightarrow> loop_fault + 'task event_loop"
  env_timer :: "'task \<Rightarrow> 'task timer_wheel \<Rightarrow> 'task timer_wheel"
  env_task :: "'task \<Rightarrow> 'task event_loop \<Rightarrow> 'task event_loop"
  env_fuel :: nat

definition run_call :: "'task loop_env \<Rightarrow> addr \<Rightarrow> channel_call \<Rightarrow> 'task event_loop \<Rightarrow> loop_fault + 'task event_loop" where
  "run_call env a c l =
     (if a = wakeup_channel l then Inr (handle_wakeup_read l) else env_handler env a c l)"

fun run_calls :: "'task loop_env \<Rightarrow> addr \<Rightarrow> channel_call list \<Rightarrow> 'task event_loop \<Rightarrow> loop_fault + 'task event_loop" where
  "run_calls env a [] l = Inr l"
| "run_calls env a (c # cs) l =
     (case run_call env a c l of Inl e \<Rightarrow> Inl e | Inr l1 \<Rightarrow> run_calls env a cs l1)"

fun dispatch :: "'task loop_env \<Rightarrow> addr list \<Rightarrow> 'task event_loop \<Rightarrow> loop_fault + 'task event_loop" where
  "dispatch env [] l = Inr l"
| "dispatch env (a # as) l =
     (case heap (loop_poller l) a of
        None \<Rightarrow> Inl (PollFault UseAfterFree)
      | Some ch \<Rightarrow>
          (case run_calls env a (handle_event (env_time env) ch) l of
             Inl e \<Rightarrow> Inl e
           | Inr l1 \<Rightarrow> dispatch env as l1))"

definition loop_iteration :: "'task loop_env \<Rightarrow> 'task event_loop \<Rightarrow> loop_fault + 'task event_loop" where
  "loop_iteration env l =
     (case poll (env_select env) (to_int32 (next_timeout_ms (loop_wheel l))) (loop_poller l) [] of
        Inl e \<Rightarrow> Inl (PollFault e)
      | Inr (p, active) \<Rightarrow>
          (case dispatch env active (l\<lparr>loop_poller := p, event_handling := True\<rparr>) of
             Inl e \<Rightarrow> Inl e
           | Inr l1 \<Rightarrow>
               (let l2 = l1\<lparr>event_handling := False\<rparr>
                in case tick (env_fuel env) (env_timer env) (env_time env) (loop_wheel l2) of
                     None \<Rightarrow> Inl OutOfFuel
                   | Some (Inl e) \<Rightarrow> Inl (WheelFault e)
                   | Some (Inr (w, _)) \<Rightarrow> Inr (do_pending_tasks (env_task env) (l2\<lparr>loop_wheel := w\<rparr>)))))"

text \<open>The environment differs from one iteration to the next, hence a stream of environments. The loop need not end: the first
  argument bounds its iterations.\<close>

fun loop_while :: "nat \<Rightarrow> (nat \<Rightarrow> 'task loop_env) \<Rightarrow> 'task event_loop \<Rightarrow> loop_fault + 'task event_loop" where
  "loop_while 0 envs l = (if quit_flag l then Inr (l\<lparr>looping := False\<rparr>) else Inl OutOfFuel)"
| "loop_while (Suc n) envs l =
     (if quit_flag l then Inr (l\<lparr>looping := False\<rparr>)
      else case loop_iteration (envs 0) l of
             Inl e \<Rightarrow> Inl e
           | Inr l1 \<Rightarrow> loop_while n (\<lambda>i. envs (Suc i)) l1)"

definition enter_loop :: "nat \<Rightarrow> 'task event_loop \<Rightarrow> loop_fault + 'task event_loop" where
  "enter_loop self l =
     (case assert_in_loop_thread self l of
        Inl e \<Rightarrow> Inl e
      | Inr _ \<Rightarrow> if looping l then Inl Abort else Inr (l\<lparr>looping := True, quit_flag := False\<rparr>))"

definition loop :: "nat \<Rightarrow> nat \<Rightarrow> (nat \<Rightarrow> 'task loop_env) \<Rightarrow> 'task event_loop \<Rightarrow> loop_fault + 'task event_loop" where
  "loop n self envs l = (case enter_loop self l of Inl e \<Rightarrow> Inl e | Inr l1 \<Rightarrow> loop_while n envs l1)"

section \<open>The loop thread among other threads\<close>

text \<open>
  Where the loop thread is. \<open>Outside\<close> is code before or after \<open>loop()\<close>; \<open>Dispatch w\<close> runs the handlers of the active channels, among
  which the wakeup channel still is if \<open>w\<close>; \<open>RunTasks ts\<close> has the tasks \<open>ts\<close> of the swapped list still to run.
\<close>

datatype 'task loop_pc =
    Outside | LoopTest | AtPoll | Dispatch bool | Ticking | SwapTasks | RunTasks "'task list"

text \<open>
  A configuration is the loop object, the place of the loop thread, how many other threads are between
  their change of the shared state and their \<open>wakeup()\<close>, and whether the loop thread is there itself. The
  last three fields are history: whether the loop thread has queued a task while outside \<open>loop()\<close>, the queued tasks in
  the order of the lock, and the executed ones.
\<close>

record 'task conf =
  lp :: "'task event_loop"
  pc :: "'task loop_pc"
  owed :: nat
  own_wake :: bool
  early :: bool
  submitted :: "'task list"
  executed :: "'task list"

text \<open>User code runs in the loop thread outside the loop, in handlers, timer callbacks and tasks.\<close>

fun user_code :: "'task loop_pc \<Rightarrow> bool" where
  "user_code Outside = True"
| "user_code (Dispatch w) = True"
| "user_code Ticking = True"
| "user_code (RunTasks ts) = True"
| "user_code _ = False"

inductive loop_step :: "'task conf \<Rightarrow> 'task conf \<Rightarrow> bool" where
  other_push: "loop_step c (c\<lparr>lp := push_task t (lp c), owed := owed c + 1, submitted := submitted c @ [t]\<rparr>)"
| other_quit: "loop_step c (c\<lparr>lp := (lp c)\<lparr>quit_flag := True\<rparr>, owed := owed c + 1\<rparr>)"
| other_wake: "owed c = Suc n \<Longrightarrow> loop_step c (c\<lparr>lp := wakeup (lp c), owed := n\<rparr>)"
| own_push: "user_code (pc c) \<Longrightarrow> \<not> own_wake c \<Longrightarrow>
    loop_step c (c\<lparr>lp := push_task t (lp c), own_wake := needs_wakeup (thread_id (lp c)) (lp c),
      early := (early c \<or> pc c = Outside), submitted := submitted c @ [t]\<rparr>)"
| own_wakeup: "own_wake c \<Longrightarrow> loop_step c (c\<lparr>lp := wakeup (lp c), own_wake := False\<rparr>)"
| own_quit: "user_code (pc c) \<Longrightarrow> \<not> own_wake c \<Longrightarrow> loop_step c (c\<lparr>lp := quit (thread_id (lp c)) (lp c)\<rparr>)"
| enter: "pc c = Outside \<Longrightarrow> \<not> own_wake c \<Longrightarrow> enter_loop (thread_id (lp c)) (lp c) = Inr l \<Longrightarrow>
    loop_step c (c\<lparr>lp := l, pc := LoopTest\<rparr>)"
| leave: "pc c = LoopTest \<Longrightarrow> quit_flag (lp c) \<Longrightarrow>
    loop_step c (c\<lparr>lp := (lp c)\<lparr>looping := False\<rparr>, pc := Outside\<rparr>)"
| iterate: "pc c = LoopTest \<Longrightarrow> \<not> quit_flag (lp c) \<Longrightarrow> loop_step c (c\<lparr>pc := AtPoll\<rparr>)"
| poll_returns: "pc c = AtPoll \<Longrightarrow> (w \<longrightarrow> 0 < wakeup_count (lp c)) \<Longrightarrow>
    loop_step c (c\<lparr>lp := (lp c)\<lparr>event_handling := True\<rparr>, pc := Dispatch w\<rparr>)"
| read_wake: "pc c = Dispatch True \<Longrightarrow>
    loop_step c (c\<lparr>lp := handle_wakeup_read (lp c), pc := Dispatch False\<rparr>)"
| handled: "pc c = Dispatch False \<Longrightarrow> \<not> own_wake c \<Longrightarrow>
    loop_step c (c\<lparr>lp := (lp c)\<lparr>event_handling := False\<rparr>, pc := Ticking\<rparr>)"
| ticked: "pc c = Ticking \<Longrightarrow> \<not> own_wake c \<Longrightarrow>
    loop_step c (c\<lparr>lp := (lp c)\<lparr>calling_pending_tasks := True\<rparr>, pc := SwapTasks\<rparr>)"
| swap: "pc c = SwapTasks \<Longrightarrow> swap_tasks (lp c) = (ts, l) \<Longrightarrow> loop_step c (c\<lparr>lp := l, pc := RunTasks ts\<rparr>)"
| run_task: "pc c = RunTasks (t # ts) \<Longrightarrow> \<not> own_wake c \<Longrightarrow>
    loop_step c (c\<lparr>pc := RunTasks ts, executed := executed c @ [t]\<rparr>)"
| tasks_done: "pc c = RunTasks [] \<Longrightarrow> \<not> own_wake c \<Longrightarrow>
    loop_step c (c\<lparr>lp := (lp c)\<lparr>calling_pending_tasks := False\<rparr>, pc := LoopTest\<rparr>)"

definition start_conf :: "'task event_loop \<Rightarrow> 'task conf" where
  "start_conf l = \<lparr>lp = l, pc = Outside, owed = 0, own_wake = False, early = False, submitted = [], executed = []\<rparr>"

inductive reachable :: "'task event_loop \<Rightarrow> 'task conf \<Rightarrow> bool" for l where
  reachable_start: "reachable l (start_conf l)"
| reachable_step: "reachable l c \<Longrightarrow> loop_step c c' \<Longrightarrow> reachable l c'"

text \<open>The loop thread on its own: what it does next when the code it calls neither queues nor quits, or \<open>None\<close>
  when it is blocked in \<open>poll\<close> (no timer, no other descriptor ready) or not in the loop.\<close>

fun loop_next :: "'task conf \<Rightarrow> 'task conf option" where
  "loop_next c =
     (if own_wake c then Some (c\<lparr>lp := wakeup (lp c), own_wake := False\<rparr>)
      else case pc c of
        Outside \<Rightarrow> None
      | LoopTest \<Rightarrow> Some (if quit_flag (lp c) then c\<lparr>lp := (lp c)\<lparr>looping := False\<rparr>, pc := Outside\<rparr> else c\<lparr>pc := AtPoll\<rparr>)
      | AtPoll \<Rightarrow> if 0 < wakeup_count (lp c) then Some (c\<lparr>lp := (lp c)\<lparr>event_handling := True\<rparr>, pc := Dispatch True\<rparr>) else None
      | Dispatch True \<Rightarrow> Some (c\<lparr>lp := handle_wakeup_read (lp c), pc := Dispatch False\<rparr>)
      | Dispatch False \<Rightarrow> Some (c\<lparr>lp := (lp c)\<lparr>event_handling := False\<rparr>, pc := Ticking\<rparr>)
      | Ticking \<Rightarrow> Some (c\<lparr>lp := (lp c)\<lparr>calling_pending_tasks := True\<rparr>, pc := SwapTasks\<rparr>)
      | SwapTasks \<Rightarrow> (case swap_tasks (lp c) of (ts, l) \<Rightarrow> Some (c\<lparr>lp := l, pc := RunTasks ts\<rparr>))
      | RunTasks [] \<Rightarrow> Some (c\<lparr>lp := (lp c)\<lparr>calling_pending_tasks := False\<rparr>, pc := LoopTest\<rparr>)
      | RunTasks (t # ts) \<Rightarrow> Some (c\<lparr>pc := RunTasks ts, executed := executed c @ [t]\<rparr>))"

declare loop_next.simps [simp del]

fun loop_runs :: "nat \<Rightarrow> 'task conf \<Rightarrow> 'task conf option" where
  "loop_runs 0 c = Some c"
| "loop_runs (Suc n) c = (case loop_next c of None \<Rightarrow> None | Some c' \<Rightarrow> loop_runs n c')"

section \<open>Invariant of the configurations\<close>

fun running :: "'task loop_pc \<Rightarrow> 'task list" where
  "running (RunTasks ts) = ts"
| "running _ = []"

text \<open>Between the swap and the next return of \<open>poll\<close>, a task queued now waits for that return.\<close>

fun must_wake :: "'task loop_pc \<Rightarrow> bool" where
  "must_wake (Dispatch w) = False"
| "must_wake Ticking = False"
| "must_wake SwapTasks = False"
| "must_wake _ = True"

fun in_tasks :: "'task loop_pc \<Rightarrow> bool" where
  "in_tasks SwapTasks = True"
| "in_tasks (RunTasks ts) = True"
| "in_tasks _ = False"

definition conf_ok :: "'task conf \<Rightarrow> bool" where
  "conf_ok c \<longleftrightarrow>
     executed c @ running (pc c) @ pending_tasks (lp c) = submitted c \<and>
     calling_pending_tasks (lp c) = in_tasks (pc c) \<and>
     looping (lp c) = (pc c \<noteq> Outside) \<and>
     (own_wake c \<longrightarrow> (\<exists>ts. pc c = RunTasks ts)) \<and>
     (\<not> early c \<and> must_wake (pc c) \<and> pending_tasks (lp c) \<noteq> [] \<longrightarrow>
        0 < wakeup_count (lp c) \<or> 0 < owed c \<or> own_wake c) \<and>
     (pc c = AtPoll \<and> quit_flag (lp c) \<longrightarrow> 0 < wakeup_count (lp c) \<or> 0 < owed c)"

lemma write_wakeup_pos [simp]: "0 < write_wakeup k c"
  by (simp add: write_wakeup_def eventfd_max_def split: wakeup_kind.splits)

lemma read_wakeup_first [simp]: "read_wakeup k (write_wakeup k 0) = 0" "read_wakeup k 0 = 0"
  by (simp_all add: write_wakeup_def read_wakeup_def eventfd_max_def split: wakeup_kind.splits)

lemmas loop_ops = wakeup_def handle_wakeup_read_def push_task_def needs_wakeup_def is_in_loop_thread_def
  quit_def swap_tasks_def enter_loop_def assert_in_loop_thread_def

lemma loop_step_ok:
  assumes "loop_step c c'" and "conf_ok c"
  shows "conf_ok c'"
  using assms
proof (induction rule: loop_step.induct)
  case (own_push c t)
  then show ?case
    by (cases "pc c") (auto simp: conf_ok_def loop_ops)
next
  case (own_quit c)
  then show ?case
    by (cases "pc c") (auto simp: conf_ok_def loop_ops)
qed (auto simp: conf_ok_def loop_ops split: if_splits)

lemma EventLoop_new_fields:
  assumes "EventLoop_new self kind wfds now = Inr l"
  shows "pending_tasks l = []" "\<not> calling_pending_tasks l" "\<not> looping l" "thread_id l = self" "wakeup_count l = 0"
    "wakeup_channel l = 0" "wakeup_dev l = kind"
  using assms by (auto simp: EventLoop_new_def split: sum.splits)

interpretation loop_system: step_system "\<lambda>c. \<exists>self kind wfds now l. EventLoop_new self kind wfds now = Inr l \<and> c = start_conf l"
  loop_step conf_ok
proof
  show "conf_ok c" if "\<exists>self kind wfds now l. EventLoop_new self kind wfds now = Inr l \<and> c = start_conf l" for c :: "'task conf"
    using that by (auto simp: conf_ok_def start_conf_def dest: EventLoop_new_fields)
qed (rule loop_step_ok)

lemma reachable_steps: "reachable l c \<Longrightarrow> loop_step\<^sup>*\<^sup>* (start_conf l) c"
  by (induction rule: reachable.induct) (auto intro: rtranclp.rtrancl_into_rtrancl)

lemma reachable_ok:
  assumes "EventLoop_new self kind wfds now = Inr l" and "reachable l c"
  shows "conf_ok c"
  using loop_system.inv_reached [OF _ reachable_steps [OF assms(2)]] assms(1) by blast

section \<open>Progress of the loop thread\<close>

definition runs_to :: "'task conf \<Rightarrow> 'task conf \<Rightarrow> bool" where
  "runs_to c c' \<longleftrightarrow> (\<exists>n. loop_runs n c = Some c')"

lemma loop_next_step: "loop_next c = Some c' \<Longrightarrow> loop_step c c'"
  by (auto simp: loop_next.simps intro: loop_step.intros split: if_splits loop_pc.splits bool.splits list.splits prod.splits)

lemma runs_to_reachable: "runs_to c c' \<Longrightarrow> reachable l c \<Longrightarrow> reachable l c'"
proof -
  have "loop_runs n c = Some c' \<Longrightarrow> reachable l c \<Longrightarrow> reachable l c'" for n
    by (induction n arbitrary: c) (auto split: option.splits dest: loop_next_step intro: reachable_step)
  then show "runs_to c c' \<Longrightarrow> reachable l c \<Longrightarrow> reachable l c'"
    by (auto simp: runs_to_def)
qed

lemma runs_to_refl [simp]: "runs_to c c"
  unfolding runs_to_def by (intro exI [of _ 0]) simp

lemma runs_to_next: "loop_next c = Some c1 \<Longrightarrow> runs_to c1 c' \<Longrightarrow> runs_to c c'"
proof -
  assume "loop_next c = Some c1" "runs_to c1 c'"
  then obtain n where "loop_runs (Suc n) c = Some c'" by (auto simp: runs_to_def)
  then show "runs_to c c'" unfolding runs_to_def by blast
qed

lemma run_all:
  "pc c = RunTasks ts \<Longrightarrow> \<not> own_wake c \<Longrightarrow>
   \<exists>c'. runs_to c c' \<and> executed c' = executed c @ ts"
proof (induction ts arbitrary: c)
  case Nil
  then show ?case by (auto intro: exI [of _ c])
next
  case (Cons t ts)
  let ?c = "c\<lparr>pc := RunTasks ts, executed := executed c @ [t]\<rparr>"
  obtain c' where "runs_to ?c c'" "executed c' = executed c @ t # ts"
    using Cons.IH [of ?c] Cons.prems by auto
  moreover have "loop_next c = Some ?c"
    using Cons.prems by (simp add: loop_next.simps)
  ultimately show ?case by (blast intro: runs_to_next)
qed

text \<open>From each place of the loop thread to the end of the next task list.\<close>

definition drains :: "'task conf \<Rightarrow> bool" where
  "drains c \<longleftrightarrow> (\<exists>c'. runs_to c c' \<and> executed c' = executed c @ pending_tasks (lp c))"

lemma drains_next:
  "loop_next c = Some d \<Longrightarrow> executed d = executed c \<Longrightarrow> pending_tasks (lp d) = pending_tasks (lp c) \<Longrightarrow> drains d \<Longrightarrow> drains c"
  unfolding drains_def using runs_to_next by metis

lemma drain_swap:
  assumes "pc c = SwapTasks" and "\<not> own_wake c"
  shows "drains c"
proof -
  let ?c = "c\<lparr>lp := (lp c)\<lparr>pending_tasks := []\<rparr>, pc := RunTasks (pending_tasks (lp c))\<rparr>"
  have "loop_next c = Some ?c"
    using assms by (simp add: loop_next.simps swap_tasks_def)
  with run_all [of ?c "pending_tasks (lp c)"] assms show ?thesis
    unfolding drains_def by (auto intro: runs_to_next)
qed

lemma drain_tick: "pc c = Ticking \<Longrightarrow> \<not> own_wake c \<Longrightarrow> drains c"
  by (rule drains_next [OF _ _ _ drain_swap], simp add: loop_next.simps) simp_all

lemma drain_handled: "pc c = Dispatch False \<Longrightarrow> \<not> own_wake c \<Longrightarrow> drains c"
  by (rule drains_next [OF _ _ _ drain_tick], simp add: loop_next.simps) simp_all

lemma drain_dispatch: "pc c = Dispatch w \<Longrightarrow> \<not> own_wake c \<Longrightarrow> drains c"
  using drains_next [OF _ _ _ drain_handled, of c "c\<lparr>lp := handle_wakeup_read (lp c), pc := Dispatch False\<rparr>"] drain_handled [of c]
  by (cases w) (simp_all add: loop_next.simps handle_wakeup_read_def)

lemma drain_poll: "pc c = AtPoll \<Longrightarrow> \<not> own_wake c \<Longrightarrow> 0 < wakeup_count (lp c) \<Longrightarrow> drains c"
  by (rule drains_next [OF _ _ _ drain_dispatch], simp add: loop_next.simps) simp_all

lemma drain_test:
  "pc c = LoopTest \<Longrightarrow> \<not> own_wake c \<Longrightarrow> \<not> quit_flag (lp c) \<Longrightarrow> 0 < wakeup_count (lp c) \<Longrightarrow> drains c"
  by (rule drains_next [OF _ _ _ drain_poll], simp add: loop_next.simps) simp_all

lemma drain_tasks:
  "pc c = RunTasks ts \<Longrightarrow> \<not> own_wake c \<Longrightarrow> \<not> quit_flag (lp c) \<Longrightarrow> 0 < wakeup_count (lp c) \<Longrightarrow>
   \<exists>c'. runs_to c c' \<and> executed c' = executed c @ ts @ pending_tasks (lp c)"
proof (induction ts arbitrary: c)
  case Nil
  let ?c = "c\<lparr>lp := (lp c)\<lparr>calling_pending_tasks := False\<rparr>, pc := LoopTest\<rparr>"
  have "loop_next c = Some ?c"
    using Nil by (simp add: loop_next.simps)
  with drain_test [of ?c] Nil show ?case
    by (auto simp: drains_def intro: runs_to_next)
next
  case (Cons t ts)
  let ?c = "c\<lparr>pc := RunTasks ts, executed := executed c @ [t]\<rparr>"
  have "loop_next c = Some ?c"
    using Cons.prems by (simp add: loop_next.simps)
  with Cons.IH [of ?c] Cons.prems show ?case
    by (auto intro: runs_to_next)
qed

lemma drain_running:
  assumes "conf_ok c" and "pc c = RunTasks ts" and "owed c = 0" and "\<not> early c" and "\<not> quit_flag (lp c)"
  shows "\<exists>c'. runs_to c c' \<and> executed c' = submitted c"
proof -
  define d where "d = (if own_wake c then c\<lparr>lp := wakeup (lp c), own_wake := False\<rparr> else c)"
  have "runs_to d c' \<Longrightarrow> runs_to c c'" for c'
    using runs_to_next [of c d c'] by (auto simp: d_def loop_next.simps split: if_splits)
  moreover have "\<not> own_wake d" "pc d = RunTasks ts" "\<not> quit_flag (lp d)" "executed d = executed c"
    "pending_tasks (lp d) = pending_tasks (lp c)"
    using assms by (auto simp: d_def wakeup_def)
  moreover have "0 < wakeup_count (lp d)" if "pending_tasks (lp c) \<noteq> []"
    using that assms by (auto simp: d_def wakeup_def conf_ok_def)
  moreover have "executed c @ ts @ pending_tasks (lp c) = submitted c"
    using assms by (auto simp: conf_ok_def)
  ultimately show ?thesis
    using drain_tasks [of d ts] run_all [of d ts] by (cases "pending_tasks (lp c) = []") force+
qed

lemma drain:
  assumes "conf_ok c" and "owed c = 0" and "\<not> early c" and "\<not> quit_flag (lp c)" and "pc c \<noteq> Outside"
  shows "\<exists>c'. runs_to c c' \<and> executed c' = submitted c"
proof (cases "pending_tasks (lp c) = [] \<and> running (pc c) = []")
  case True
  then have "executed c = submitted c" using assms(1) by (simp add: conf_ok_def)
  then show ?thesis by (intro exI [of _ c]) simp
next
  case False
  have sub: "executed c @ running (pc c) @ pending_tasks (lp c) = submitted c"
    using assms(1) by (simp add: conf_ok_def)
  have own: "\<not> own_wake c" if "\<nexists>ts. pc c = RunTasks ts"
    using that assms(1) by (auto simp: conf_ok_def)
  have wake: "0 < wakeup_count (lp c)" if "must_wake (pc c)" "running (pc c) = []" "\<not> own_wake c"
    using that False assms(1-3) by (auto simp: conf_ok_def)
  show ?thesis
  proof (cases "pc c")
    case LoopTest
    then show ?thesis using drain_test [of c, unfolded drains_def] own wake sub assms(4) by simp
  next
    case AtPoll
    then show ?thesis using drain_poll [of c, unfolded drains_def] own wake sub by simp
  next
    case (Dispatch w)
    then show ?thesis using drain_dispatch [of c w, unfolded drains_def] own sub by simp
  next
    case Ticking
    then show ?thesis using drain_tick [of c, unfolded drains_def] own sub by simp
  next
    case SwapTasks
    then show ?thesis using drain_swap [of c, unfolded drains_def] own sub by simp
  next
    case (RunTasks ts)
    then show ?thesis using drain_running [OF assms(1)] assms by simp
  qed (use assms in simp)
qed

section \<open>Properties of the loop\<close>

lemma EventLoop_new_works: "\<exists>l. EventLoop_new self kind (Inr (f, g)) now = Inr l"
  by (simp add: EventLoop_new_def enable_reading_def with_events_def upd_channel_def channel_update_def
      update_channel_def Let_def)

text \<open>C14. However the loop thread and the other threads interleave, the tasks executed so far, those of the
  list being run and those still pending are, in this order, the tasks submitted: every
  queued task is executed at most once, none is lost or duplicated, and tasks run in the order in which they were
  queued.\<close>

theorem tasks_exactly_once:
  assumes "EventLoop_new self kind wfds now = Inr l" and "reachable l c"
  shows "executed c @ running (pc c) @ pending_tasks (lp c) = submitted c"
  using reachable_ok [OF assms] by (simp add: conf_ok_def)

theorem tasks_exactly_once_witness:
  "\<exists>l c. EventLoop_new 1 Eventfd (create_eventfd 5) 0 = Inr l \<and> reachable l c \<and> pending_tasks (lp c) = [7::nat] \<and>
     executed c @ running (pc c) @ pending_tasks (lp c) = submitted c"
proof -
  obtain l where l: "EventLoop_new 1 Eventfd (create_eventfd 5) 0 = Inr (l :: nat event_loop)"
    using EventLoop_new_works [of 1 Eventfd 5 5 0] by (auto simp: create_eventfd_def)
  let ?c = "(start_conf l)\<lparr>lp := push_task 7 (lp (start_conf l)), owed := owed (start_conf l) + 1,
    submitted := submitted (start_conf l) @ [7]\<rparr>"
  have "reachable l ?c"
    by (rule reachable_step [OF reachable_start other_push])
  moreover from tasks_exactly_once [OF l this]
  have "executed ?c @ running (pc ?c) @ pending_tasks (lp ?c) = submitted ?c" .
  moreover have "pending_tasks (lp ?c) = [7]"
    using EventLoop_new_fields(1) [OF l] by (simp add: start_conf_def push_task_def)
  ultimately show ?thesis using l by blast
qed

text \<open>C16. No wakeup is lost. Unless the loop thread queued a task before it entered \<open>loop()\<close>: whenever the loop thread
  is about to block in \<open>poll\<close> with a task pending or a quit requested, the wakeup descriptor is
  readable or another thread has yet to write it; and once no other thread is between its change and its
  write, the loop thread, inside the loop and not asked to quit, executes everything submitted so
  far by its own steps, with no other event and no timer.\<close>

theorem no_lost_wakeup:
  assumes "EventLoop_new self kind wfds now = Inr l" and "reachable l c" and "\<not> early c"
  shows "(pc c = AtPoll \<and> (pending_tasks (lp c) \<noteq> [] \<or> quit_flag (lp c)) \<longrightarrow>
      0 < wakeup_count (lp c) \<or> 0 < owed c) \<and>
    (owed c = 0 \<and> \<not> quit_flag (lp c) \<and> pc c \<noteq> Outside \<longrightarrow>
      (\<exists>n c'. loop_runs n c = Some c' \<and> reachable l c' \<and> executed c' = submitted c))"
proof -
  note ok = reachable_ok [OF assms(1,2)]
  have "\<not> own_wake c" if "pc c = AtPoll"
    using ok that by (auto simp: conf_ok_def)
  then have "pc c = AtPoll \<and> (pending_tasks (lp c) \<noteq> [] \<or> quit_flag (lp c)) \<longrightarrow> 0 < wakeup_count (lp c) \<or> 0 < owed c"
    using ok assms(3) by (auto simp: conf_ok_def)
  moreover have "\<exists>n c'. loop_runs n c = Some c' \<and> reachable l c' \<and> executed c' = submitted c"
    if idle: "owed c = 0 \<and> \<not> quit_flag (lp c) \<and> pc c \<noteq> Outside"
  proof -
    obtain c' where c': "runs_to c c'" "executed c' = submitted c"
      using drain [OF ok _ assms(3)] idle by auto
    from runs_to_reachable [OF c'(1) assms(2)] c' show ?thesis
      unfolding runs_to_def by blast
  qed
  ultimately show ?thesis by blast
qed

lemma enter_start:
  assumes "EventLoop_new self kind wfds now = Inr l" and "thread_id l1 = thread_id l" and "looping l1 = looping l"
  shows "enter_loop (thread_id l1) l1 = Inr (l1\<lparr>looping := True, quit_flag := False\<rparr>)"
  using assms(2,3) EventLoop_new_fields(3) [OF assms(1)] by (simp add: loop_ops)

theorem no_lost_wakeup_witness:
  "\<exists>l c n c'. EventLoop_new 1 Eventfd (create_eventfd 5) 0 = Inr l \<and> reachable l c \<and> pending_tasks (lp c) = [7::nat] \<and>
     loop_runs n c = Some c' \<and> executed c' = [7]"
proof -
  obtain l where l: "EventLoop_new 1 Eventfd (create_eventfd 5) 0 = Inr (l :: nat event_loop)"
    using EventLoop_new_works [of 1 Eventfd 5 5 0] by (auto simp: create_eventfd_def)
  note fields = EventLoop_new_fields [OF l]
  define a where "a = (start_conf l)\<lparr>lp := push_task 7 (lp (start_conf l)), owed := owed (start_conf l) + 1,
    submitted := submitted (start_conf l) @ [7]\<rparr>"
  define b where "b = a\<lparr>lp := wakeup (lp a), owed := 0\<rparr>"
  define c where "c = b\<lparr>lp := (lp b)\<lparr>looping := True, quit_flag := False\<rparr>, pc := LoopTest\<rparr>"
  have "reachable l a"
    unfolding a_def by (rule reachable_step [OF reachable_start other_push])
  then have "reachable l b"
    unfolding b_def by (rule reachable_step, intro other_wake) (simp add: a_def start_conf_def)
  then have "reachable l c"
    unfolding c_def
  proof (rule reachable_step, intro enter)
    show "enter_loop (thread_id (lp b)) (lp b) = Inr ((lp b)\<lparr>looping := True, quit_flag := False\<rparr>)"
      by (rule enter_start [OF l]) (simp_all add: a_def b_def start_conf_def loop_ops)
  qed (simp_all add: a_def b_def start_conf_def)
  moreover have "\<not> early c" "owed c = 0" "\<not> quit_flag (lp c)" "pc c \<noteq> Outside" "submitted c = [7]"
    "pending_tasks (lp c) = [7]"
    using fields by (simp_all add: a_def b_def c_def start_conf_def loop_ops)
  ultimately show ?thesis
    using no_lost_wakeup [OF l, of c] l by metis
qed

text \<open>What is asked of a loop before \<open>loop()\<close> is entered can be lost. A task the loop thread itself queues then is
  pending with no wakeup, and the loop blocks in \<open>poll\<close> without running it. A \<open>quit()\<close> by another thread,
  its wakeup included, is overwritten on entry: the loop runs one iteration and blocks in \<open>poll\<close>.\<close>

lemma early_work_lost:
  assumes "EventLoop_new self kind wfds now = Inr l"
  shows "(\<exists>c. reachable l c \<and> pc c = AtPoll \<and> pending_tasks (lp c) = [t] \<and> owed c = 0 \<and> loop_next c = None) \<and>
    (\<exists>c c1 c2 n. reachable l c \<and> quit_flag (lp c) \<and> owed c = 0 \<and> loop_step c c1 \<and> looping (lp c1) \<and>
       loop_runs n c1 = Some c2 \<and> pc c2 = AtPoll \<and> \<not> quit_flag (lp c2) \<and> loop_next c2 = None)"
proof
  note fields = EventLoop_new_fields [OF assms]
  define a where "a = (start_conf l)\<lparr>lp := push_task t (lp (start_conf l)), own_wake := False, early := True,
    submitted := submitted (start_conf l) @ [t]\<rparr>"
  define b where "b = a\<lparr>lp := (lp a)\<lparr>looping := True, quit_flag := False\<rparr>, pc := LoopTest\<rparr>"
  have "reachable l a"
    using reachable_step [OF reachable_start own_push [of "start_conf l" t]] fields
    by (simp add: a_def start_conf_def loop_ops)
  then have "reachable l b"
    unfolding b_def
  proof (rule reachable_step, intro enter)
    show "enter_loop (thread_id (lp a)) (lp a) = Inr ((lp a)\<lparr>looping := True, quit_flag := False\<rparr>)"
      by (rule enter_start [OF assms]) (simp_all add: a_def start_conf_def loop_ops)
  qed (simp_all add: a_def start_conf_def)
  then have "reachable l (b\<lparr>pc := AtPoll\<rparr>)"
    by (rule reachable_step, intro iterate) (simp_all add: b_def)
  moreover have "loop_next (b\<lparr>pc := AtPoll\<rparr>) = None"
    using fields by (simp add: loop_next.simps b_def a_def start_conf_def loop_ops)
  ultimately show "\<exists>c. reachable l c \<and> pc c = AtPoll \<and> pending_tasks (lp c) = [t] \<and> owed c = 0 \<and> loop_next c = None"
    using fields by (intro exI [of _ "b\<lparr>pc := AtPoll\<rparr>"]) (simp add: b_def a_def start_conf_def loop_ops)
next
  note fields = EventLoop_new_fields [OF assms]
  define a where "a = (start_conf l)\<lparr>lp := (lp (start_conf l))\<lparr>quit_flag := True\<rparr>, owed := owed (start_conf l) + 1\<rparr>"
  define b where "b = a\<lparr>lp := wakeup (lp a), owed := 0\<rparr>"
  define c where "c = b\<lparr>lp := (lp b)\<lparr>looping := True, quit_flag := False\<rparr>, pc := LoopTest\<rparr>"
  have "reachable l a"
    unfolding a_def by (rule reachable_step [OF reachable_start other_quit])
  then have b: "reachable l b"
    unfolding b_def by (rule reachable_step, intro other_wake) (simp add: a_def start_conf_def)
  have step: "loop_step b c"
    unfolding c_def
  proof (intro enter)
    show "enter_loop (thread_id (lp b)) (lp b) = Inr ((lp b)\<lparr>looping := True, quit_flag := False\<rparr>)"
      by (rule enter_start [OF assms]) (simp_all add: a_def b_def start_conf_def loop_ops)
  qed (simp_all add: a_def b_def start_conf_def)
  have "\<exists>d. loop_runs (Suc (Suc (Suc (Suc (Suc (Suc (Suc (Suc 0)))))))) c = Some d \<and> pc d = AtPoll \<and> \<not> quit_flag (lp d) \<and> loop_next d = None"
    using fields by (simp add: loop_next.simps c_def b_def a_def start_conf_def loop_ops)
  moreover have "quit_flag (lp b)" "owed b = 0" "looping (lp c)"
    by (simp_all add: c_def b_def a_def start_conf_def loop_ops)
  ultimately show "\<exists>c c1 c2 n. reachable l c \<and> quit_flag (lp c) \<and> owed c = 0 \<and> loop_step c c1 \<and> looping (lp c1) \<and>
       loop_runs n c1 = Some c2 \<and> pc c2 = AtPoll \<and> \<not> quit_flag (lp c2) \<and> loop_next c2 = None"
    using b step by metis
qed

lemma queue_other_fields:
  assumes "thread_id l \<noteq> other"
  shows "fold (queue_in_loop other) ts l =
    l\<lparr>wakeup_count := (write_wakeup (wakeup_dev l) ^^ length ts) (wakeup_count l), pending_tasks := pending_tasks l @ ts\<rparr>"
  using assms
proof (induction ts arbitrary: l)
  case (Cons t ts)
  have "queue_in_loop other t l = l\<lparr>wakeup_count := write_wakeup (wakeup_dev l) (wakeup_count l), pending_tasks := pending_tasks l @ [t]\<rparr>"
    using Cons.prems by (simp add: queue_in_loop_def loop_ops)
  then show ?case
    using Cons.prems by (simp add: Cons.IH funpow_swap1)
qed simp

definition wakeup_registered :: "int \<Rightarrow> int \<Rightarrow> poller" where
  "wakeup_registered f r =
     \<lparr>heap = [0 \<mapsto> (wakeup_channel_new f)\<lparr>events := kReadEvent, revents := r, added_to_loop := True, index := 0\<rparr>],
      channels = [(f, 0)], channel_list = [0]\<rparr>"

lemma EventLoop_new_poller:
  "EventLoop_new self kind (Inr (f, g)) now = Inr l \<Longrightarrow> loop_poller l = wakeup_registered f 0"
  by (auto simp: EventLoop_new_def enable_reading_def with_events_def upd_channel_def channel_update_def
      update_channel_def Let_def wakeup_registered_def wakeup_channel_new_def Channel_new_def kNoneEvent_def split: if_splits)

lemma poll_wakeup:
  assumes "0 \<le> f" and "f < FD_SETSIZE" and "\<And>m s tv. select m s tv = (1, \<lparr>read_fds = {f}, write_fds = {}, except_fds = {}\<rparr>)"
  shows "poll select ms (wakeup_registered f r) act = Inr (wakeup_registered f kReadEvent, [0])"
  using assms
  by (simp add: poll_def rebuild_fds_def wakeup_registered_def wakeup_channel_new_def Channel_new_def Let_def
      ready_mask_def kNoneEvent_def kReadEvent_def)

text \<open>A loop leaves no registration behind when its own thread destroys it; another thread aborts.\<close>

lemma EventLoop_destroy_clean:
  assumes "EventLoop_new self kind (Inr (f, g)) now = Inr l"
  shows "\<exists>l1. EventLoop_destroy self l = Inr l1 \<and> channels (loop_poller l1) = [] \<and> channel_list (loop_poller l1) = [] \<and>
      heap (loop_poller l1) = Map.empty"
    and "other \<noteq> self \<Longrightarrow> EventLoop_destroy other l = Inl Abort"
  using EventLoop_new_fields [OF assms] EventLoop_new_poller [OF assms]
  by (simp_all add: EventLoop_destroy_def Channel_destroy_def free_channel_def with_poller_def loop_ops disable_all_def
      with_events_def channel_update_def upd_channel_def update_channel_def channel_remove_def remove_channel_def
      wakeup_registered_def wakeup_channel_new_def Channel_new_def Let_def)

text \<open>One iteration of the loop composes the poller, the channels, the timer wheel and the task queue: when other threads have queued
  \<open>ts\<close> on a new loop and \<open>select\<close> reports the wakeup descriptor readable, the iteration reads the
  descriptor once, runs exactly \<open>ts\<close> in order, with the flag set that makes tasks queued meanwhile wake the
  loop again, and clears the flag.\<close>

lemma wakeup_iteration:
  assumes "EventLoop_new self kind (Inr (f, g)) now = Inr l" and "0 \<le> f" and "f < FD_SETSIZE" and "other \<noteq> self"
    and "\<And>m s tv. env_select env m s tv = (1, \<lparr>read_fds = {f}, write_fds = {}, except_fds = {}\<rparr>)"
  shows "\<exists>l1. loop_iteration env (fold (queue_in_loop other) ts l) =
      Inr ((fold (env_task env) ts l1)\<lparr>calling_pending_tasks := False\<rparr>) \<and>
    wakeup_count l1 = read_wakeup kind ((write_wakeup kind ^^ length ts) 0) \<and> pending_tasks l1 = [] \<and> calling_pending_tasks l1 \<and> \<not> event_handling l1"
proof -
  note poll = poll_wakeup [OF assms(2,3,5)]
  note fields = EventLoop_new_fields [OF assms(1)] EventLoop_new_poller [OF assms(1)]
  have ready: "heap (wakeup_registered f kReadEvent) 0 =
      Some ((wakeup_channel_new f)\<lparr>events := kReadEvent, revents := kReadEvent, added_to_loop := True, index := 0\<rparr>)"
    by (simp add: wakeup_registered_def)
  have calls: "handle_event tm ((wakeup_channel_new f)\<lparr>events := kReadEvent, revents := kReadEvent, added_to_loop := True, index := 0\<rparr>)
      = [ReadCall tm]" for tm
    by (simp add: handle_event_def wakeup_channel_new_def Channel_new_def kReadEvent_def kErrorEvent_def kWriteEvent_def)
  show ?thesis
    using assms(4) fields
    by (simp add: loop_iteration_def queue_other_fields poll ready calls run_call_def handle_wakeup_read_def
        tick_def diff_ms_def do_pending_tasks_def swap_tasks_def Let_def del: fold_simps) (intro exI conjI, rule refl, simp_all)
qed

end
