(* ===== verification/Thread_Pool.thy ===== *)
theory Thread_Pool
  imports Event_Loop "HOL-Library.Multiset"
begin

text \<open>
  The pool of event loops (\<open>src/hound/src/reactor/thread_pool.h\<close>, \<open>thread_pool.cpp\<close>). Loops are objects with an identity,
  kept in a heap; the thread-local \<open>EventLoop::t_loop_in_this_thread_\<close> is a map from threads to loops.
  Thread identifiers, the outcome of creating wakeup descriptors and the hardware concurrency are
  parameters.
\<close>

section \<open>Loops and the pool\<close>

type_synonym tid = nat
type_synonym loop_id = nat

record 'task loop_store =
  loop_heap :: "loop_id \<rightharpoonup> 'task event_loop"
  next_loop_id :: loop_id
  current_loop :: "tid \<rightharpoonup> loop_id"

definition current :: "tid \<Rightarrow> 'task loop_store \<Rightarrow> loop_id option" where
  "current self w = current_loop w self"

definition make_loop :: "tid \<Rightarrow> wakeup_kind \<Rightarrow> (loop_id \<Rightarrow> loop_fault + int \<times> int) \<Rightarrow> timestamp \<Rightarrow> 'task loop_store \<Rightarrow> loop_fault + loop_id \<times> 'task loop_store" where
  "make_loop self kind wfds now w =
     (let i = next_loop_id w
      in case EventLoop_new self kind (wfds i) now of
           Inl e \<Rightarrow> Inl e
         | Inr l \<Rightarrow> Inr (i, w\<lparr>loop_heap := (loop_heap w)(i \<mapsto> l), next_loop_id := i + 1,
                              current_loop := (current_loop w)(self \<mapsto> i)\<rparr>))"

record thread_pool =
  base_loop :: loop_id
  thread_count :: int
  next_index :: size_t
  worker_loops :: "loop_id list"
  pool_loops :: "loop_id list"
  threads :: "(tid \<times> loop_id) list"
  started :: bool

definition ThreadPool_new :: "loop_id \<Rightarrow> 32 word \<Rightarrow> thread_pool" where
  "ThreadPool_new base hardware_concurrency =
     (let n = sint hardware_concurrency
      in \<lparr>base_loop = base, thread_count = (if n < 1 then 1 else n), next_index = 0, worker_loops = [],
          pool_loops = [], threads = [], started = False\<rparr>)"

definition set_thread_count :: "int \<Rightarrow> thread_pool \<Rightarrow> thread_pool" where
  "set_thread_count n pool = pool\<lparr>thread_count := n\<rparr>"

fun make_workers :: "nat \<Rightarrow> tid \<Rightarrow> wakeup_kind \<Rightarrow> (loop_id \<Rightarrow> loop_fault + int \<times> int) \<Rightarrow> timestamp \<Rightarrow> thread_pool \<Rightarrow> 'task loop_store \<Rightarrow>
    loop_fault + thread_pool \<times> 'task loop_store" where
  "make_workers 0 self kind wfds now pool w = Inr (pool, w)"
| "make_workers (Suc n) self kind wfds now pool w =
     (case make_loop self kind wfds now w of
        Inl e \<Rightarrow> Inl e
      | Inr (i, w1) \<Rightarrow> make_workers n self kind wfds now (pool\<lparr>worker_loops := worker_loops pool @ [i]\<rparr>) w1)"

text \<open>\<open>start\<close>, called by the thread \<open>self\<close>; the worker for the \<open>i\<close>-th loop is the thread \<open>spawn i\<close>.\<close>

definition start :: "tid \<Rightarrow> wakeup_kind \<Rightarrow> (loop_id \<Rightarrow> loop_fault + int \<times> int) \<Rightarrow> (loop_id \<Rightarrow> tid) \<Rightarrow> timestamp \<Rightarrow> thread_pool \<Rightarrow> 'task loop_store \<Rightarrow>
    loop_fault + thread_pool \<times> 'task loop_store" where
  "start self kind wfds spawn now pool w =
     (if started pool then Inl Abort
      else case make_workers (nat (thread_count pool)) self kind wfds now pool w of
             Inl e \<Rightarrow> Inl e
           | Inr (pool1, w1) \<Rightarrow>
               Inr (pool1\<lparr>pool_loops := base_loop pool1 # worker_loops pool1,
                          threads := threads pool1 @ map (\<lambda>i. (spawn i, i)) (worker_loops pool1),
                          started := True\<rparr>, w1))"

definition worker_thread_func :: "'task event_loop \<Rightarrow> 'task event_loop" where
  "worker_thread_func l = l"

text \<open>The body of a worker thread; \<open>thread_init\<close> is the optional initialisation of the caller.\<close>

definition worker_body :: "nat \<Rightarrow> (nat \<Rightarrow> 'task loop_env) \<Rightarrow> ('task event_loop \<Rightarrow> 'task event_loop) option \<Rightarrow> tid \<Rightarrow>
    'task event_loop \<Rightarrow> loop_fault + 'task event_loop" where
  "worker_body n envs thread_init tid l =
     (let l1 = worker_thread_func l;
          l2 = (case thread_init of None \<Rightarrow> l1 | Some f \<Rightarrow> f l1)
      in loop n tid envs l2)"

datatype pool_fault = DivisionByZero

definition get_next_loop :: "thread_pool \<Rightarrow> pool_fault + loop_id \<times> thread_pool" where
  "get_next_loop pool =
     (let idx = next_index pool;
          pool1 = pool\<lparr>next_index := next_index pool + 1\<rparr>
      in if pool_loops pool1 = [] then Inl DivisionByZero
         else Inr (pool_loops pool1 ! (unat idx mod length (pool_loops pool1)), pool1))"

definition loop_count :: "thread_pool \<Rightarrow> nat" where
  "loop_count pool = length (pool_loops pool)"

text \<open>The destructor's first loop, run by the thread \<open>self\<close>; the second joins the threads.\<close>

definition quit_workers :: "tid \<Rightarrow> thread_pool \<Rightarrow> 'task loop_store \<Rightarrow> 'task loop_store" where
  "quit_workers self pool w =
     fold (\<lambda>i w. case loop_heap w i of None \<Rightarrow> w | Some l \<Rightarrow> w\<lparr>loop_heap := (loop_heap w)(i \<mapsto> quit self l)\<rparr>)
       (worker_loops pool) w"

section \<open>Round robin\<close>

fun next_loops :: "nat \<Rightarrow> thread_pool \<Rightarrow> pool_fault + loop_id list \<times> thread_pool" where
  "next_loops 0 pool = Inr ([], pool)"
| "next_loops (Suc n) pool =
     (case get_next_loop pool of
        Inl e \<Rightarrow> Inl e
      | Inr (i, pool1) \<Rightarrow> map_sum id (\<lambda>(is, p). (i # is, p)) (next_loops n pool1))"

lemma next_loops_eq:
  "pool_loops pool \<noteq> [] \<Longrightarrow> unat (next_index pool) + n < 2 ^ 64 \<Longrightarrow>
   next_loops n pool =
     Inr (map (\<lambda>k. pool_loops pool ! (k mod length (pool_loops pool))) [unat (next_index pool)..<unat (next_index pool) + n],
          pool\<lparr>next_index := next_index pool + of_nat n\<rparr>)"
proof (induction n arbitrary: pool)
  case (Suc n)
  let ?p = "pool\<lparr>next_index := next_index pool + 1\<rparr>"
  have "unat (next_index pool + 1) = unat (next_index pool) + 1"
    using Suc.prems(2) by (subst unat_add_lem [THEN iffD1]) simp_all
  then show ?case
    using Suc.IH [of ?p] Suc.prems
    by (cases "n = 0") (simp_all add: get_next_loop_def Let_def upt_conv_Cons add.assoc add.commute [of 1])
qed simp

lemma window_perm: "mset (map (\<lambda>k. k mod n) [s..<s + n]) = mset [0..<n]"
proof (induction s)
  case 0
  have "map (\<lambda>k. k mod n) [0..<n] = [0..<n]" by (rule map_idI) auto
  then show ?case by simp
next
  case (Suc s)
  show ?case
  proof (cases "n = 0")
    case False
    then have "[s..<s + n] = s # [Suc s..<s + n]" and "[Suc s..<Suc s + n] = [Suc s..<s + n] @ [s + n]"
      by (simp_all add: upt_conv_Cons)
    with Suc show ?thesis by simp
  qed simp
qed


section \<open>Workers\<close>

lemma make_loop_ok:
  fixes w :: "'task loop_store"
  assumes "wfds (next_loop_id w) = Inr fg"
  shows "\<exists>l. make_loop self kind wfds now w =
      Inr (next_loop_id w, w\<lparr>loop_heap := (loop_heap w)(next_loop_id w \<mapsto> l), next_loop_id := next_loop_id w + 1,
             current_loop := (current_loop w)(self \<mapsto> next_loop_id w)\<rparr>) \<and> thread_id l = self"
proof -
  obtain l :: "'task event_loop" where "EventLoop_new self kind (wfds (next_loop_id w)) now = Inr l"
    using EventLoop_new_works [of self kind "fst fg" "snd fg" now] assms by auto
  with EventLoop_new_fields(4) [OF this] show ?thesis
    by (intro exI [of _ l]) (simp add: make_loop_def Let_def)
qed

text \<open>All worker loops belong to the thread that called \<open>start\<close>, whose current loop is the last of them.\<close>

lemma make_workers_ok:
  assumes "\<And>i. \<not> isl (wfds i)"
  shows "\<exists>w1. make_workers n self kind wfds now pool w =
      Inr (pool\<lparr>worker_loops := worker_loops pool @ [next_loop_id w..<next_loop_id w + n]\<rparr>, w1) \<and>
    (\<forall>i. i \<in> set [next_loop_id w..<next_loop_id w + n] \<longrightarrow> (\<exists>l. loop_heap w1 i = Some l \<and> thread_id l = self)) \<and>
    (\<forall>i < next_loop_id w. loop_heap w1 i = loop_heap w i) \<and>
    current_loop w1 = (if n = 0 then current_loop w else (current_loop w)(self \<mapsto> next_loop_id w + n - 1))"
proof (induction n arbitrary: pool w)
  case (Suc n)
  let ?i = "next_loop_id w"
  obtain l where l: "make_loop self kind wfds now w =
      Inr (?i, w\<lparr>loop_heap := (loop_heap w)(?i \<mapsto> l), next_loop_id := ?i + 1, current_loop := (current_loop w)(self \<mapsto> ?i)\<rparr>)"
    "thread_id l = self"
    using make_loop_ok [of wfds w "projr (wfds ?i)" self kind now] assms [of ?i] by (auto simp: sum.expand isl_def)
  let ?w = "w\<lparr>loop_heap := (loop_heap w)(?i \<mapsto> l), next_loop_id := ?i + 1, current_loop := (current_loop w)(self \<mapsto> ?i)\<rparr>"
  obtain w1 where w1: "make_workers n self kind wfds now (pool\<lparr>worker_loops := worker_loops pool @ [?i]\<rparr>) ?w =
      Inr (pool\<lparr>worker_loops := worker_loops pool @ [?i..<?i + Suc n]\<rparr>, w1)"
    and own: "\<forall>i. i \<in> set [?i + 1..<?i + Suc n] \<longrightarrow> (\<exists>l. loop_heap w1 i = Some l \<and> thread_id l = self)"
    and old: "\<forall>i < ?i + 1. loop_heap w1 i = loop_heap ?w i"
    and cur: "current_loop w1 = (if n = 0 then current_loop ?w else (current_loop ?w)(self \<mapsto> ?i + 1 + n - 1))"
    using Suc.IH [of "pool\<lparr>worker_loops := worker_loops pool @ [?i]\<rparr>" ?w] by (auto simp: upt_conv_Cons)
  have "\<exists>l. loop_heap w1 i = Some l \<and> thread_id l = self" if "i \<in> set [?i..<?i + Suc n]" for i
    using own old l(2) that by (cases "i = ?i") auto
  moreover have "\<forall>i < ?i. loop_heap w1 i = loop_heap w i"
    using old by auto
  moreover have "current_loop w1 = (current_loop w)(self \<mapsto> ?i + Suc n - 1)"
    using cur by (auto split: if_splits)
  ultimately show ?case
    using l(1) w1 by (intro exI [of _ w1]) simp
qed simp

lemma loop_wrong_thread: "thread_id l \<noteq> tid \<Longrightarrow> loop n tid envs l = Inl Abort"
  by (simp add: loop_def enter_loop_def assert_in_loop_thread_def is_in_loop_thread_def)

section \<open>Properties\<close>

text \<open>The pool hands out its loops evenly: as long as the counter does not wrap, any \<open>loop_count\<close>
  consecutive calls of \<open>get_next_loop\<close> give every loop of the pool exactly once, the base loop included, and a call before \<open>start\<close> divides
  by zero.\<close>

lemma round_robin_fair:
  shows "(pool_loops pool = [] \<longrightarrow> get_next_loop pool = Inl DivisionByZero) \<and>
    (pool_loops pool \<noteq> [] \<and> unat (next_index pool) + loop_count pool < 2 ^ 64 \<longrightarrow>
      (\<exists>is pool1. next_loops (loop_count pool) pool = Inr (is, pool1) \<and> mset is = mset (pool_loops pool) \<and>
         pool_loops pool1 = pool_loops pool \<and> unat (next_index pool1) = unat (next_index pool) + loop_count pool))"
proof (intro conjI impI)
  let ?n = "length (pool_loops pool)" and ?s = "unat (next_index pool)"
  assume a: "pool_loops pool \<noteq> [] \<and> ?s + loop_count pool < 2 ^ 64"
  then have n: "?s + ?n < 2 ^ 64" by (simp add: loop_count_def)
  have "mset (map (\<lambda>k. pool_loops pool ! (k mod ?n)) [?s..<?s + ?n]) =
      image_mset ((!) (pool_loops pool)) (mset (map (\<lambda>k. k mod ?n) [?s..<?s + ?n]))"
    by (simp add: multiset.map_comp comp_def flip: mset_map)
  also have "\<dots> = mset (map ((!) (pool_loops pool)) [0..<?n])"
    unfolding window_perm by simp
  finally have perm: "mset (map (\<lambda>k. pool_loops pool ! (k mod ?n)) [?s..<?s + ?n]) = mset (pool_loops pool)"
    by (simp only: map_nth)
  have "unat (next_index pool + of_nat ?n) = ?s + ?n"
    using n by (subst unat_add_lem [THEN iffD1]) (simp_all add: unat_of_nat)
  then show "\<exists>is pool1. next_loops (loop_count pool) pool = Inr (is, pool1) \<and> mset is = mset (pool_loops pool) \<and>
         pool_loops pool1 = pool_loops pool \<and> unat (next_index pool1) = ?s + loop_count pool"
    using next_loops_eq [of pool ?n] a n perm by (simp add: loop_count_def)
qed (simp add: get_next_loop_def)

definition idle_env :: "'task loop_env" where
  "idle_env = \<lparr>env_select = (\<lambda>m s tv. (0, s)), env_time = 0, env_handler = (\<lambda>a c l. Inr l),
     env_timer = (\<lambda>t w. w), env_task = (\<lambda>t l. l), env_fuel = 1\<rparr>"

text \<open>C38. Worker loops are constructed by the thread that calls \<open>start\<close>, not by the threads that run them: they belong to
  the calling thread, every worker thread aborts the process when it enters \<open>loop()\<close>, whatever its
  initialisation does, and \<open>EventLoop::current()\<close> of the calling thread becomes the last worker loop.\<close>

theorem workers_abort:
  assumes "\<not> started pool" and "\<And>i. \<not> isl (wfds i)" and "0 < thread_count pool" and "worker_loops pool = []"
    and "\<And>i. spawn i \<noteq> self" and "\<And>f l. init = Some f \<Longrightarrow> thread_id (f l) = thread_id l"
  shows "\<exists>pool1 w1. start self kind wfds spawn now pool w = Inr (pool1, w1) \<and>
    length (worker_loops pool1) = nat (thread_count pool) \<and>
    pool_loops pool1 = base_loop pool # worker_loops pool1 \<and>
    (\<forall>i \<in> set (worker_loops pool1). \<exists>l. loop_heap w1 i = Some l \<and> worker_body n envs init (spawn i) l = Inl Abort) \<and>
    current self w1 = Some (last (worker_loops pool1))"
proof -
  let ?n = "nat (thread_count pool)" and ?i = "next_loop_id w"
  obtain w1 where w1: "make_workers ?n self kind wfds now pool w = Inr (pool\<lparr>worker_loops := [?i..<?i + ?n]\<rparr>, w1)"
    and own: "\<forall>i. i \<in> set [?i..<?i + ?n] \<longrightarrow> (\<exists>l. loop_heap w1 i = Some l \<and> thread_id l = self)"
    and cur: "current_loop w1 = (current_loop w)(self \<mapsto> ?i + ?n - 1)"
    using make_workers_ok [where wfds = wfds and kind = kind and n = ?n and self = self and now = now and pool = pool and w = w, OF assms(2)] assms(3,4) by auto
  have "worker_body n envs init (spawn i) l = Inl Abort" if "thread_id l = self" for i l
    using that assms(5) [of i] assms(6) [of _ l]
    by (auto simp: worker_body_def worker_thread_func_def Let_def loop_wrong_thread split: option.splits)
  then have "\<forall>i \<in> set [?i..<?i + ?n]. \<exists>l. loop_heap w1 i = Some l \<and> worker_body n envs init (spawn i) l = Inl Abort"
    using own by blast
  moreover have "last [?i..<?i + ?n] = ?i + ?n - 1"
    using assms(3) by simp
  ultimately show ?thesis
    using assms(1,3) w1 cur by (simp add: start_def current_def)
qed

theorem workers_abort_witness:
  "\<exists>pool1 w1. start 1 Eventfd (\<lambda>i. create_eventfd (int i + 4)) (\<lambda>i. i + 10) 0 (set_thread_count 2 (ThreadPool_new 0 8))
      (\<lparr>loop_heap = Map.empty, next_loop_id = 1, current_loop = [1 \<mapsto> 0]\<rparr> :: nat loop_store) = Inr (pool1, w1) \<and>
    length (worker_loops pool1) = 2 \<and>
    (\<forall>i \<in> set (worker_loops pool1). \<exists>l. loop_heap w1 i = Some l \<and> worker_body 5 (\<lambda>i. idle_env) None (i + 10) l = Inl Abort)"
  using workers_abort [of "set_thread_count 2 (ThreadPool_new 0 8)" "\<lambda>i. create_eventfd (int i + 4)" "\<lambda>i. i + 10" 1 None Eventfd 0
      "\<lparr>loop_heap = Map.empty, next_loop_id = 1, current_loop = [1 \<mapsto> 0]\<rparr> :: nat loop_store" 5 "\<lambda>i. idle_env"]
  by (auto simp: set_thread_count_def ThreadPool_new_def create_eventfd_def Let_def)

end
