(* ===== verification/Poller_Interface.thy ===== *)
theory Poller_Interface
  imports Select_Poller
begin

text \<open>
  The abstract class \<open>Poller\<close> (\<open>src/hound/src/reactor/poller.h\<close>) as a locale: what every backend promises of the channels registered with it, and what a user may conclude from that. \<open>SelectPoller\<close>
  (\<open>select_poller.cpp\<close>) is shown to be a backend.
\<close>

section \<open>The interface\<close>

text \<open>Requests of a user: \<open>update_channel\<close> and \<open>remove_channel\<close>. A backend is seen as the map from descriptors to the channels registered for them.\<close>

datatype poller_request = UpdateChannel addr | RemoveChannel addr

fun request_addr :: "poller_request \<Rightarrow> addr" where
  "request_addr (UpdateChannel a) = a"
| "request_addr (RemoveChannel a) = a"

fun registry_step :: "(addr \<rightharpoonup> int) \<Rightarrow> poller_request \<Rightarrow> (int \<rightharpoonup> addr) \<Rightarrow> (int \<rightharpoonup> addr)" where
  "registry_step desc (UpdateChannel a) m = (case desc a of None \<Rightarrow> m | Some f \<Rightarrow> m(f \<mapsto> a))"
| "registry_step desc (RemoveChannel a) m = (case desc a of None \<Rightarrow> m | Some f \<Rightarrow> m(f := None))"

text \<open>Every request is for a channel that exists, and no two channels with the same descriptor take part.\<close>

definition one_channel_each :: "(addr \<rightharpoonup> int) \<Rightarrow> poller_request list \<Rightarrow> (int \<rightharpoonup> addr) \<Rightarrow> bool" where
  "one_channel_each desc rs m \<longleftrightarrow>
     (\<forall>r \<in> set rs. \<exists>f. desc (request_addr r) = Some f \<and> m f \<in> {None, Some (request_addr r)} \<and>
        (\<forall>r' \<in> set rs. desc (request_addr r') = Some f \<longrightarrow> request_addr r' = request_addr r))"

lemma one_channel_each_Cons:
  assumes "one_channel_each desc (r # rs) m"
  shows "\<exists>f. desc (request_addr r) = Some f \<and> m f \<in> {None, Some (request_addr r)}" "one_channel_each desc rs (registry_step desc r m)"
proof -
  show f: "\<exists>f. desc (request_addr r) = Some f \<and> m f \<in> {None, Some (request_addr r)}" using assms by (auto simp: one_channel_each_def)
  show "one_channel_each desc rs (registry_step desc r m)"
    unfolding one_channel_each_def
  proof
    fix q assume "q \<in> set rs"
    then obtain g where g: "desc (request_addr q) = Some g" "m g \<in> {None, Some (request_addr q)}"
        "\<forall>r' \<in> set (r # rs). desc (request_addr r') = Some g \<longrightarrow> request_addr r' = request_addr q"
      using assms unfolding one_channel_each_def by (metis list.set_intros(2))
    have "registry_step desc r m g \<in> {None, Some (request_addr q)}"
    proof (cases "desc (request_addr r) = Some g")
      case True
      then have "request_addr r = request_addr q" using g(3) by simp
      then show ?thesis using True by (cases r) auto
    next
      case False
      then show ?thesis using g(2) by (cases r) (auto split: option.splits)
    qed
    with g show "\<exists>f. desc (request_addr q) = Some f \<and> registry_step desc r m f \<in> {None, Some (request_addr q)} \<and>
        (\<forall>r' \<in> set rs. desc (request_addr r') = Some f \<longrightarrow> request_addr r' = request_addr q)" by auto
  qed
qed

fun serve_request :: "(addr \<Rightarrow> 'p \<Rightarrow> 'e + 'p) \<Rightarrow> (addr \<Rightarrow> 'p \<Rightarrow> 'e + 'p) \<Rightarrow> poller_request \<Rightarrow> 'p \<Rightarrow> 'e + 'p" where
  "serve_request update remove (UpdateChannel a) p = update a p"
| "serve_request update remove (RemoveChannel a) p = remove a p"

locale poller_backend =
  fixes update remove :: "addr \<Rightarrow> 'p \<Rightarrow> 'e + 'p"
    and has :: "addr \<Rightarrow> 'p \<Rightarrow> 'e + bool"
    and registry :: "'p \<Rightarrow> int \<rightharpoonup> addr"
    and descriptors :: "'p \<Rightarrow> addr \<rightharpoonup> int"
    and ok :: "'p \<Rightarrow> bool"
  assumes update_law: "ok p \<Longrightarrow> descriptors p a = Some f \<Longrightarrow> registry p f \<in> {None, Some a} \<Longrightarrow>
      \<exists>p'. update a p = Inr p' \<and> ok p' \<and> descriptors p' = descriptors p \<and> registry p' = (registry p)(f \<mapsto> a)"
    and remove_law: "ok p \<Longrightarrow> descriptors p a = Some f \<Longrightarrow> registry p f \<in> {None, Some a} \<Longrightarrow>
      \<exists>p'. remove a p = Inr p' \<and> ok p' \<and> descriptors p' = descriptors p \<and> registry p' = (registry p)(f := None)"
    and has_law: "ok p \<Longrightarrow> descriptors p a = Some f \<Longrightarrow> has a p = Inr (registry p f \<noteq> None)"
begin

lemma serve_step:
  assumes "ok p" and "descriptors p (request_addr r) = Some f" and "registry p f \<in> {None, Some (request_addr r)}"
  shows "\<exists>p'. serve_request update remove r p = Inr p' \<and> ok p' \<and> descriptors p' = descriptors p \<and> registry p' = registry_step (descriptors p) r (registry p)"
  using assms update_law [of p _ f] remove_law [of p _ f] by (cases r) auto

text \<open>Any sequence of requests is served, and acts on the registry as on a map.\<close>

lemma serve_all:
  assumes "ok p" and "one_channel_each (descriptors p) rs (registry p)"
  shows "\<exists>p'. for_each (serve_request update remove) rs p = Inr p' \<and> ok p' \<and> descriptors p' = descriptors p \<and> registry p' = fold (registry_step (descriptors p)) rs (registry p)"
  using assms
proof (induction rs arbitrary: p)
  case (Cons r rs)
  obtain f where "descriptors p (request_addr r) = Some f" "registry p f \<in> {None, Some (request_addr r)}" using one_channel_each_Cons(1) [OF Cons.prems(2)] by blast
  from serve_step [OF Cons.prems(1) this] obtain p1 where
    p1: "serve_request update remove r p = Inr p1" "ok p1" "descriptors p1 = descriptors p" "registry p1 = registry_step (descriptors p) r (registry p)" by blast
  with Cons.IH [of p1] one_channel_each_Cons(2) [OF Cons.prems(2)] show ?case by auto
qed simp

text \<open>A channel is known exactly when the last request for it was an update.\<close>

lemma fold_other: "\<forall>r \<in> set rs. descriptors p (request_addr r) \<noteq> Some f \<Longrightarrow> fold (registry_step (descriptors p)) rs m f = m f"
proof (induction rs arbitrary: m)
  case (Cons r rs)
  then have "registry_step (descriptors p) r m f = m f" by (cases r) (auto split: option.splits)
  with Cons show ?case by simp
qed simp

lemma has_last:
  assumes "ok p" and "one_channel_each (descriptors p) (rs @ r # rs') (registry p)" and "\<forall>r' \<in> set rs'. request_addr r' \<noteq> request_addr r"
  shows "\<exists>p'. for_each (serve_request update remove) (rs @ r # rs') p = Inr p' \<and> has (request_addr r) p' = Inr (\<exists>a. r = UpdateChannel a)"
proof -
  obtain p' where p': "for_each (serve_request update remove) (rs @ r # rs') p = Inr p'" "ok p'" "descriptors p' = descriptors p"
      "registry p' = fold (registry_step (descriptors p)) (rs @ r # rs') (registry p)"
    using serve_all [OF assms(1,2)] by blast
  obtain f where f: "descriptors p (request_addr r) = Some f" "\<forall>r' \<in> set rs'. descriptors p (request_addr r') \<noteq> Some f"
    using assms(2,3) unfolding one_channel_each_def by fastforce
  have "registry p' f = registry_step (descriptors p) r (fold (registry_step (descriptors p)) rs (registry p)) f"
    using p'(4) fold_other [OF f(2)] by simp
  then have "registry p' f \<noteq> None \<longleftrightarrow> (\<exists>a. r = UpdateChannel a)" using f(1) by (cases r) auto
  then show ?thesis using p' has_law [OF p'(2), of "request_addr r" f] f(1) by simp
qed

end

section \<open>The select backend\<close>

definition channel_fds :: "poller \<Rightarrow> addr \<rightharpoonup> int" where
  "channel_fds p a = map_option fd (heap p a)"

lemma remove_channels:
  "remove_channel a p = Inr p' \<Longrightarrow> heap p a = Some ch \<Longrightarrow> map_of (channels p') = (map_of (channels p))(fd ch := None)"
  by (auto simp: remove_channel_def upd_channel_def Let_def delete_conv' split: option.splits)

interpretation select_backend: poller_backend update_channel remove_channel has_channel "\<lambda>p. map_of (channels p)" channel_fds poller_ok
proof
  fix p a f
  assume ok: "poller_ok p" and "channel_fds p a = Some f"
  then obtain ch where ch: "heap p a = Some ch" "fd ch = f" by (auto simp: channel_fds_def)
  show "has_channel a p = Inr (map_of (channels p) f \<noteq> None)" using ch by (simp add: has_channel_def)
  assume reg: "map_of (channels p) f \<in> {None, Some a}"
  obtain p' where p': "update_channel a p = Inr p'" "poller_ok p'" "heap p' = (heap p)(a \<mapsto> ch\<lparr>index := 0\<rparr>)" using update_channel_ok [OF ok ch(1)] by blast
  have "map_of (channels p') = (map_of (channels p))(f \<mapsto> a)"
    using update_channel_frame [OF p'(1) ch(1)] ch(2) reg by (auto simp: update_conv' split: option.splits)
  then show "\<exists>p'. update_channel a p = Inr p' \<and> poller_ok p' \<and> channel_fds p' = channel_fds p \<and> map_of (channels p') = (map_of (channels p))(f \<mapsto> a)"
    using p' ch by (auto simp: channel_fds_def fun_eq_iff)
  obtain q where q: "remove_channel a p = Inr q" "poller_ok q" "heap q = (heap p)(a \<mapsto> ch\<lparr>index := - 1\<rparr>)"
    using remove_channel_ok [OF ok ch(1)] reg ch(2) by blast
  then show "\<exists>p'. remove_channel a p = Inr p' \<and> poller_ok p' \<and> channel_fds p' = channel_fds p \<and> map_of (channels p') = (map_of (channels p))(f := None)"
    using remove_channels [OF q(1) ch(1)] ch by (auto simp: channel_fds_def fun_eq_iff)
qed

section \<open>Properties\<close>

text \<open>C23. The select poller is a registry. As long as no descriptor is used by two channels, every sequence of \<open>update_channel\<close> and \<open>remove_channel\<close> on existing channels succeeds and acts on the table of
  the poller as the corresponding updates on a map from descriptors to channels; the list the poller iterates holds exactly the channels of that map, and \<open>has_channel\<close> reads it.\<close>

theorem select_registry:
  assumes "poller_ok p" and "one_channel_each (channel_fds p) rs (map_of (channels p))"
  shows "\<exists>p'. for_each (serve_request update_channel remove_channel) rs p = Inr p' \<and> poller_ok p' \<and>
    map_of (channels p') = fold (registry_step (channel_fds p)) rs (map_of (channels p)) \<and> set (channel_list p') = ran (map_of (channels p')) \<and>
    (\<forall>a f. channel_fds p a = Some f \<longrightarrow> has_channel a p' = Inr (map_of (channels p') f \<noteq> None))"
proof -
  obtain p' where p': "for_each (serve_request update_channel remove_channel) rs p = Inr p'" "poller_ok p'" "channel_fds p' = channel_fds p"
      "map_of (channels p') = fold (registry_step (channel_fds p)) rs (map_of (channels p))"
    using select_backend.serve_all [OF assms] by blast
  moreover have "set (channel_list p') = ran (map_of (channels p'))" using p'(2) by (simp add: poller_ok_def ran_distinct)
  moreover have "has_channel a p' = Inr (map_of (channels p') f \<noteq> None)" if "channel_fds p a = Some f" for a f
    using that p'(3) by (intro select_backend.has_law [OF p'(2)]) simp
  ultimately show ?thesis by blast
qed

theorem select_registry_witness:
  "\<exists>p'. for_each (serve_request update_channel remove_channel) [UpdateChannel 1, UpdateChannel 2, RemoveChannel 1]
      \<lparr>heap = [1 \<mapsto> Channel_new 3, 2 \<mapsto> Channel_new 4], channels = [], channel_list = []\<rparr> = Inr p' \<and> map_of (channels p') 3 = None \<and> map_of (channels p') 4 = Some 2"
proof -
  let ?p = "\<lparr>heap = [1 \<mapsto> Channel_new 3, 2 \<mapsto> Channel_new 4], channels = [], channel_list = []\<rparr>"
  have "poller_ok ?p" by (simp add: poller_ok_def)
  moreover have "one_channel_each (channel_fds ?p) [UpdateChannel 1, UpdateChannel 2, RemoveChannel 1] (map_of (channels ?p))"
    by (simp add: one_channel_each_def channel_fds_def Channel_new_def)
  ultimately obtain p' where p': "for_each (serve_request update_channel remove_channel) [UpdateChannel 1, UpdateChannel 2, RemoveChannel 1] ?p = Inr p'"
      "map_of (channels p') = fold (registry_step (channel_fds ?p)) [UpdateChannel 1, UpdateChannel 2, RemoveChannel 1] (map_of (channels ?p))"
    using select_registry by blast
  have "map_of (channels p') 3 = None" "map_of (channels p') 4 = Some 2" unfolding p'(2) by (simp_all add: channel_fds_def Channel_new_def)
  with p'(1) show ?thesis by blast
qed

end
