(* ===== verification/Loop_Services.thy ===== *)
theory Loop_Services
  imports Event_Loop
begin

text \<open>
  What the event loop (\<open>src/hound/src/reactor/event_loop.h\<close>) offers to the servers built on it, as laws their proofs use: channels that are opened, silenced and
  destroyed, and timers that are added and cancelled. The laws of the timers are the locale \<open>timer_service\<close>, interpreted on the loop.
\<close>

section \<open>Channels\<close>

definition added :: "poller \<Rightarrow> addr \<Rightarrow> bool" where
  "added p a \<longleftrightarrow> (\<exists>ch. heap p a = Some ch \<and> added_to_loop ch)"

definition keeps_added :: "poller \<Rightarrow> poller \<Rightarrow> bool" where
  "keeps_added p p' \<longleftrightarrow> (\<forall>a. added p a \<longrightarrow> added p' a)"

lemma keeps_added_refl [simp]: "keeps_added p p"
  by (simp add: keeps_added_def)

lemma keeps_added_trans: "keeps_added p q \<Longrightarrow> keeps_added q r \<Longrightarrow> keeps_added p r"
  by (simp add: keeps_added_def)

lemma disable_all_ok:
  assumes "poller_ok p" and "map_of (channels p) f = Some a"
  shows "\<exists>p'. disable_all a p = Inr p' \<and> poller_ok p' \<and> channels p' = channels p \<and> (\<forall>b. heap p b = None \<longrightarrow> heap p' b = None) \<and>
    (\<forall>b ch. heap p b = Some ch \<and> added_to_loop ch \<longrightarrow> (\<exists>ch'. heap p' b = Some ch' \<and> added_to_loop ch'))"
proof -
  obtain ch where ch: "heap p a = Some ch" "fd ch = f"
    using poller_okD(2) [OF assms] by blast
  from with_events_ok [OF assms(1) ch(1), of "\<lambda>e. kNoneEvent"] show ?thesis
    using assms(2) ch by (auto simp: disable_all_def)
qed

text \<open>The callbacks of a channel and its tie do not change while it lives.\<close>

definition callbacks :: "channel \<Rightarrow> bool \<times> bool \<times> bool \<times> bool \<times> tie" where
  "callbacks ch = (read_callback ch, write_callback ch, close_callback ch, error_callback ch, tie_state ch)"

definition keeps_callbacks :: "poller \<Rightarrow> poller \<Rightarrow> bool" where
  "keeps_callbacks p p' \<longleftrightarrow> (\<forall>a ch. heap p a = Some ch \<longrightarrow> (\<exists>ch'. heap p' a = Some ch' \<and> callbacks ch' = callbacks ch))"

lemma keeps_callbacks_refl [simp]: "keeps_callbacks p p"
  by (simp add: keeps_callbacks_def)

lemma keeps_callbacks_trans: "keeps_callbacks p q \<Longrightarrow> keeps_callbacks q r \<Longrightarrow> keeps_callbacks p r"
  unfolding keeps_callbacks_def by metis

lemma disable_all_callbacks:
  assumes "poller_ok p" and "map_of (channels p) f = Some a" and "disable_all a p = Inr p'"
  shows "keeps_callbacks p p'"
proof -
  obtain ch where ch: "heap p a = Some ch" "fd ch = f"
    using poller_okD(2) [OF assms(1,2)] by blast
  from with_events_ok [OF assms(1) ch(1), of "\<lambda>e. kNoneEvent"] assms(3)
  have "heap p' = (heap p)(a \<mapsto> ch\<lparr>events := kNoneEvent, added_to_loop := True, index := 0\<rparr>)" by (auto simp: disable_all_def)
  then show ?thesis using ch(1) by (simp add: keeps_callbacks_def callbacks_def)
qed

text \<open>A new channel, allocated at a free address and registered for reading.\<close>

lemma open_channel_ok:
  assumes "poller_ok p" and "heap p a = None" and "map_of (channels p) (fd ch) = None"
  shows "\<exists>p'. enable_reading a (p\<lparr>heap := (heap p)(a \<mapsto> ch)\<rparr>) = Inr p' \<and> poller_ok p' \<and>
    heap p' = (heap p)(a \<mapsto> ch\<lparr>events := events ch OR kReadEvent, added_to_loop := True, index := 0\<rparr>) \<and>
    channels p' = AList.update (fd ch) a (channels p)"
proof -
  let ?q = "p\<lparr>heap := (heap p)(a \<mapsto> ch)\<rparr>"
  have "poller_ok ?q"
    by (rule poller_ok_mono [OF assms(1)]) (use assms(2) in auto)
  from with_events_ok [OF this, of a ch "\<lambda>e. e OR kReadEvent"] show ?thesis
    using assms(3) by (auto simp: enable_reading_def)
qed

text \<open>Destroying a registered channel unregisters and frees it, and touches no other.\<close>

lemma destroy_channel_ok:
  assumes "poller_ok (loop_poller l)" and "map_of (channels (loop_poller l)) f = Some a" and "added (loop_poller l) a"
  shows "\<exists>p'. Channel_destroy (thread_id l) False a l = Inr (l\<lparr>loop_poller := p'\<rparr>) \<and> poller_ok p' \<and>
    channels p' = AList.delete f (channels (loop_poller l)) \<and> heap p' = (heap (loop_poller l))(a := None)"
proof -
  let ?p = "loop_poller l"
  obtain ch where ch: "heap ?p a = Some ch" "added_to_loop ch" using assms(3) by (auto simp: added_def)
  have f: "fd ch = f" using poller_okD(2) [OF assms(1,2)] ch(1) by auto
  let ?q = "?p\<lparr>heap := (heap ?p)(a \<mapsto> ch\<lparr>added_to_loop := False\<rparr>)\<rparr>"
  have "poller_ok ?q"
    by (rule poller_ok_mono [OF assms(1)]) (use ch in auto)
  from remove_channel_ok [OF this, of a "ch\<lparr>added_to_loop := False\<rparr>"] assms(2) f obtain p' where
    p': "remove_channel a ?q = Inr p'" "poller_ok p'" "heap p' = (heap ?p)(a \<mapsto> ch\<lparr>added_to_loop := False, index := - 1\<rparr>)"
      "a \<notin> set (channel_list p')"
    by auto
  have chans: "channels p' = AList.delete f (channels ?p)"
    using p'(1) assms(2) f by (auto simp: remove_channel_def upd_channel_def Let_def)
  let ?r = "p'\<lparr>heap := (heap p')(a := None)\<rparr>"
  have "snd fa \<noteq> a" if "fa \<in> set (channels p')" for fa
    using that p'(2,4) unfolding poller_ok_def by (metis image_eqI)
  then have "poller_ok ?r"
    using p'(2) by (simp add: poller_ok_def)
  moreover have "Channel_destroy (thread_id l) False a l = Inr (l\<lparr>loop_poller := ?r\<rparr>)"
    using ch p'(1) by (simp add: Channel_destroy_def with_poller_def assert_in_loop_thread_def is_in_loop_thread_def
        channel_remove_def upd_channel_def free_channel_def)
  ultimately show ?thesis using p'(3) chans by fastforce
qed

text \<open>Two descriptors never share a channel.\<close>

lemma channel_inj:
  assumes "poller_ok p" and "map_of (channels p) f = Some a" and "map_of (channels p) g = Some a"
  shows "f = g"
  using poller_okD(2) [OF assms(1,2)] poller_okD(2) [OF assms(1,3)] by auto

text \<open>A new loop watches its wakeup descriptor and nothing else.\<close>

lemma wakeup_poller:
  "poller_ok (wakeup_registered r m)" "0 < a \<Longrightarrow> heap (wakeup_registered r m) a = None" "channels (wakeup_registered r m) = [(r, 0)]"
  by (simp_all add: wakeup_registered_def poller_ok_def wakeup_channel_new_def Channel_new_def)

lemma new_loop_wakeup_fd: "EventLoop_new self kind (Inr (rd, wr)) now = Inr l \<Longrightarrow> wakeup_fd l = rd"
  by (auto simp: EventLoop_new_def split: sum.splits)

section \<open>Timers\<close>

text \<open>A service on which a client schedules a callback under a new identity and cancels it by that identity, 0 being none. \<open>pending\<close> are the callbacks that can still fire.\<close>

locale timer_service =
  fixes add_cb :: "'now \<Rightarrow> 'cb \<Rightarrow> 's \<Rightarrow> int \<times> 's"
    and cancel_cb :: "int \<Rightarrow> 's \<Rightarrow> 's"
    and pending :: "'s \<Rightarrow> (int \<rightharpoonup> 'cb)"
    and ok :: "'s \<Rightarrow> bool"
  assumes add_ok: "ok s \<Longrightarrow> ok (snd (add_cb now cb s))"
    and add_new: "ok s \<Longrightarrow> fst (add_cb now cb s) \<noteq> 0 \<and> pending s (fst (add_cb now cb s)) = None"
    and add_pending: "ok s \<Longrightarrow> pending (snd (add_cb now cb s)) = (pending s)(fst (add_cb now cb s) \<mapsto> cb)"
    and cancel_ok: "ok s \<Longrightarrow> ok (cancel_cb i s)"
    and cancel_pending: "ok s \<Longrightarrow> pending (cancel_cb i s) = (pending s)(i := None)"
begin

text \<open>A client that keeps the identity of its one timer, and drops the old timer for a new one.\<close>

definition renew :: "'now \<Rightarrow> int \<Rightarrow> 'cb \<Rightarrow> 's \<Rightarrow> int \<times> 's" where
  "renew now i cb s = add_cb now cb (if i \<noteq> 0 then cancel_cb i s else s)"

lemma renew_ok:
  assumes "ok s" and "pending s 0 = None" and "renew now i cb s = (j, s')"
  shows "ok s'" "j \<noteq> 0" "pending s' = (pending s)(i := None, j \<mapsto> cb)" "pending s' 0 = None" "pending s j = None \<or> j = i"
proof -
  let ?s = "if i \<noteq> 0 then cancel_cb i s else s"
  have ok: "ok ?s" and p: "pending ?s = (pending s)(i := None)"
    using assms(1,2) cancel_ok cancel_pending by auto
  have j: "j = fst (add_cb now cb ?s)" "s' = snd (add_cb now cb ?s)" using assms(3) by (simp_all add: renew_def)
  show "ok s'" "j \<noteq> 0" "pending s' = (pending s)(i := None, j \<mapsto> cb)"
    using add_ok [OF ok] add_new [OF ok] add_pending [OF ok] p by (simp_all add: j)
  then show "pending s' 0 = None" using assms(2) by simp
  show "pending s j = None \<or> j = i"
    using add_new [OF ok, of now cb] p by (auto simp: j fun_upd_def split: if_splits)
qed

text \<open>When every client owns at most one pending timer, namely the one it remembers, cancelling that one leaves nothing that could call the client back.\<close>

lemma cancel_own:
  assumes "ok s" and "\<forall>j. pending s j = Some cb \<longrightarrow> j = i"
  shows "pending (cancel_cb i s) j \<noteq> Some cb"
  using assms by (auto simp: cancel_pending)

end

definition loop_timers :: "'task event_loop \<Rightarrow> (int \<rightharpoonup> 'task)" where
  "loop_timers l = map_of (map (\<lambda>t. (timer_id t, callback t)) (timers (loop_wheel l)))"

definition loop_timers_ok :: "'task event_loop \<Rightarrow> bool" where
  "loop_timers_ok l \<longleftrightarrow> wheel_ok (loop_wheel l) \<and> 0 < next_timer_id (loop_wheel l)"

lemma map_of_distinct_Some:
  "distinct (map timer_id ts) \<Longrightarrow> map_of (map (\<lambda>t. (timer_id t, callback t)) ts) i = Some cb \<longleftrightarrow> (\<exists>t \<in> set ts. timer_id t = i \<and> callback t = cb)"
  by (subst map_of_eq_Some_iff) (auto simp: comp_def)

lemma loop_timers_Some:
  "wheel_ok (loop_wheel l) \<Longrightarrow> loop_timers l i = Some cb \<longleftrightarrow> (\<exists>t \<in> set (timers (loop_wheel l)). timer_id t = i \<and> callback t = cb)"
  unfolding loop_timers_def by (rule map_of_distinct_Some) (simp add: wheel_ok_def)

lemma map_eqI: "(\<And>x y. m x = Some y \<longleftrightarrow> n x = Some y) \<Longrightarrow> m = n"
  by (rule ext) (metis option.exhaust)

lemma run_after_pending:
  assumes "loop_timers_ok l" and "run_after now d cb l = (i, l')"
  shows "loop_timers_ok l'" "i \<noteq> 0" "loop_timers l i = None" "loop_timers l' = (loop_timers l)(i \<mapsto> cb)"
proof -
  let ?w = "loop_wheel l" and ?when = "add_seconds now d"
  let ?t = "placed \<lparr>timer_id = next_timer_id ?w, expiration = ?when, callback = cb, interval = 0, rounds = 0\<rparr> ?w"
  have w: "wheel_ok ?w" "0 < next_timer_id ?w" using assms(1) by (simp_all add: loop_timers_ok_def)
  have i: "i = next_timer_id ?w" "l' = l\<lparr>loop_wheel := snd (add_repeating ?when 0 cb ?w)\<rparr>"
    using assms(2) by (simp_all add: run_after_def with_wheel_def add_timer_repeating Let_def split: prod.splits) (simp add: add_repeating_def)
  note new = add_repeating_ok [OF w(1), of ?when 0 cb]
  then have ts: "set (timers (loop_wheel l')) = insert ?t (set (timers ?w))"
    by (metis i(2) event_loop.select_convs(2) event_loop.surjective event_loop.update_convs(2) set_mset_add_mset_insert set_mset_mset)
  have t: "timer_id ?t = i" "callback ?t = cb" by (simp_all add: placed_def i(1))
  show "i \<noteq> 0" using w(2) i(1) by simp
  show none: "loop_timers l i = None"
    using w(1) loop_timers_Some [OF w(1), of i] i(1) unfolding wheel_ok_def by (metis less_irrefl not_Some_eq)
  have "0 < next_timer_id (loop_wheel l')"
    using w by (simp add: i(2) add_repeating_def insert_timer_def Let_def)
  then show ok: "loop_timers_ok l'" using new(1) by (simp add: loop_timers_ok_def i(2))
  show "loop_timers l' = (loop_timers l)(i \<mapsto> cb)"
  proof (rule map_eqI)
    show "loop_timers l' j = Some c \<longleftrightarrow> ((loop_timers l)(i \<mapsto> cb)) j = Some c" for j c
      using none t ok loop_timers_Some [of l' j c] loop_timers_Some [OF w(1), of j c] unfolding ts loop_timers_ok_def by auto
  qed
qed

lemma cancel_timer_pending:
  assumes "loop_timers_ok l"
  shows "loop_timers_ok (cancel_timer i l)" "loop_timers (cancel_timer i l) = (loop_timers l)(i := None)"
proof -
  have w: "wheel_ok (loop_wheel l)" "0 < next_timer_id (loop_wheel l)" using assms by (simp_all add: loop_timers_ok_def)
  note c = cancel_eq [OF w(1), of i]
  have "next_timer_id (cancel i (loop_wheel l)) = next_timer_id (loop_wheel l)" by (simp add: cancel_def split: option.splits)
  then show ok: "loop_timers_ok (cancel_timer i l)" using w c(2) by (simp add: loop_timers_ok_def cancel_timer_def)
  then have "wheel_ok (loop_wheel (cancel_timer i l))" by (simp add: loop_timers_ok_def)
  note now = loop_timers_Some [OF this] and before = loop_timers_Some [OF w(1)]
  have "set (timers (loop_wheel (cancel_timer i l))) = {t \<in> set (timers (loop_wheel l)). timer_id t \<noteq> i}"
    using c(1) by (simp add: cancel_timer_def)
  then show "loop_timers (cancel_timer i l) = (loop_timers l)(i := None)"
    by (intro map_eqI) (auto simp: now before)
qed

lemma new_wheel_ok: "0 < ms \<Longrightarrow> 0 < slots \<Longrightarrow> ms * slots < 2 ^ 31 \<Longrightarrow> wheel_ok (TimerWheel_new ms slots now)"
  by (auto simp: wheel_ok_def TimerWheel_new_def)

lemma new_loop_timers:
  assumes "EventLoop_new self kind (Inr (rd, wr)) now = Inr l"
  shows "loop_timers_ok l" "loop_timers l = Map.empty"
proof -
  have w: "loop_wheel l = TimerWheel_new 10 6000 now" using assms by (auto simp: EventLoop_new_def split: sum.splits)
  show "loop_timers_ok l" unfolding loop_timers_ok_def w using new_wheel_ok [of 10 6000 now] by (simp add: TimerWheel_new_def)
  show "loop_timers l = Map.empty" unfolding loop_timers_def w by (simp add: TimerWheel_new_def)
qed

interpretation loop_service: timer_service "\<lambda>(now, d) cb l. run_after now d cb l" cancel_timer loop_timers loop_timers_ok
proof
  fix l :: "'task event_loop" and nd :: "timestamp \<times> rat" and cb :: 'task
  assume ok: "loop_timers_ok l"
  obtain now d where nd: "nd = (now, d)" by fastforce
  obtain i l' where r: "run_after now d cb l = (i, l')" by fastforce
  note facts = run_after_pending [OF ok r]
  show "loop_timers_ok (snd ((\<lambda>(now, d) cb l. run_after now d cb l) nd cb l))"
    "fst ((\<lambda>(now, d) cb l. run_after now d cb l) nd cb l) \<noteq> 0 \<and> loop_timers l (fst ((\<lambda>(now, d) cb l. run_after now d cb l) nd cb l)) = None"
    "loop_timers (snd ((\<lambda>(now, d) cb l. run_after now d cb l) nd cb l)) =
       (loop_timers l)(fst ((\<lambda>(now, d) cb l. run_after now d cb l) nd cb l) \<mapsto> cb)"
    using facts by (simp_all add: nd r)
qed (rule cancel_timer_pending; assumption)+

end
