(* ===== verification/Chain_Buffer.thy ===== *)
theory Chain_Buffer
  imports Cxx_Std
begin

text \<open>
  The chain buffer of \<open>src/hound/src/io/buffer.h\<close> and \<open>buffer.cpp\<close>. The linked list of blocks is a
  list whose element 0 is \<open>head_\<close>; \<open>read_block_\<close> and \<open>write_block_\<close> are positions in it, and
  \<open>next\<close> of the block at \<open>i\<close> is null exactly when \<open>i\<close> is the last position. A block's array is
  the whole list of its \<open>kBlockSize\<close> bytes, the stale ones included. Indices and \<open>size_\<close>
  are \<^typ>\<open>nat\<close>: they count bytes of live memory and cannot reach \<open>2\<close>\<open>^\<close>\<open>64\<close>. A failing block
  allocation ends the process (\<open>LOG_FATAL\<close>), so the model describes runs in which it
  succeeds.

  The abstraction \<open>content\<close> is the byte queue the buffer stands for. The first groups of
  lemmas show that every operation keeps \<open>buf_ok\<close> and what it does to \<open>content\<close>; the
  locale \<open>byte_queue\<close> states this contract for the clients and is interpreted here.
\<close>

section \<open>Data\<close>

definition kBlockSize :: nat where
  "kBlockSize = 4096"

record block =
  data :: string
  read_idx :: nat
  write_idx :: nat

definition readable :: "block \<Rightarrow> nat" where
  "readable k = write_idx k - read_idx k"

definition writable :: "block \<Rightarrow> nat" where
  "writable k = kBlockSize - write_idx k"

definition block_reset :: "block \<Rightarrow> block" where
  "block_reset k = k\<lparr>read_idx := 0, write_idx := 0\<rparr>"

record buffer =
  blocks :: "block list"
  read_block :: nat
  write_block :: nat
  buf_size :: nat

text \<open>\<open>Buffer()\<close>: the array of \<open>head_\<close> is not initialised, its bytes are the argument.
  \<open>alloc_block\<close> value-initialises, so a heap block starts zeroed.\<close>

definition Buffer_new :: "string \<Rightarrow> buffer" where
  "Buffer_new junk =
     \<lparr>blocks = [block_reset \<lparr>data = junk, read_idx = 0, write_idx = 0\<rparr>],
      read_block = 0, write_block = 0, buf_size = 0\<rparr>"

definition alloc_block :: block where
  "alloc_block = block_reset \<lparr>data = replicate kBlockSize NUL, read_idx = 0, write_idx = 0\<rparr>"

abbreviation rblk :: "buffer \<Rightarrow> block" where
  "rblk b \<equiv> blocks b ! read_block b"

abbreviation wblk :: "buffer \<Rightarrow> block" where
  "wblk b \<equiv> blocks b ! write_block b"

section \<open>Writing\<close>

text \<open>\<open>if (!write_block_->next) write_block_->next = alloc_block(); write_block_ = write_block_->next;\<close>\<close>

definition advance_write :: "buffer \<Rightarrow> buffer" where
  "advance_write b =
     (if Suc (write_block b) < length (blocks b)
      then b\<lparr>write_block := Suc (write_block b)\<rparr>
      else b\<lparr>blocks := blocks b @ [alloc_block], write_block := length (blocks b)\<rparr>)"

text \<open>\<open>memcpy\<close> to \<open>data + write_idx\<close>, and the commit of the bytes.\<close>

definition blk_poke :: "block \<Rightarrow> string \<Rightarrow> block" where
  "blk_poke k bs = k\<lparr>data := take (write_idx k) (data k) @ bs @ drop (write_idx k + length bs) (data k)\<rparr>"

definition blk_commit :: "block \<Rightarrow> nat \<Rightarrow> block" where
  "blk_commit k n = k\<lparr>write_idx := write_idx k + n\<rparr>"

function append_loop :: "buffer \<Rightarrow> string \<Rightarrow> buffer" where
  "append_loop b src =
     (if src = [] then b
      else if writable (wblk b) = 0 then append_loop (advance_write b) src
      else let to_copy = min (length src) (writable (wblk b)) in
           append_loop
             (b\<lparr>blocks := (blocks b)[write_block b := blk_commit (blk_poke (wblk b) (take to_copy src)) to_copy],
                buf_size := buf_size b + to_copy\<rparr>)
             (drop to_copy src))"
  by pat_completeness auto
termination
  by (relation "measures [\<lambda>(b, src). length src,
        \<lambda>(b, src). if write_block b < length (blocks b) then length (blocks b) - write_block b
                   else length (blocks b) + 2,
        \<lambda>(b, src). if writable (wblk b) = 0 then 1 else 0]")
    (auto simp: advance_write_def alloc_block_def block_reset_def writable_def kBlockSize_def nth_append)

declare append_loop.simps [simp del]

definition append :: "buffer \<Rightarrow> string \<Rightarrow> buffer" where
  "append b src = append_loop b src"

text \<open>\<open>begin_write(&n)\<close> yields \<open>n\<close> and a pointer to \<open>data + write_idx\<close> of the block it leaves
  in \<open>write_block_\<close>; \<open>poke\<close> is what a caller stores through that pointer.\<close>

definition begin_write :: "buffer \<Rightarrow> nat \<times> buffer" where
  "begin_write b =
     (let b' = (if writable (wblk b) = 0 then advance_write b else b)
      in (writable (wblk b'), b'))"

definition poke :: "buffer \<Rightarrow> string \<Rightarrow> buffer" where
  "poke b bs = b\<lparr>blocks := (blocks b)[write_block b := blk_poke (wblk b) bs]\<rparr>"

definition has_written :: "buffer \<Rightarrow> nat \<Rightarrow> buffer" where
  "has_written b n =
     (let len = (if n > writable (wblk b) then writable (wblk b) else n)
      in b\<lparr>blocks := (blocks b)[write_block b := blk_commit (wblk b) len],
           buf_size := buf_size b + len\<rparr>)"

definition ensure_writable :: "buffer \<Rightarrow> nat \<Rightarrow> buffer" where
  "ensure_writable b len = (if writable (wblk b) \<ge> len then b else advance_write b)"

section \<open>Reading\<close>

definition blk_view :: "block \<Rightarrow> string" where
  "blk_view k = take (readable k) (drop (read_idx k) (data k))"

definition peek :: "buffer \<Rightarrow> string" where
  "peek b = (if buf_size b = 0 then [] else blk_view (rblk b))"

text \<open>\<open>peek_data\<close>: the memory from the pointer to the end of the block's array; \<^const>\<open>None\<close> is
  the null pointer.\<close>

definition peek_data :: "buffer \<Rightarrow> string option" where
  "peek_data b = (if buf_size b = 0 then None else Some (drop (read_idx (rblk b)) (data (rblk b))))"

definition peek_size :: "buffer \<Rightarrow> nat" where
  "peek_size b = (if buf_size b = 0 then 0 else readable (rblk b))"

text \<open>\<open>peek_byte\<close>: \<^const>\<open>None\<close> is a read outside the block's array.\<close>

definition peek_byte :: "buffer \<Rightarrow> int option" where
  "peek_byte b =
     (if buf_size b = 0 then Some (- 1)
      else if read_idx (rblk b) < length (data (rblk b))
      then Some (int (of_char (data (rblk b) ! read_idx (rblk b))))
      else None)"

fun read_blocks :: "block list \<Rightarrow> nat \<Rightarrow> string" where
  "read_blocks [] remaining = []"
| "read_blocks (k # ks) remaining =
     (if remaining = 0 then []
      else let to_copy = min remaining (readable k)
           in take to_copy (drop (read_idx k) (data k)) @ read_blocks ks (remaining - to_copy))"

definition read_n :: "buffer \<Rightarrow> nat \<Rightarrow> string" where
  "read_n b len =
     (if len > buf_size b then [] else read_blocks (drop (read_block b) (blocks b)) len)"

definition retrieve_all :: "buffer \<Rightarrow> buffer" where
  "retrieve_all b =
     b\<lparr>blocks := map block_reset (blocks b), read_block := 0, write_block := 0, buf_size := 0\<rparr>"

text \<open>The loop of \<open>retrieve\<close>. The last two conjuncts of the guard are not tests of the code:
  they say that \<open>read_block_\<close> is a block of the chain and that its indices are in order.
  \<open>buf_ok\<close> implies both.\<close>

definition consume_from_read_block :: "buffer \<Rightarrow> nat \<Rightarrow> buffer" where
  "consume_from_read_block b n =
     b\<lparr>blocks := (blocks b)[read_block b := (rblk b)\<lparr>read_idx := read_idx (rblk b) + n\<rparr>],
       buf_size := buf_size b - n\<rparr>"

function retrieve_loop :: "buffer \<Rightarrow> nat \<Rightarrow> buffer \<times> nat" where
  "retrieve_loop b remaining =
     (if remaining > 0 \<and> read_block b \<noteq> write_block b \<and>
         read_block b < length (blocks b) \<and> read_idx (rblk b) \<le> write_idx (rblk b)
      then let to_consume = min remaining (readable (rblk b));
               b1 = consume_from_read_block b to_consume
           in if read_idx (rblk b1) = write_idx (rblk b1)
              then retrieve_loop (b1\<lparr>read_block := Suc (read_block b1)\<rparr>) (remaining - to_consume)
              else retrieve_loop b1 (remaining - to_consume)
      else (b, remaining))"
  by pat_completeness auto
termination
  by (relation "measures [\<lambda>(b, r). length (blocks b) - read_block b, \<lambda>(b, r). r]")
    (auto simp: consume_from_read_block_def readable_def Let_def)

declare retrieve_loop.simps [simp del]

text \<open>\<open>retrieve(len)\<close>: clamp, walk the blocks, finish in the write block, and shift the rest
  back into \<open>head_\<close> when the read position has left it.\<close>

definition retrieve_finish :: "buffer \<times> nat \<Rightarrow> buffer" where
  "retrieve_finish br =
     (let (b, remaining) = br
      in if remaining > 0
         then consume_from_read_block b (min remaining (readable (rblk b)))
         else b)"

definition compact :: "buffer \<Rightarrow> buffer" where
  "compact b =
     (if read_block b \<noteq> 0 \<and> buf_size b > 0
      then append (retrieve_all b) (read_n b (buf_size b))
      else b)"

definition retrieve :: "buffer \<Rightarrow> nat \<Rightarrow> buffer" where
  "retrieve b n =
     (if n = 0 then b
      else let len = (if n > buf_size b then buf_size b else n)
           in compact (retrieve_finish (retrieve_loop b len)))"

section \<open>Search\<close>

text \<open>The inner loop of \<open>find(needle)\<close>: compare piece by piece along the chain. Running off
  the chain leaves \<open>match\<close> true, as the source's \<open>if (!search_block) break;\<close> does.\<close>

fun match_from :: "block list \<Rightarrow> nat \<Rightarrow> string \<Rightarrow> bool" where
  "match_from [] search_idx needle = True"
| "match_from (k # ks) search_idx needle =
     (if needle = [] then True
      else let to_check = min (length needle) (readable k - search_idx)
           in if take to_check (drop (read_idx k + search_idx) (data k)) \<noteq> take to_check needle
              then False
              else match_from ks 0 (drop to_check needle))"

function find_in_block :: "nat \<Rightarrow> string \<Rightarrow> block \<Rightarrow> block list \<Rightarrow> nat \<Rightarrow> nat \<Rightarrow> nat option" where
  "find_in_block sz needle k ks offset i =
     (if i < readable k \<and> offset + i + length needle \<le> sz
      then if match_from (k # ks) i needle then Some (offset + i)
           else find_in_block sz needle k ks offset (Suc i)
      else None)"
  by pat_completeness auto
termination
  by (relation "measure (\<lambda>(sz, needle, k, ks, offset, i). readable k - i)") auto

declare find_in_block.simps [simp del]

fun find_blocks :: "nat \<Rightarrow> string \<Rightarrow> block list \<Rightarrow> nat \<Rightarrow> nat option" where
  "find_blocks sz needle [] offset = None"
| "find_blocks sz needle (k # ks) offset =
     (case find_in_block sz needle k ks offset 0 of
        Some p \<Rightarrow> Some p
      | None \<Rightarrow> find_blocks sz needle ks (offset + readable k))"

definition ssize_of :: "nat option \<Rightarrow> int" where
  "ssize_of p = (case p of None \<Rightarrow> - 1 | Some i \<Rightarrow> int i)"

definition find :: "buffer \<Rightarrow> string \<Rightarrow> int" where
  "find b needle =
     (if needle = [] \<or> buf_size b < length needle then - 1
      else ssize_of (find_blocks (buf_size b) needle (drop (read_block b) (blocks b)) 0))"

fun find_char_blocks :: "char \<Rightarrow> block list \<Rightarrow> nat \<Rightarrow> nat option" where
  "find_char_blocks c [] offset = None"
| "find_char_blocks c (k # ks) offset =
     (case str_find c (take (readable k) (drop (read_idx k) (data k))) of
        Some pos \<Rightarrow> Some (offset + pos)
      | None \<Rightarrow> find_char_blocks c ks (offset + readable k))"

definition find_char :: "buffer \<Rightarrow> char \<Rightarrow> int" where
  "find_char b c =
     (if buf_size b = 0 then - 1
      else ssize_of (find_char_blocks c (drop (read_block b) (blocks b)) 0))"

definition read_until :: "buffer \<Rightarrow> string \<Rightarrow> string" where
  "read_until b delim =
     (let pos = find b delim
      in if pos < 0 then []
         else let total = nat pos + length delim
              in if total \<le> readable (rblk b)
                 then take total (drop (read_idx (rblk b)) (data (rblk b)))
                 else [])"

section \<open>State\<close>

definition capacity :: "buffer \<Rightarrow> nat" where
  "capacity b =
     writable (blocks b ! 0) + readable (blocks b ! 0)
     + foldl (\<lambda>total k. total + kBlockSize) 0 (drop 1 (blocks b))"

definition block_count :: "buffer \<Rightarrow> nat" where
  "block_count b = foldl (\<lambda>count k. Suc count) 1 (drop 1 (blocks b))"

section \<open>Invariant and abstraction\<close>

definition blk_ok :: "block \<Rightarrow> bool" where
  "blk_ok k \<longleftrightarrow> length (data k) = kBlockSize \<and> read_idx k \<le> write_idx k \<and> write_idx k \<le> kBlockSize"

definition blk_fresh :: "block \<Rightarrow> bool" where
  "blk_fresh k \<longleftrightarrow> read_idx k = 0 \<and> write_idx k = 0"

definition content :: "buffer \<Rightarrow> string" where
  "content b = concat (map blk_view (drop (read_block b) (blocks b)))"

definition buf_ok :: "buffer \<Rightarrow> bool" where
  "buf_ok b \<longleftrightarrow>
     read_block b \<le> write_block b \<and> write_block b < length (blocks b) \<and>
     (\<forall>k \<in> set (blocks b). blk_ok k) \<and>
     (\<forall>k \<in> set (drop (Suc (write_block b)) (blocks b)). blk_fresh k) \<and>
     buf_size b = length (content b)"

subsection \<open>Blocks\<close>

lemma blk_view_alt: "blk_view k = drop (read_idx k) (take (write_idx k) (data k))"
  by (simp add: blk_view_def readable_def drop_take)

lemma length_blk_view [simp]: "blk_ok k \<Longrightarrow> length (blk_view k) = readable k"
  by (auto simp: blk_ok_def blk_view_alt readable_def)

lemma blk_view_fresh [simp]: "blk_fresh k \<Longrightarrow> blk_view k = []"
  by (simp add: blk_fresh_def blk_view_def readable_def)

lemma blk_ok_reset [simp]: "blk_ok k \<Longrightarrow> blk_ok (block_reset k)"
  and blk_fresh_reset [simp]: "blk_fresh (block_reset k)"
  by (simp_all add: blk_ok_def blk_fresh_def block_reset_def)

lemma alloc_block_ok [simp]: "blk_ok alloc_block" "blk_fresh alloc_block"
  "writable alloc_block = kBlockSize"
  by (simp_all add: alloc_block_def blk_ok_def block_reset_def writable_def blk_fresh_def)

lemma writable_fresh: "blk_fresh k \<Longrightarrow> writable k = kBlockSize"
  by (simp add: blk_fresh_def writable_def)

lemma blk_write:
  assumes "blk_ok k" and "length bs \<le> writable k"
  shows "blk_ok (blk_commit (blk_poke k bs) (length bs))"
    and "blk_view (blk_commit (blk_poke k bs) (length bs)) = blk_view k @ bs"
  using assms
  by (auto simp: blk_ok_def blk_commit_def blk_poke_def writable_def blk_view_alt)

lemma blk_poke_ok:
  assumes "blk_ok k" and "length bs \<le> writable k"
  shows "blk_ok (blk_poke k bs)" and "blk_view (blk_poke k bs) = blk_view k"
    and "writable (blk_poke k bs) = writable k"
  using assms
  by (auto simp: blk_ok_def blk_poke_def writable_def blk_view_alt)

lemma blk_consume:
  assumes "blk_ok k" and "n \<le> readable k"
  shows "blk_ok (k\<lparr>read_idx := read_idx k + n\<rparr>)"
    and "blk_view (k\<lparr>read_idx := read_idx k + n\<rparr>) = drop n (blk_view k)"
  using assms
  by (auto simp: blk_ok_def blk_view_alt readable_def add.commute)

subsection \<open>Chains\<close>

lemma buf_okD:
  assumes "buf_ok b"
  shows "read_block b \<le> write_block b" and "write_block b < length (blocks b)"
    and "read_block b < length (blocks b)" and "blk_ok (rblk b)" and "blk_ok (wblk b)"
    and "buf_size b = length (content b)"
  using assms by (auto simp: buf_ok_def)

lemma concat_fresh: "\<forall>k \<in> set ks. blk_fresh k \<Longrightarrow> concat (map blk_view ks) = []"
  by simp

text \<open>The bytes before the write block.\<close>

definition before_write :: "buffer \<Rightarrow> string" where
  "before_write b = concat (map blk_view (take (write_block b - read_block b) (drop (read_block b) (blocks b))))"

lemma chain_split:
  assumes "r \<le> w" and "w < length bs"
  shows "drop r bs = take (w - r) (drop r bs) @ bs ! w # drop (Suc w) bs"
  using assms id_take_nth_drop [of "w - r" "drop r bs"] by (simp add: drop_drop)

lemma content_split: "buf_ok b \<Longrightarrow> content b = before_write b @ blk_view (wblk b)"
  unfolding content_def before_write_def buf_ok_def
  by (subst chain_split [of "read_block b" "write_block b" "blocks b"]) (auto simp: concat_fresh)

lemma content_update_write:
  assumes "buf_ok b"
  shows "content (b\<lparr>blocks := (blocks b)[write_block b := k], buf_size := n\<rparr>) = before_write b @ blk_view k"
proof -
  have w: "read_block b \<le> write_block b" "write_block b < length (blocks b)"
    and fresh: "\<forall>k \<in> set (drop (Suc (write_block b)) (blocks b)). blk_fresh k"
    using assms by (auto simp: buf_ok_def)
  then show ?thesis
    unfolding content_def before_write_def
    using chain_split [of "read_block b" "write_block b" "(blocks b)[write_block b := k]"]
    by (simp add: concat_fresh drop_update_eq)
qed

lemma buf_ok_update_write:
  assumes "buf_ok b" and "blk_ok k" and "n = length (before_write b @ blk_view k)"
  shows "buf_ok (b\<lparr>blocks := (blocks b)[write_block b := k], buf_size := n\<rparr>)"
proof -
  have "\<forall>x \<in> set ((blocks b)[write_block b := k]). blk_ok x"
    by (rule list_all_update) (use assms in \<open>auto simp: buf_ok_def\<close>)
  then show ?thesis
    using assms by (simp add: buf_ok_def content_update_write [OF assms(1)])
qed

subsection \<open>Writing\<close>

lemma Buffer_new_ok [chain_ok]: "length junk = kBlockSize \<Longrightarrow> buf_ok (Buffer_new junk)"
  and content_Buffer_new [chain_simps]: "content (Buffer_new junk) = []"
  by (simp_all add: Buffer_new_def buf_ok_def content_def blk_ok_def block_reset_def
      blk_view_def readable_def)

lemma advance_write_shape [chain_simps]:
  "read_block (advance_write b) = read_block b" "buf_size (advance_write b) = buf_size b"
  by (simp_all add: advance_write_def)

lemma content_advance_write [chain_simps]: "buf_ok b \<Longrightarrow> content (advance_write b) = content b"
  by (simp add: advance_write_def content_def buf_ok_def)

lemma advance_write_ok [chain_ok]:
  assumes "buf_ok b"
  shows "buf_ok (advance_write b)"
proof (cases "Suc (write_block b) < length (blocks b)")
  case True
  have "set (drop (Suc (Suc (write_block b))) (blocks b)) \<subseteq> set (drop (Suc (write_block b)) (blocks b))"
    by (rule set_drop_subset_set_drop) simp
  then show ?thesis
    using assms True content_advance_write [OF assms]
    by (auto simp: buf_ok_def advance_write_def)
next
  case False
  then show ?thesis
    using assms content_advance_write [OF assms]
    by (auto simp: buf_ok_def advance_write_def)
qed

lemma wblk_advance_write:
  assumes "buf_ok b"
  shows "blk_fresh (wblk (advance_write b))"
proof (cases "Suc (write_block b) < length (blocks b)")
  case True
  then have "blocks b ! Suc (write_block b) \<in> set (drop (Suc (write_block b)) (blocks b))"
    by (simp add: drop_eq_Cons_nth)
  then show ?thesis
    using assms True by (simp add: buf_ok_def advance_write_def)
next
  case False
  then show ?thesis
    using assms by (simp add: advance_write_def)
qed

lemma append_loop_Nil [simp]: "append_loop b [] = b"
  by (simp add: append_loop.simps)

lemma append_loop_step:
  assumes "buf_ok b" and "n = min (length src) (writable (wblk b))"
  defines "b' \<equiv> b\<lparr>blocks := (blocks b)[write_block b := blk_commit (blk_poke (wblk b) (take n src)) n],
                  buf_size := buf_size b + n\<rparr>"
  shows "buf_ok b'" and "content b' = content b @ take n src"
    and "blk_view (blk_commit (blk_poke (wblk b) (take n src)) n) = blk_view (wblk b) @ take n src"
proof -
  have len: "length (take n src) = n" "n \<le> writable (wblk b)"
    using assms(2) by auto
  note w = blk_write [of "wblk b" "take n src", unfolded len, OF buf_okD(5) [OF assms(1)] len(2)]
  show "blk_view (blk_commit (blk_poke (wblk b) (take n src)) n) = blk_view (wblk b) @ take n src"
    by (rule w(2))
  show "content b' = content b @ take n src"
    using assms(1) w by (simp add: b'_def content_update_write content_split)
  show "buf_ok b'"
    unfolding b'_def
    by (rule buf_ok_update_write) (use assms(1) w len in \<open>auto simp: buf_okD(6) content_split\<close>)
qed

lemma append_loop_ok:
  "buf_ok b \<Longrightarrow> buf_ok (append_loop b src) \<and> content (append_loop b src) = content b @ src"
proof (induction b src rule: append_loop.induct)
  case (1 b src)
  consider "src = []" | "src \<noteq> []" "writable (wblk b) = 0" | "src \<noteq> []" "writable (wblk b) \<noteq> 0"
    by blast
  then show ?case
  proof cases
    case 2
    with 1 show ?thesis
      by (simp add: append_loop.simps [of b src] advance_write_ok content_advance_write)
  next
    case 3
    with 1 append_loop_step [OF "1.prems" refl, of src] show ?thesis
      by (simp add: append_loop.simps [of b src] Let_def)
  qed (use 1 in \<open>simp add: append_loop.simps\<close>)
qed

lemma append_ok [chain_ok]: "buf_ok b \<Longrightarrow> buf_ok (append b s)"
  and content_append [chain_simps]: "buf_ok b \<Longrightarrow> content (append b s) = content b @ s"
  by (simp_all add: append_def append_loop_ok)

lemma begin_write_ok [chain_ok]: "buf_ok b \<Longrightarrow> buf_ok (snd (begin_write b))"
  and content_begin_write [chain_simps]: "buf_ok b \<Longrightarrow> content (snd (begin_write b)) = content b"
  and writable_begin_write: "fst (begin_write b) = writable (wblk (snd (begin_write b)))"
  by (simp_all add: begin_write_def Let_def advance_write_ok content_advance_write)

lemma begin_write_positive: "buf_ok b \<Longrightarrow> 0 < fst (begin_write b)"
  using writable_fresh [OF wblk_advance_write [of b]]
  by (simp add: begin_write_def Let_def kBlockSize_def)

lemma poke_has_written:
  assumes "buf_ok b" and "length bs \<le> writable (wblk b)"
  shows "buf_ok (has_written (poke b bs) (length bs))"
    and "content (has_written (poke b bs) (length bs)) = content b @ bs"
proof -
  note w = blk_write [OF buf_okD(5) [OF assms(1)] assms(2)]
  have eq: "has_written (poke b bs) (length bs) =
      b\<lparr>blocks := (blocks b)[write_block b := blk_commit (blk_poke (wblk b) bs) (length bs)],
        buf_size := buf_size b + length bs\<rparr>"
    using assms buf_okD(2) [OF assms(1)] blk_poke_ok(3) [OF buf_okD(5) [OF assms(1)] assms(2)]
    by (simp add: has_written_def poke_def Let_def)
  show "content (has_written (poke b bs) (length bs)) = content b @ bs"
    using assms(1) w by (simp add: eq content_update_write content_split)
  show "buf_ok (has_written (poke b bs) (length bs))"
    unfolding eq
    by (rule buf_ok_update_write) (use assms(1) w in \<open>auto simp: buf_okD(6) content_split\<close>)
qed

lemma ensure_writable_ok [chain_ok]: "buf_ok b \<Longrightarrow> buf_ok (ensure_writable b n)"
  and content_ensure_writable [chain_simps]: "buf_ok b \<Longrightarrow> content (ensure_writable b n) = content b"
  by (simp_all add: ensure_writable_def advance_write_ok content_advance_write)

subsection \<open>Reading\<close>

lemma read_blocks_take:
  "\<forall>k \<in> set ks. blk_ok k \<Longrightarrow> read_blocks ks n = take n (concat (map blk_view ks))"
proof (induction ks arbitrary: n)
  case (Cons k ks)
  then have len: "length (blk_view k) = readable k" by simp
  have "take (min n (readable k)) (drop (read_idx k) (data k)) = take n (blk_view k)"
    by (simp add: blk_view_def min.commute)
  with Cons len show ?case by (auto simp: Let_def min_def)
qed simp

lemma chain_blocks_ok: "buf_ok b \<Longrightarrow> \<forall>k \<in> set (drop n (blocks b)). blk_ok k"
  by (auto simp: buf_ok_def dest: in_set_dropD)

lemma read_n_eq: "buf_ok b \<Longrightarrow> read_n b n = (if n \<le> length (content b) then take n (content b) else [])"
  by (simp add: read_n_def buf_okD(6) read_blocks_take [OF chain_blocks_ok] flip: content_def)

lemma retrieve_all_ok [chain_ok]: "buf_ok b \<Longrightarrow> buf_ok (retrieve_all b)"
  and content_retrieve_all [chain_simps]: "content (retrieve_all b) = []"
  by (auto simp: retrieve_all_def buf_ok_def content_def drop_map dest: in_set_dropD)

lemma consume_from_read_block:
  assumes "buf_ok b" and "n \<le> readable (rblk b)"
  defines "b' \<equiv> consume_from_read_block b n"
  shows "buf_ok b'" and "content b' = drop n (content b)" and "blk_view (rblk b') = drop n (blk_view (rblk b))"
    and "read_block b' = read_block b" and "write_block b' = write_block b"
    and "length (blocks b') = length (blocks b)"
proof -
  let ?k = "(rblk b)\<lparr>read_idx := read_idx (rblk b) + n\<rparr>"
  note r = buf_okD(3) [OF assms(1)] and k = blk_consume [OF buf_okD(4) [OF assms(1)] assms(2)]
  have bs: "blocks b' = (blocks b)[read_block b := ?k]"
    by (simp add: b'_def consume_from_read_block_def)
  show shape: "read_block b' = read_block b" "write_block b' = write_block b"
    "length (blocks b') = length (blocks b)"
    by (simp_all add: b'_def consume_from_read_block_def)
  show view: "blk_view (rblk b') = drop n (blk_view (rblk b))"
    using r k by (simp add: bs shape)
  have n: "n \<le> length (blk_view (rblk b))"
    using assms(2) buf_okD(4) [OF assms(1)] by simp
  show c: "content b' = drop n (content b)"
    using r k n by (simp add: content_def shape bs drop_eq_Cons_nth)
  have "\<forall>x \<in> set (blocks b'). blk_ok x"
    unfolding bs by (rule list_all_update) (use assms(1) k in \<open>auto simp: buf_ok_def\<close>)
  then show "buf_ok b'"
    using assms(1) by (simp add: buf_ok_def shape c, simp add: b'_def consume_from_read_block_def)
qed

lemma advance_read:
  assumes "buf_ok b" and "read_block b < write_block b" and "blk_view (rblk b) = []"
  shows "buf_ok (b\<lparr>read_block := Suc (read_block b)\<rparr>)"
    and "content (b\<lparr>read_block := Suc (read_block b)\<rparr>) = content b"
proof -
  show c: "content (b\<lparr>read_block := Suc (read_block b)\<rparr>) = content b"
    using assms buf_okD(3) [OF assms(1)] by (simp add: content_def drop_eq_Cons_nth)
  show "buf_ok (b\<lparr>read_block := Suc (read_block b)\<rparr>)"
    using assms c by (simp add: buf_ok_def)
qed

lemma drained_iff: "blk_ok k \<Longrightarrow> read_idx k = write_idx k \<longleftrightarrow> blk_view k = []"
  using length_blk_view [of k] by (auto simp: readable_def blk_ok_def simp flip: length_0_conv)

definition retrieve_loop_post :: "buffer \<Rightarrow> nat \<Rightarrow> buffer \<times> nat \<Rightarrow> bool" where
  "retrieve_loop_post b n br \<longleftrightarrow>
     (let (b', r) = br in
      buf_ok b' \<and> r \<le> n \<and> content b' = drop (n - r) (content b) \<and>
      (r = 0 \<or> read_block b' = write_block b') \<and>
      (read_block b' = write_block b' \<or> blk_view (rblk b') \<noteq> [] \<or> read_block b' \<noteq> 0))"

lemma retrieve_loop_post_trans:
  assumes "retrieve_loop_post b1 (n - m) br" and "content b1 = drop m (content b)" and "m \<le> n"
  shows "retrieve_loop_post b n br"
proof -
  obtain b' r where br: "br = (b', r)" by fastforce
  with assms have "r \<le> n - m" and "content b' = drop (n - m - r + m) (content b)"
    by (simp_all add: retrieve_loop_post_def)
  moreover from this have "n - m - r + m = n - r" and "r \<le> n"
    using assms(3) by auto
  ultimately show ?thesis
    using assms(1) by (simp add: retrieve_loop_post_def br)
qed

lemma retrieve_loop_ok:
  "buf_ok b \<Longrightarrow> 0 < n \<or> blk_view (rblk b) \<noteq> [] \<or> read_block b \<noteq> 0 \<Longrightarrow>
   retrieve_loop_post b n (retrieve_loop b n)"
proof (induction b n rule: retrieve_loop.induct)
  case (1 b n)
  let ?m = "min n (readable (rblk b))" and ?b = "consume_from_read_block b (min n (readable (rblk b)))"
  note ok = buf_okD [OF "1.prems"(1)]
  note c = consume_from_read_block [OF "1.prems"(1), of ?m, simplified]
  have idx: "read_idx (rblk b) \<le> write_idx (rblk b)"
    using ok(4) by (simp add: blk_ok_def)
  show ?case
  proof (cases "n > 0 \<and> read_block b \<noteq> write_block b")
    case False
    then show ?thesis
      using "1.prems" by (auto simp: retrieve_loop.simps [of b n] retrieve_loop_post_def)
  next
    case True
    then have guard: "n > 0 \<and> read_block b \<noteq> write_block b \<and> read_block b < length (blocks b)
        \<and> read_idx (rblk b) \<le> write_idx (rblk b)" and lt: "read_block b < write_block b"
      using ok idx by auto
    show ?thesis
    proof (cases "read_idx (rblk ?b) = write_idx (rblk ?b)")
      case drained: True
      then have "blk_view (rblk ?b) = []"
        using drained_iff [OF buf_okD(4) [OF c(1)]] by simp
      note adv = advance_read [OF c(1) _ this, simplified c(4,5), OF lt]
      have "retrieve_loop_post (?b\<lparr>read_block := Suc (read_block b)\<rparr>) (n - ?m)
          (retrieve_loop (?b\<lparr>read_block := Suc (read_block b)\<rparr>) (n - ?m))"
        using "1.IH"(1) [OF guard refl refl drained] adv(1) by (simp add: c(4))
      then have "retrieve_loop_post b n (retrieve_loop (?b\<lparr>read_block := Suc (read_block b)\<rparr>) (n - ?m))"
        by (rule retrieve_loop_post_trans) (simp_all add: adv(2) c(2))
      then show ?thesis
        by (subst retrieve_loop.simps) (simp only: guard drained [unfolded c(4)] c(4) Let_def if_True simp_thms)
    next
      case False
      then have ne: "blk_view (rblk ?b) \<noteq> []"
        using drained_iff [OF buf_okD(4) [OF c(1)]] by simp
      have "retrieve_loop_post ?b (n - ?m) (retrieve_loop ?b (n - ?m))"
        by (rule "1.IH"(2) [OF guard refl refl False]) (use c(1) ne in auto)
      then have "retrieve_loop_post b n (retrieve_loop ?b (n - ?m))"
        by (rule retrieve_loop_post_trans) (simp_all add: c(2))
      then show ?thesis
        by (subst retrieve_loop.simps) (simp only: guard False Let_def if_True if_False simp_thms)
    qed
  qed
qed

lemma content_read_eq_write:
  "buf_ok b \<Longrightarrow> read_block b = write_block b \<Longrightarrow> content b = blk_view (rblk b)"
  by (simp add: content_split before_write_def)

lemma retrieve_finish_ok:
  assumes "retrieve_loop_post b n br" and "n \<le> length (content b)"
  defines "b' \<equiv> retrieve_finish br"
  shows "buf_ok b'" and "content b' = drop n (content b)"
    and "content b' \<noteq> [] \<Longrightarrow> read_block b' = 0 \<Longrightarrow> blk_view (rblk b') \<noteq> []"
proof -
  obtain b1 r where br: "br = (b1, r)" by fastforce
  with assms(1) have b1: "buf_ok b1" "r \<le> n" "content b1 = drop (n - r) (content b)"
    "r = 0 \<or> read_block b1 = write_block b1"
    "read_block b1 = write_block b1 \<or> blk_view (rblk b1) \<noteq> [] \<or> read_block b1 \<noteq> 0"
    by (auto simp: retrieve_loop_post_def)
  have "buf_ok b' \<and> content b' = drop n (content b) \<and>
      (content b' \<noteq> [] \<longrightarrow> read_block b' = 0 \<longrightarrow> blk_view (rblk b') \<noteq> [])"
  proof (cases "r = 0")
    case True
    then show ?thesis
      using b1 by (auto simp: b'_def br retrieve_finish_def content_read_eq_write)
  next
    case False
    then have eq: "read_block b1 = write_block b1" and view: "content b1 = blk_view (rblk b1)"
      using b1 by (auto simp: content_read_eq_write)
    have "r \<le> length (content b1)"
      using b1 assms(2) by simp
    then have "r \<le> readable (rblk b1)"
      using view buf_okD(4) [OF b1(1)] by simp
    note c = consume_from_read_block [OF b1(1) this]
    have b': "b' = consume_from_read_block b1 r"
      using False \<open>r \<le> readable (rblk b1)\<close> by (simp add: b'_def br retrieve_finish_def min_absorb1)
    have "drop r (content b1) = drop n (content b)"
      using b1(2,3) by simp
    then show ?thesis
      using c view by (auto simp: b')
  qed
  then show "buf_ok b'" and "content b' = drop n (content b)"
    and "content b' \<noteq> [] \<Longrightarrow> read_block b' = 0 \<Longrightarrow> blk_view (rblk b') \<noteq> []"
    by auto
qed

lemma advance_write_nth:
  assumes "i < length (blocks b)"
  shows "blocks (advance_write b) ! i = blocks b ! i" and "i < length (blocks (advance_write b))"
  using assms by (simp_all add: advance_write_def nth_append)

lemma append_loop_prefix:
  "buf_ok b \<Longrightarrow> i < length (blocks b) \<Longrightarrow>
   prefix (blk_view (blocks b ! i)) (blk_view (blocks (append_loop b src) ! i))"
proof (induction b src rule: append_loop.induct)
  case (1 b src)
  consider "src = []" | "src \<noteq> []" "writable (wblk b) = 0" | "src \<noteq> []" "writable (wblk b) \<noteq> 0"
    by blast
  then show ?case
  proof cases
    case 2
    with "1.IH"(1) advance_write_ok [OF "1.prems"(1)] advance_write_nth [OF "1.prems"(2)]
    show ?thesis by (simp add: append_loop.simps [of b src])
  next
    case 3
    let ?n = "min (length src) (writable (wblk b))"
    let ?k = "blk_commit (blk_poke (wblk b) (take ?n src)) ?n"
    let ?b = "b\<lparr>blocks := (blocks b)[write_block b := ?k], buf_size := buf_size b + ?n\<rparr>"
    have "prefix (blk_view (blocks ?b ! i)) (blk_view (blocks (append_loop ?b (drop ?n src)) ! i))"
      using "1.IH"(2) [OF 3 refl] append_loop_step(1) [OF "1.prems"(1) refl] "1.prems" by simp
    moreover have "blk_view ?k = blk_view (wblk b) @ take ?n src"
      by (rule append_loop_step(3) [OF "1.prems"(1) refl])
    then have "prefix (blk_view (blocks b ! i)) (blk_view (blocks ?b ! i))"
      using "1.prems"(2) by (cases "i = write_block b") auto
    ultimately show ?thesis
      using 3 by (simp add: append_loop.simps [of b src] Let_def)
  qed (use 1 in \<open>simp add: append_loop.simps\<close>)
qed

lemma append_loop_read_block [chain_simps]: "read_block (append_loop b src) = read_block b"
proof (induction b src rule: append_loop.induct)
  case (1 b src)
  then show ?case
    by (subst append_loop.simps) (simp add: Let_def chain_simps)
qed

lemma append_view:
  assumes "buf_ok b" and "src \<noteq> []" and "writable (wblk b) > 0"
  shows "prefix (blk_view (wblk b) @ take (writable (wblk b)) src)
           (blk_view (blocks (append b src) ! write_block b))"
proof -
  let ?n = "min (length src) (writable (wblk b))"
  let ?k = "blk_commit (blk_poke (wblk b) (take ?n src)) ?n"
  let ?b = "b\<lparr>blocks := (blocks b)[write_block b := ?k], buf_size := buf_size b + ?n\<rparr>"
  note step = append_loop_step [OF assms(1) refl, of src]
  have w: "write_block b < length (blocks b)"
    using assms(1) by (rule buf_okD)
  have "take ?n src = take (writable (wblk b)) src"
    by (simp add: min_def)
  with step(3) w have "blk_view (blocks ?b ! write_block b) = blk_view (wblk b) @ take (writable (wblk b)) src"
    by simp
  moreover have "prefix (blk_view (blocks ?b ! write_block b))
      (blk_view (blocks (append_loop ?b (drop ?n src)) ! write_block b))"
    by (rule append_loop_prefix [OF step(1)]) (simp add: w)
  ultimately show ?thesis
    using assms by (simp add: append_def append_loop.simps [of b src] Let_def)
qed

lemma compact_view:
  assumes "buf_ok b" and "content b \<noteq> []" and "read_block b \<noteq> 0"
  shows "prefix (take kBlockSize (content b)) (blk_view (rblk (compact b)))"
proof -
  let ?r = "retrieve_all b"
  have r: "buf_ok ?r" "read_block ?r = 0" "write_block ?r = 0"
    using assms(1) by (auto simp: chain_ok, simp_all add: retrieve_all_def)
  have "blk_fresh (wblk ?r)"
    using buf_okD(2) [OF r(1)] by (simp add: retrieve_all_def)
  then have wr: "writable (wblk ?r) = kBlockSize" and "blk_view (wblk ?r) = []"
    by (simp_all add: writable_fresh)
  then show ?thesis
    using append_view [OF r(1) assms(2)] assms r(2,3)
    by (simp add: compact_def append_def append_loop_read_block read_n_eq buf_okD(6) kBlockSize_def)
qed

lemma compact_ok:
  assumes "buf_ok b"
  shows "buf_ok (compact b)" and "content (compact b) = content b"
    and "content b \<noteq> [] \<Longrightarrow> (read_block b = 0 \<Longrightarrow> blk_view (rblk b) \<noteq> []) \<Longrightarrow> blk_view (rblk (compact b)) \<noteq> []"
proof -
  have n: "read_n b (buf_size b) = content b"
    using assms by (simp add: read_n_eq buf_okD(6))
  show "buf_ok (compact b)" and "content (compact b) = content b"
    using assms n by (simp_all add: compact_def append_ok content_append retrieve_all_ok content_retrieve_all)
  show "blk_view (rblk (compact b)) \<noteq> []"
    if "content b \<noteq> []" "read_block b = 0 \<Longrightarrow> blk_view (rblk b) \<noteq> []"
  proof (cases "read_block b = 0")
    case True
    then show ?thesis using that by (simp add: compact_def)
  next
    case False
    with compact_view [OF assms that(1)] that(1) show ?thesis by (auto simp: kBlockSize_def)
  qed
qed

lemma retrieve_ok [chain_ok]: "buf_ok b \<Longrightarrow> buf_ok (retrieve b n)"
  and content_retrieve [chain_simps]: "buf_ok b \<Longrightarrow> content (retrieve b n) = drop n (content b)"
  and retrieve_view_nonempty:
    "buf_ok b \<Longrightarrow> 0 < n \<Longrightarrow> content (retrieve b n) \<noteq> [] \<Longrightarrow> blk_view (rblk (retrieve b n)) \<noteq> []"
proof -
  let ?len = "if n > buf_size b then buf_size b else n"
  assume ok: "buf_ok b"
  have "buf_ok (retrieve b n) \<and> content (retrieve b n) = drop n (content b) \<and>
      (content (retrieve b n) \<noteq> [] \<longrightarrow> blk_view (rblk (retrieve b n)) \<noteq> [])" if "0 < n"
  proof (cases "content b = []")
    case True
    then have b: "retrieve b n = compact (retrieve_finish (retrieve_loop b 0))"
      using that ok by (simp add: retrieve_def buf_okD(6))
    have "retrieve_loop b 0 = (b, 0)"
      by (simp add: retrieve_loop.simps)
    then show ?thesis
      using compact_ok [OF ok] True by (simp add: b retrieve_finish_def)
  next
    case False
    then have len: "0 < ?len" "?len \<le> length (content b)" "drop ?len (content b) = drop n (content b)"
      using that ok by (auto simp: buf_okD(6))
    have "retrieve_loop_post b ?len (retrieve_loop b ?len)"
      by (rule retrieve_loop_ok [OF ok]) (use len in simp)
    note f = retrieve_finish_ok [OF this len(2)]
    show ?thesis
      using compact_ok [OF f(1)] f that len(3) by (simp add: retrieve_def)
  qed
  then show "buf_ok (retrieve b n)" and "content (retrieve b n) = drop n (content b)"
    and "0 < n \<Longrightarrow> content (retrieve b n) \<noteq> [] \<Longrightarrow> blk_view (rblk (retrieve b n)) \<noteq> []"
    using ok by (auto simp: retrieve_def)
qed

subsection \<open>Search\<close>

abbreviation chain :: "block list \<Rightarrow> string" where
  "chain ks \<equiv> concat (map blk_view ks)"

lemma prefix_append_split:
  assumes "m = min (length n) (length a)"
  shows "prefix n (a @ b) \<longleftrightarrow> take m a = take m n \<and> prefix (drop m n) b"
proof (cases "length n \<le> length a")
  case True
  with assms show ?thesis by (auto simp: prefix_take_iff)
next
  case False
  with assms show ?thesis
    by (auto simp: prefix_take_iff append_eq_conv_conj)
qed

text \<open>Within the bytes of the chain the piecewise comparison is the comparison of lists: the
  comparison cannot run off the chain.\<close>

lemma match_from_prefix:
  assumes "\<forall>k \<in> set ks. blk_ok k"
  shows "idx \<le> length (blk_view (hd ks)) \<Longrightarrow> ks \<noteq> [] \<Longrightarrow> idx + length needle \<le> length (chain ks) \<Longrightarrow>
    match_from ks idx needle \<longleftrightarrow> prefix needle (drop idx (chain ks))"
  using assms
proof (induction ks arbitrary: idx needle)
  case (Cons k ks)
  let ?m = "min (length needle) (readable k - idx)"
  have len: "length (blk_view k) = readable k"
    using Cons.prems(4) by simp
  have view: "take ?m (drop (read_idx k + idx) (data k)) = take ?m (drop idx (blk_view k))"
    by (simp add: blk_view_def drop_take add.commute min.absorb2 min.assoc)
  have split: "prefix needle (drop idx (chain (k # ks))) \<longleftrightarrow>
      take ?m (drop idx (blk_view k)) = take ?m needle \<and> prefix (drop ?m needle) (chain ks)"
    using Cons.prems(1) len prefix_append_split [of ?m needle "drop idx (blk_view k)" "chain ks"] by simp
  have rest: "match_from ks 0 (drop ?m needle) \<longleftrightarrow> prefix (drop ?m needle) (chain ks)"
  proof (cases "drop ?m needle = []")
    case False
    then have "?m = readable k - idx" by auto
    with Cons.prems len have "length (drop ?m needle) \<le> length (chain ks)" by simp
    moreover from this False have "ks \<noteq> []" by (cases ks) auto
    ultimately show ?thesis
      using Cons.IH [of 0 "drop ?m needle"] Cons.prems(4) by simp
  qed (cases ks; simp)
  show ?case
    by (simp only: match_from.simps Let_def split view rest) auto
qed simp

lemma find_in_block_correct:
  assumes "length c = sz - offset"
    and "\<And>j. j < readable k \<Longrightarrow> j + length needle \<le> length c \<Longrightarrow> match_from (k # ks) j needle \<longleftrightarrow> prefix needle (drop j c)"
    and "offset \<le> sz" and "needle \<noteq> []"
  shows "case find_in_block sz needle k ks offset i of
      Some p \<Rightarrow> \<exists>j. p = offset + j \<and> i \<le> j \<and> j < readable k \<and> prefix needle (drop j c) \<and>
                   (\<forall>l. i \<le> l \<and> l < j \<longrightarrow> \<not> prefix needle (drop l c))
    | None \<Rightarrow> \<forall>j. i \<le> j \<and> j < readable k \<longrightarrow> \<not> prefix needle (drop j c)"
  using assms
proof (induction sz needle k ks offset i rule: find_in_block.induct)
  case (1 sz needle k ks offset i)
  note eq = find_in_block.simps [of sz needle k ks offset i]
  show ?case
  proof (cases "i < readable k \<and> offset + i + length needle \<le> sz")
    case False
    then have "\<not> prefix needle (drop j c)" if "i \<le> j" "j < readable k" for j
      using that "1.prems"(1,3,4) by (cases needle) (auto dest!: prefix_length_le)
    with False show ?thesis by (auto simp: eq)
  next
    case True
    then have m: "match_from (k # ks) i needle \<longleftrightarrow> prefix needle (drop i c)"
      using "1.prems" by (intro "1.prems"(2)) auto
    show ?thesis
    proof (cases "prefix needle (drop i c)")
      case True
      with m \<open>i < readable k \<and> _\<close> show ?thesis by (simp add: eq)
    next
      case False
      have from_i: "i \<le> l \<longleftrightarrow> l = i \<or> Suc i \<le> l" for l by auto
      from False m True "1.IH" [OF True _ "1.prems"] show ?thesis
        by (auto simp: eq from_i simp del: match_from.simps split: option.splits)
    qed
  qed
qed

lemma first_occ_append_skip:
  "\<forall>j < length a. \<not> prefix n (drop j (a @ b)) \<Longrightarrow>
   first_occ n (a @ b) = map_option (\<lambda>i. length a + i) (first_occ n b)"
proof (induction a)
  case Nil
  then show ?case by (cases "first_occ n b") simp_all
next
  case (Cons x a)
  then have "\<not> prefix n (x # a @ b)" and "\<forall>j < length a. \<not> prefix n (drop j (a @ b))"
    by fastforce+
  with Cons.IH show ?case by (cases "first_occ n b") auto
qed

lemma find_blocks_correct:
  "\<forall>k \<in> set ks. blk_ok k \<Longrightarrow> needle \<noteq> [] \<Longrightarrow> sz = offset + length (chain ks) \<Longrightarrow>
   find_blocks sz needle ks offset = map_option (\<lambda>i. offset + i) (first_occ needle (chain ks))"
proof (induction ks arbitrary: offset)
  case (Cons k ks)
  let ?c = "chain (k # ks)"
  have len: "length (blk_view k) = readable k"
    using Cons.prems(1) by simp
  have "match_from (k # ks) j needle \<longleftrightarrow> prefix needle (drop j ?c)"
    if "j < readable k" "j + length needle \<le> length ?c" for j
    by (rule match_from_prefix) (use that Cons.prems(1) len in auto)
  note f = find_in_block_correct [of ?c sz offset k needle ks 0, OF _ this _ Cons.prems(2)]
  show ?case
  proof (cases "find_in_block sz needle k ks offset 0")
    case (Some p)
    with f Cons.prems(3) obtain j where j: "p = offset + j" "j < readable k" "prefix needle (drop j ?c)"
      "\<forall>l < j. \<not> prefix needle (drop l ?c)" by auto
    then have "first_occ needle ?c = Some j"
      using len by (subst first_occ_Some) auto
    with Some j show ?thesis by simp
  next
    case None
    with f Cons.prems(3) have "\<forall>j < length (blk_view k). \<not> prefix needle (drop j ?c)"
      using len by auto
    then have "first_occ needle ?c = map_option (\<lambda>i. length (blk_view k) + i) (first_occ needle (chain ks))"
      by (simp add: first_occ_append_skip)
    moreover have "find_blocks sz needle ks (offset + readable k) =
        map_option (\<lambda>i. offset + readable k + i) (first_occ needle (chain ks))"
      using Cons len by simp
    ultimately show ?thesis
      using None len by (simp add: option.map_comp o_def add.assoc)
  qed
qed simp

lemma find_eq:
  "buf_ok b \<Longrightarrow> find b needle = (if needle = [] then - 1 else ssize_of (first_occ needle (content b)))"
proof -
  assume ok: "buf_ok b"
  show ?thesis
  proof (cases "buf_size b < length needle")
    case True
    then have "first_occ needle (content b) = None"
      using ok by (auto simp: first_occ_None buf_okD(6) dest!: prefix_length_le)
    with True show ?thesis by (simp add: find_def ssize_of_def)
  next
    case False
    have "find_blocks (buf_size b) needle (drop (read_block b) (blocks b)) 0 = first_occ needle (content b)"
      if "needle \<noteq> []"
      using find_blocks_correct [OF chain_blocks_ok [OF ok] that, of "buf_size b" 0 "read_block b"] ok
      by (simp add: buf_okD(6) content_def option.map_ident)
    with False show ?thesis by (simp add: find_def)
  qed
qed

lemma find_char_blocks_eq:
  "\<forall>k \<in> set ks. blk_ok k \<Longrightarrow>
   find_char_blocks c ks offset = map_option (\<lambda>i. offset + i) (str_find c (chain ks))"
proof (induction ks arbitrary: offset)
  case (Cons k ks)
  show ?case
  proof (cases "str_find c (blk_view k)")
    case None
    then have "c \<notin> set (blk_view k)" by simp
    with Cons show ?thesis
      by (cases "str_find c (chain ks)") (simp_all add: str_find_append_notin flip: blk_view_def)
  next
    case (Some i)
    then have "str_find c (blk_view k @ chain ks) = Some i"
      by (simp add: str_find_Some nth_append)
    with Some show ?thesis by (simp flip: blk_view_def)
  qed
qed simp

lemma find_char_eq: "buf_ok b \<Longrightarrow> find_char b c = ssize_of (str_find c (content b))"
  using find_char_blocks_eq [OF chain_blocks_ok [of b "read_block b"], of c 0]
  by (cases "str_find c (content b)") (auto simp: find_char_def buf_okD(6) ssize_of_def simp flip: content_def)

subsection \<open>The view of the first block\<close>

lemma peek_prefix: "buf_ok b \<Longrightarrow> prefix (peek b) (content b)"
  using buf_okD(3) [of b]
  by (auto simp: peek_def content_def drop_eq_Cons_nth)

lemma length_peek: "buf_ok b \<Longrightarrow> length (peek b) = peek_size b"
  by (simp add: peek_def peek_size_def buf_okD(4))

lemma peek_retrieve_nonempty:
  "buf_ok b \<Longrightarrow> 0 < n \<Longrightarrow> content (retrieve b n) \<noteq> [] \<Longrightarrow> peek (retrieve b n) \<noteq> []"
  using buf_okD(6) [OF retrieve_ok [of b n]] retrieve_view_nonempty [of b n] by (simp add: peek_def)

lemma blk_view_prefix_content:
  assumes "buf_ok b"
  shows "prefix (blk_view (rblk b)) (content b)" and "length (blk_view (rblk b)) \<le> kBlockSize"
  using assms buf_okD(3,4) [OF assms]
  by (auto simp: content_def drop_eq_Cons_nth readable_def blk_ok_def)

lemma compact_keeps_view:
  assumes "buf_ok b" and "content b \<noteq> []"
  shows "prefix (blk_view (rblk b)) (blk_view (rblk (compact b)))"
proof (cases "read_block b = 0")
  case False
  have "prefix (blk_view (rblk b)) (take kBlockSize (content b))"
    using blk_view_prefix_content [OF assms(1)] by (auto simp: prefix_def)
  with compact_view [OF assms False] show ?thesis by (rule prefix_order.trans [rotated])
qed (simp add: compact_def)

text \<open>Consuming part of the view keeps the rest of it in view.\<close>

lemma peek_retrieve_keeps:
  assumes "buf_ok b" and "n \<le> length (peek b)"
  shows "prefix (drop n (peek b)) (peek (retrieve b n))"
proof (cases "n = 0 \<or> n = length (peek b)")
  case True
  then show ?thesis by (auto simp: retrieve_def)
next
  case False
  then have size: "buf_size b \<noteq> 0" and peek: "peek b = blk_view (rblk b)"
    and n: "0 < n" "n < readable (rblk b)"
    using assms buf_okD(4) [OF assms(1)] by (auto simp: peek_def split: if_splits)
  let ?c = "consume_from_read_block b n"
  note c = consume_from_read_block [OF assms(1) less_imp_le [OF n(2)]]
  have view: "drop n (peek b) = blk_view (rblk ?c)" and ne': "blk_view (rblk ?c) \<noteq> []"
    using c n peek buf_okD(4) [OF assms(1)] by auto
  have ne: "read_idx (rblk ?c) \<noteq> write_idx (rblk ?c)"
    using ne' drained_iff [OF buf_okD(4) [OF c(1)]] by simp
  have "n \<le> buf_size b"
    using peek_prefix [OF assms(1)] assms by (auto simp: buf_okD(6) dest!: prefix_length_le)
  moreover have "retrieve_finish (retrieve_loop b n) = ?c"
    using n ne buf_okD(3,4) [OF assms(1)]
    by (auto simp: retrieve_loop.simps [of b n] retrieve_loop.simps [of _ 0] retrieve_finish_def
        Let_def min_absorb1 blk_ok_def)
  ultimately have r: "retrieve b n = compact ?c"
    using n(1) by (simp add: retrieve_def)
  have "content ?c \<noteq> []"
    using blk_view_prefix_content(1) [OF c(1)] ne' by auto
  moreover from this have "buf_size (compact ?c) \<noteq> 0"
    using compact_ok [OF c(1)] buf_okD(6) [OF compact_ok(1) [OF c(1)]] by simp
  ultimately show ?thesis
    unfolding view r using compact_keeps_view [OF c(1)] by (simp add: peek_def)
qed

text \<open>Receiving \<open>bs\<close> the way a caller of \<open>begin_write\<close> does: reserve, store through the
  pointer, commit.\<close>

definition recv_into :: "buffer \<Rightarrow> string \<Rightarrow> buffer" where
  "recv_into b bs = has_written (poke (snd (begin_write b)) bs) (length bs)"

lemma recv_into_ok:
  assumes "buf_ok b" and "length bs \<le> fst (begin_write b)"
  shows "buf_ok (recv_into b bs)" and "content (recv_into b bs) = content b @ bs"
  using poke_has_written [OF begin_write_ok [OF assms(1)], of bs] assms
  by (simp_all add: recv_into_def writable_begin_write content_begin_write)

section \<open>The contract for clients\<close>

text \<open>A byte queue: an abstraction \<open>bytes\<close>, an invariant, and what putting, reading and
  dropping bytes do to the abstraction.\<close>

locale byte_queue =
  fixes put :: "'b \<Rightarrow> string \<Rightarrow> 'b"
    and get :: "'b \<Rightarrow> nat \<Rightarrow> string"
    and skip :: "'b \<Rightarrow> nat \<Rightarrow> 'b"
    and avail :: "'b \<Rightarrow> nat"
    and bytes :: "'b \<Rightarrow> string"
    and ok :: "'b \<Rightarrow> bool"
  assumes ok_put: "ok b \<Longrightarrow> ok (put b s)"
    and ok_skip: "ok b \<Longrightarrow> ok (skip b n)"
    and bytes_put: "ok b \<Longrightarrow> bytes (put b s) = bytes b @ s"
    and bytes_skip: "ok b \<Longrightarrow> bytes (skip b n) = drop n (bytes b)"
    and bytes_get: "ok b \<Longrightarrow> n \<le> avail b \<Longrightarrow> get b n = take n (bytes b)"
    and avail_bytes: "ok b \<Longrightarrow> avail b = length (bytes b)"

text \<open>A client session: writes, and reads of at most \<open>n\<close> bytes that read and then drop them.
  The result is the queue and everything read.\<close>

datatype queue_op = Put string | Take nat

primrec queue_session ::
  "('b \<Rightarrow> string \<Rightarrow> 'b) \<Rightarrow> ('b \<Rightarrow> nat \<Rightarrow> string) \<Rightarrow> ('b \<Rightarrow> nat \<Rightarrow> 'b) \<Rightarrow> ('b \<Rightarrow> nat) \<Rightarrow>
   queue_op list \<Rightarrow> 'b \<Rightarrow> 'b \<times> string" where
  "queue_session put get skip avail [] b = (b, [])"
| "queue_session put get skip avail (x # xs) b =
     (case x of
        Put s \<Rightarrow> queue_session put get skip avail xs (put b s)
      | Take n \<Rightarrow>
          (let m = min n (avail b); (b', out) = queue_session put get skip avail xs (skip b m)
           in (b', get b m @ out)))"

primrec put_bytes :: "queue_op list \<Rightarrow> string" where
  "put_bytes [] = []"
| "put_bytes (x # xs) = (case x of Put s \<Rightarrow> s | Take n \<Rightarrow> []) @ put_bytes xs"

context byte_queue
begin

lemma session_fifo:
  "ok b \<Longrightarrow> queue_session put get skip avail xs b = (b', out) \<Longrightarrow>
   ok b' \<and> out @ bytes b' = bytes b @ put_bytes xs"
proof (induction xs arbitrary: b out)
  case (Cons x xs)
  show ?case
  proof (cases x)
    case (Put s)
    with Cons.prems Cons.IH [OF ok_put [OF Cons.prems(1), of s]] show ?thesis
      by (simp add: bytes_put)
  next
    case (Take n)
    let ?m = "min n (avail b)"
    obtain out' where o: "queue_session put get skip avail xs (skip b ?m) = (b', out')"
      and out: "out = get b ?m @ out'"
      using Cons.prems(2) Take by (auto simp: Let_def split: prod.splits)
    have "ok b'" and "out' @ bytes b' = drop ?m (bytes b) @ put_bytes xs"
      using Cons.IH [OF ok_skip [OF Cons.prems(1)] o] Cons.prems(1) by (simp_all add: bytes_skip)
    then show ?thesis
      using Cons.prems(1) Take out by (simp add: bytes_get)
  qed
qed simp

end

text \<open>A byte queue with a view of its front, as the parser uses it.\<close>

locale viewed_queue = byte_queue +
  fixes view :: "'b \<Rightarrow> string"
  assumes view_prefix: "ok b \<Longrightarrow> prefix (view b) (bytes b)"
    and view_after_skip: "ok b \<Longrightarrow> 0 < n \<Longrightarrow> bytes (skip b n) \<noteq> [] \<Longrightarrow> view (skip b n) \<noteq> []"
    and view_keeps: "ok b \<Longrightarrow> n \<le> length (view b) \<Longrightarrow> prefix (drop n (view b)) (view (skip b n))"
begin

lemma view_length_le: "ok b \<Longrightarrow> length (view b) \<le> avail b"
  by (simp add: avail_bytes prefix_length_le view_prefix)

lemma skip_in_view:
  assumes "ok b" and "n \<le> length (view b)"
  shows "bytes b = take n (view b) @ bytes (skip b n)"
proof -
  obtain rest where "bytes b = view b @ rest"
    using view_prefix [OF assms(1)] by (auto simp: prefix_def)
  with assms show ?thesis by (simp add: bytes_skip)
qed

lemma skip_decreases:
  "ok b \<Longrightarrow> 0 < n \<Longrightarrow> n \<le> length (view b) \<Longrightarrow> avail (skip b n) < avail b"
  using view_length_le [of b] by (simp add: avail_bytes ok_skip bytes_skip)

end

interpretation cq: viewed_queue append read_n retrieve buf_size content buf_ok peek
  by unfold_locales
    (simp_all add: chain_ok chain_simps read_n_eq buf_okD(6) peek_prefix
      peek_retrieve_nonempty peek_retrieve_keeps)

section \<open>Further facts\<close>

lemma block_count_eq: "blocks b \<noteq> [] \<Longrightarrow> block_count b = length (blocks b)"
proof -
  have "foldl (\<lambda>count k. Suc count) n ks = n + length ks" for n and ks :: "block list"
    by (induction ks arbitrary: n) auto
  then show "blocks b \<noteq> [] \<Longrightarrow> block_count b = length (blocks b)"
    by (cases "blocks b") (auto simp: block_count_def)
qed

lemma capacity_eq:
  assumes "buf_ok b"
  shows "capacity b + read_idx (blocks b ! 0) = kBlockSize * block_count b"
proof -
  have fold: "foldl (\<lambda>total k. total + kBlockSize) n ks = n + kBlockSize * length ks" for n and ks :: "block list"
    by (induction ks arbitrary: n) auto
  obtain k ks where bs: "blocks b = k # ks"
    using buf_okD(2) [OF assms] by (cases "blocks b") auto
  then have "blk_ok k"
    using assms by (auto simp: buf_ok_def)
  with bs show ?thesis
    by (auto simp: capacity_def block_count_eq fold blk_ok_def writable_def readable_def)
qed

lemma append_fits:
  assumes "src \<noteq> []" and "length src \<le> writable (wblk b)"
  shows "append b src = b\<lparr>blocks := (blocks b)[write_block b := blk_commit (blk_poke (wblk b) src) (length src)],
                          buf_size := buf_size b + length src\<rparr>"
  using assms
  by (cases "writable (wblk b)") (simp_all add: append_def append_loop.simps [of b src] Let_def min_absorb1)

text \<open>The state after exactly one block of bytes has been written and consumed: the read
  position stays at the end of the full first block.\<close>

definition drained_head :: "string \<Rightarrow> buffer" where
  "drained_head s = \<lparr>blocks = [\<lparr>data = s, read_idx = kBlockSize, write_idx = kBlockSize\<rparr>],
                     read_block = 0, write_block = 0, buf_size = 0\<rparr>"

lemma append_one_block:
  assumes "length junk = kBlockSize" and "length s = kBlockSize"
  shows "append (Buffer_new junk) s =
      \<lparr>blocks = [\<lparr>data = s, read_idx = 0, write_idx = kBlockSize\<rparr>],
       read_block = 0, write_block = 0, buf_size = kBlockSize\<rparr>"
proof -
  have ne: "s \<noteq> []" using assms(2) by (auto simp: kBlockSize_def)
  then show ?thesis
    using assms by (subst append_fits [OF ne])
      (simp_all add: Buffer_new_def block_reset_def writable_def blk_poke_def blk_commit_def)
qed

lemma fill_and_drain:
  assumes "length junk = kBlockSize" and "length s = kBlockSize"
  shows "retrieve (append (Buffer_new junk) s) kBlockSize = drained_head s"
  using assms
  by (simp add: append_one_block retrieve_def retrieve_loop.simps retrieve_finish_def consume_from_read_block_def
      compact_def drained_head_def readable_def kBlockSize_def)

lemma recv_drained_head:
  assumes "length s = kBlockSize" and "t \<noteq> []" and "length t \<le> kBlockSize"
  defines "b \<equiv> recv_into (drained_head s) t"
  shows "read_block b = 0" and "rblk b = \<lparr>data = s, read_idx = kBlockSize, write_idx = kBlockSize\<rparr>"
    and "buf_size b = length t"
  using assms(1-3) unfolding b_def
  by (simp_all add: recv_into_def begin_write_def drained_head_def writable_def advance_write_def
      has_written_def poke_def Let_def alloc_block_def block_reset_def blk_poke_def)

section \<open>Properties\<close>

text \<open>C1. The chain buffer is a byte queue: in any session of writes and bounded reads, what has
  been read followed by what is still buffered is what was buffered at the start followed by
  everything written. No byte is lost, duplicated or reordered, whatever the block
  boundaries and compactions in between.\<close>

theorem buffer_fifo:
  assumes "buf_ok b" and "queue_session append read_n retrieve buf_size xs b = (b', out)"
  shows "buf_ok b' \<and> out @ content b' = content b @ put_bytes xs"
  using cq.session_fifo [OF assms] .

theorem buffer_fifo_witness:
  "let xs = [Put ''GET '', Take 2, Put ''/'', Take 9];
       r = queue_session append read_n retrieve buf_size xs (Buffer_new (replicate kBlockSize NUL))
   in buf_ok (fst r) \<and> snd r @ content (fst r) = ''GET /''"
proof -
  let ?b = "Buffer_new (replicate kBlockSize NUL)" and ?xs = "[Put ''GET '', Take 2, Put ''/'', Take 9]"
  obtain b' out where r: "queue_session append read_n retrieve buf_size ?xs ?b = (b', out)" by fastforce
  show ?thesis
    using buffer_fifo [OF Buffer_new_ok r] r by (simp add: content_Buffer_new del: queue_session.simps)
qed

text \<open>C17. Every operation that changes the buffer keeps its invariant and acts on its byte
  sequence as specified: \<open>append\<close> adds at the end, \<open>retrieve\<close> removes from the front (all of it
  when asked for more than there is), \<open>retrieve_all\<close> empties it, \<open>ensure_writable\<close> and \<open>begin_write\<close>
  leave it alone, and \<open>has_written\<close> commits the bytes stored through the pointer of
  \<open>begin_write\<close>.\<close>

theorem buffer_operations:
  assumes "buf_ok b"
  shows "buf_ok (append b s) \<and> content (append b s) = content b @ s \<and>
    buf_ok (retrieve b n) \<and> content (retrieve b n) = drop n (content b) \<and>
    buf_ok (retrieve_all b) \<and> content (retrieve_all b) = [] \<and>
    buf_ok (ensure_writable b n) \<and> content (ensure_writable b n) = content b \<and>
    buf_ok (snd (begin_write b)) \<and> content (snd (begin_write b)) = content b \<and>
    0 < fst (begin_write b) \<and>
    (length bs \<le> fst (begin_write b) \<longrightarrow>
      buf_ok (has_written (poke (snd (begin_write b)) bs) (length bs)) \<and>
      content (has_written (poke (snd (begin_write b)) bs) (length bs)) = content b @ bs)"
  using assms recv_into_ok [OF assms, of bs]
  by (simp add: chain_ok chain_simps begin_write_positive recv_into_def)

theorem buffer_operations_witness:
  "content (append (Buffer_new (replicate kBlockSize NUL)) ''abc'') = ''abc'' \<and>
   content (retrieve (append (Buffer_new (replicate kBlockSize NUL)) ''abc'') 2) = ''c''"
proof -
  let ?b = "Buffer_new (replicate kBlockSize NUL)"
  have ok: "buf_ok ?b" by (simp add: Buffer_new_ok)
  show ?thesis
    using buffer_operations [OF ok, of "''abc''"] buffer_operations [of "append ?b ''abc''" _ 2]
    by (simp add: content_Buffer_new)
qed

text \<open>C18. \<open>find(needle)\<close> returns the offset of the first occurrence of the needle in the
  buffered bytes, across block boundaries, and -1 when there is none (or the needle is
  empty); \<open>find(c)\<close> agrees with it on one-byte needles; \<open>read_n(n)\<close> returns the first \<open>n\<close>
  bytes, or nothing when there are fewer.\<close>

theorem buffer_search:
  assumes "buf_ok b"
  shows "find b needle = (if needle = [] then - 1 else
      (case first_occ needle (content b) of None \<Rightarrow> - 1 | Some i \<Rightarrow> int i)) \<and>
    find_char b c = find b [c] \<and>
    read_n b n = (if n \<le> length (content b) then take n (content b) else [])"
  using assms by (simp add: find_eq find_char_eq read_n_eq ssize_of_def str_find_first_occ)

theorem buffer_search_witness:
  "find (append (Buffer_new (replicate kBlockSize NUL)) ''a: b'') '': '' = 1"
proof -
  let ?b = "append (Buffer_new (replicate kBlockSize NUL)) ''a: b''"
  have "buf_ok ?b" by (simp add: Buffer_new_ok append_ok)
  from buffer_search [OF this, of "'': ''" "CHR '':''" 0] show ?thesis
    by (simp add: content_append Buffer_new_ok content_Buffer_new)
qed

text \<open>The repository's own test of this search, in bytes: \<open>FindString\<close> of \<open>buffer_test.cpp\<close> appends 28 bytes from a literal of 26 and its terminating zero, and expects the line
  end at 26. Whatever byte follows the literal in memory, it is at 24.\<close>

lemma find_string_test:
  "find (append (Buffer_new (replicate kBlockSize NUL)) (''GET /index.html HTTP/1.1'' @ crlf @ [NUL, x])) crlf = 24"
proof -
  let ?b = "append (Buffer_new (replicate kBlockSize NUL)) (''GET /index.html HTTP/1.1'' @ crlf @ [NUL, x])"
  have "buf_ok ?b" by (simp add: Buffer_new_ok append_ok)
  from find_eq [OF this, of crlf] show ?thesis
    by (simp add: content_append Buffer_new_ok content_Buffer_new crlf_def ssize_of_def)
qed

text \<open>\<open>read_until(delim)\<close> returns the bytes up to and including the first occurrence of the
  delimiter when they lie in the first readable block, and otherwise the empty view: also
  when the delimiter is in the buffer but further on.\<close>

lemma buffer_read_until:
  assumes "buf_ok b" and "delim \<noteq> []"
  shows "read_until b delim =
    (case first_occ delim (content b) of
       None \<Rightarrow> []
     | Some i \<Rightarrow> if i + length delim \<le> peek_size b then take (i + length delim) (content b) else [])"
proof (cases "first_occ delim (content b)")
  case None
  then show ?thesis
    using assms by (simp add: read_until_def find_eq ssize_of_def)
next
  case (Some i)
  then have size: "buf_size b \<noteq> 0"
    using assms by (auto simp: first_occ_Some buf_okD(6))
  obtain rest where rest: "content b = blk_view (rblk b) @ rest"
    using peek_prefix [OF assms(1)] size by (auto simp: peek_def prefix_def)
  have "take t (drop (read_idx (rblk b)) (data (rblk b))) = take t (content b)"
    if "t \<le> readable (rblk b)" for t
    using that buf_okD(4) [OF assms(1)] by (simp add: rest) (simp add: blk_view_def min_absorb1)
  then show ?thesis
    using assms Some size by (simp add: read_until_def find_eq ssize_of_def peek_size_def)
qed

text \<open>After bytes have been consumed, a buffer that still holds bytes shows some of them:
  \<open>peek\<close> is a prefix of the buffered bytes, its length is \<open>peek_size\<close>, and it is not empty.\<close>

lemma buffer_view_after_retrieve:
  assumes "buf_ok b" and "0 < n" and "n < buf_size b"
  shows "peek (retrieve b n) \<noteq> [] \<and> prefix (peek (retrieve b n)) (drop n (content b)) \<and>
    length (peek (retrieve b n)) = peek_size (retrieve b n)"
  using assms peek_retrieve_nonempty [of b n] peek_prefix [OF retrieve_ok [OF assms(1)], of n]
    length_peek [OF retrieve_ok [OF assms(1)]]
  by (simp add: content_retrieve buf_okD(6))

text \<open>The view can be empty although bytes are buffered. When exactly one block of bytes has
  been written and consumed, the read position stays at the end of that block, and the next
  bytes go to a new one: \<open>size()\<close> counts them, but \<open>peek()\<close> is empty, \<open>peek_size()\<close> is 0 and
  \<open>peek_byte()\<close> reads past the end of the block's array.\<close>

lemma buffer_view_stalls:
  assumes "length junk = kBlockSize" and "length s = kBlockSize"
    and "t \<noteq> []" and "length t \<le> kBlockSize"
  shows "let b = recv_into (retrieve (append (Buffer_new junk) s) kBlockSize) t
    in content b = t \<and> buf_size b = length t \<and> peek b = [] \<and> peek_size b = 0 \<and> peek_byte b = None"
proof -
  have ok: "buf_ok (drained_head s)" and c: "content (drained_head s) = []"
    using retrieve_ok [OF append_ok [OF Buffer_new_ok [OF assms(1)]], of s kBlockSize] assms
    by (simp_all add: fill_and_drain, simp add: drained_head_def content_def blk_view_alt)
  have "fst (begin_write (drained_head s)) = kBlockSize"
    by (simp add: begin_write_def drained_head_def writable_def advance_write_def alloc_block_def
        block_reset_def Let_def)
  then show ?thesis
    using recv_into_ok(2) [OF ok, of t] recv_drained_head [OF assms(2-4)] assms c
    by (simp add: fill_and_drain peek_def peek_size_def peek_byte_def blk_view_alt readable_def)
qed

text \<open>\<open>ensure_writable(len)\<close> makes \<open>len\<close> contiguous bytes writable exactly for the lengths
  that fit in a block, whatever the header promises: with a longer \<open>len\<close> no call of \<open>begin_write\<close>
  offers that much. \<open>capacity()\<close> misses the bytes of \<open>head_\<close> that have been consumed.\<close>

lemma buffer_capacity:
  assumes "buf_ok b"
  shows "(len \<le> fst (begin_write (ensure_writable b len)) \<longleftrightarrow> len \<le> kBlockSize) \<and>
    capacity b = kBlockSize * block_count b - read_idx (blocks b ! 0)"
proof -
  have "fst (begin_write c) \<le> kBlockSize" for c
    by (simp add: begin_write_def writable_def Let_def)
  moreover have "len \<le> fst (begin_write (ensure_writable b len))" if "len \<le> kBlockSize"
    using that writable_fresh [OF wblk_advance_write [OF assms]]
    by (auto simp: ensure_writable_def begin_write_def Let_def)
  ultimately show ?thesis
    using capacity_eq [OF assms] le_trans by fastforce
qed

end
