(* ===== verification/Http_Request.thy ===== *)
theory Http_Request
  imports Cxx_Std
begin

text \<open>
  The request of \<open>src/hound/src/http/http_request.h\<close> and \<open>http_request.cpp\<close>: one record field per member, the
  \<open>unordered_map\<close> of headers and the \<open>map\<close>s of parameters as maps, of which the code uses
  lookup and insertion only. Shown: the method names are a bijection with the known methods,
  \<open>finalize\<close> splits the target at the first question mark and decides keep-alive, and the query, form
  and cookie readers invert the usual encodings.
\<close>

section \<open>Definitions\<close>

datatype http_method = GET | POST | PUT | HTTP_DELETE | HEAD | OPTIONS | PATCH | UNKNOWN

record http_request =
  req_method :: http_method
  path :: string
  query :: string
  version :: string
  headers :: "string \<rightharpoonup> string"
  body :: string
  keep_alive :: bool

definition HttpRequest_new :: http_request where
  "HttpRequest_new =
     \<lparr>req_method = UNKNOWN, path = [], query = [], version = ''HTTP/1.1'', headers = Map.empty,
      body = [], keep_alive = True\<rparr>"

definition set_method :: "http_method \<Rightarrow> http_request \<Rightarrow> http_request" where
  "set_method m r = r\<lparr>req_method := m\<rparr>"

definition set_path :: "string \<Rightarrow> http_request \<Rightarrow> http_request" where
  "set_path p r = r\<lparr>path := p\<rparr>"

definition set_version :: "string \<Rightarrow> http_request \<Rightarrow> http_request" where
  "set_version v r = r\<lparr>version := v\<rparr>"

definition set_body :: "string \<Rightarrow> http_request \<Rightarrow> http_request" where
  "set_body b r = r\<lparr>body := b\<rparr>"

definition add_header :: "string \<Rightarrow> string \<Rightarrow> http_request \<Rightarrow> http_request" where
  "add_header k v r = r\<lparr>headers := (headers r)(k \<mapsto> v)\<rparr>"

definition header :: "http_request \<Rightarrow> string \<Rightarrow> string" where
  "header r k = (case headers r k of Some v \<Rightarrow> v | None \<Rightarrow> [])"

definition finalize :: "http_request \<Rightarrow> http_request" where
  "finalize r =
     (let r1 = (case str_find CHR ''?'' (path r) of
                  Some pos \<Rightarrow> r\<lparr>query := drop (Suc pos) (path r), path := substr 0 pos (path r)\<rparr>
                | None \<Rightarrow> r);
          conn = header r1 ''Connection''
      in if version r1 = ''HTTP/1.0''
         then r1\<lparr>keep_alive := (conn = ''keep-alive'' \<or> conn = ''Keep-Alive'')\<rparr>
         else r1\<lparr>keep_alive := (conn \<noteq> ''close'' \<and> conn \<noteq> ''Close'')\<rparr>)"

text \<open>The body of the two pair loops: \<open>params[key] = value\<close>, or \<open>params[pair] = ""\<close> without \<open>=\<close>.\<close>

definition add_pair :: "(string \<rightharpoonup> string) \<Rightarrow> string \<Rightarrow> (string \<rightharpoonup> string)" where
  "add_pair m pair =
     (case str_find CHR ''='' pair of
        Some pos \<Rightarrow> m(substr 0 pos pair \<mapsto> drop (Suc pos) pair)
      | None \<Rightarrow> m(pair \<mapsto> []))"

definition query_params :: "http_request \<Rightarrow> (string \<rightharpoonup> string)" where
  "query_params r =
     (if query r = [] then Map.empty
      else foldl add_pair Map.empty (getlines CHR ''&'' (query r)))"

definition form_data :: "http_request \<Rightarrow> (string \<rightharpoonup> string)" where
  "form_data r =
     (if \<not> str_contains ''application/x-www-form-urlencoded'' (header r ''Content-Type'') then Map.empty
      else foldl add_pair Map.empty (getlines CHR ''&'' (body r)))"

fun find_cookie :: "string \<Rightarrow> string list \<Rightarrow> string" where
  "find_cookie name [] = []"
| "find_cookie name (raw # items) =
     (let item = dropWhile (\<lambda>c. c = CHR '' '') raw
      in case str_find CHR ''='' item of
           Some pos \<Rightarrow> if substr 0 pos item = name then drop (Suc pos) item
                       else find_cookie name items
         | None \<Rightarrow> find_cookie name items)"

definition cookie :: "http_request \<Rightarrow> string \<Rightarrow> string" where
  "cookie r name =
     (let cookie_header = header r ''Cookie''
      in if cookie_header = [] then [] else find_cookie name (getlines CHR '';'' cookie_header))"

fun method_str :: "http_method \<Rightarrow> string" where
  "method_str GET = ''GET''"
| "method_str POST = ''POST''"
| "method_str PUT = ''PUT''"
| "method_str HTTP_DELETE = ''DELETE''"
| "method_str HEAD = ''HEAD''"
| "method_str OPTIONS = ''OPTIONS''"
| "method_str PATCH = ''PATCH''"
| "method_str UNKNOWN = ''UNKNOWN''"

definition method_from_str :: "string \<Rightarrow> http_method" where
  "method_from_str s =
     (if s = ''GET'' then GET
      else if s = ''POST'' then POST
      else if s = ''PUT'' then PUT
      else if s = ''DELETE'' then HTTP_DELETE
      else if s = ''HEAD'' then HEAD
      else if s = ''OPTIONS'' then OPTIONS
      else if s = ''PATCH'' then PATCH
      else UNKNOWN)"

section \<open>Lemmas\<close>

lemma method_from_str_method_str [simp]: "method_from_str (method_str m) = m"
  by (cases m) (simp_all add: method_from_str_def)

lemma header_add_header [simp]:
  "header (add_header k v r) k' = (if k' = k then v else header r k')"
  by (simp add: header_def add_header_def)

definition pair_string :: "string \<times> string \<Rightarrow> string" where
  "pair_string kv = fst kv @ CHR ''='' # snd kv"

lemma pair_string_nonempty [simp]: "pair_string kv \<noteq> []" "[] \<noteq> pair_string kv"
  by (simp_all add: pair_string_def)

lemma add_pair_string: "CHR ''='' \<notin> set k \<Longrightarrow> add_pair m (pair_string (k, v)) = m(k \<mapsto> v)"
  by (simp add: add_pair_def pair_string_def substr_def)

lemma foldl_add_pair:
  "\<forall>(k, v) \<in> set kvs. CHR ''='' \<notin> set k \<Longrightarrow>
   foldl add_pair m (map pair_string kvs) = m ++ map_of (rev kvs)"
  by (induction kvs arbitrary: m) (auto simp: add_pair_string map_add_assoc map_add_upd_left map_add_def fun_eq_iff split: option.splits)

lemma pairs_decode:
  assumes "\<forall>(k, v) \<in> set kvs. set k \<inter> {CHR ''='', CHR ''&''} = {} \<and> CHR ''&'' \<notin> set v"
  shows "foldl add_pair Map.empty (getlines CHR ''&'' (join ''&'' (map pair_string kvs))) = map_of (rev kvs)"
proof -
  have "\<forall>t \<in> set (map pair_string kvs). CHR ''&'' \<notin> set t"
    using assms by (auto simp: pair_string_def)
  moreover have "map pair_string kvs = [] \<or> last (map pair_string kvs) \<noteq> []"
    by (cases kvs rule: rev_cases) simp_all
  ultimately have "getlines CHR ''&'' (join ''&'' (map pair_string kvs)) = map pair_string kvs"
    by (rule getlines_join)
  with assms show ?thesis
    by (simp add: foldl_add_pair case_prod_unfold)
qed

lemma find_cookie_pairs:
  "\<forall>(n, k, v) \<in> set ps. set k \<inter> {CHR ''='', CHR '' ''} = {} \<and> k \<noteq> [] \<Longrightarrow>
   find_cookie name (map (\<lambda>(n, kv). replicate n CHR '' '' @ pair_string kv) ps) =
   (case map_of (map snd ps) name of Some v \<Rightarrow> v | None \<Rightarrow> [])"
proof (induction ps)
  case (Cons p ps)
  obtain n k v where p: "p = (n, k, v)" by (cases p)
  have "dropWhile (\<lambda>c. c = CHR '' '') (pair_string (k, v)) = pair_string (k, v)"
    using Cons.prems by (cases k) (auto simp: p pair_string_def)
  then have "dropWhile (\<lambda>c. c = CHR '' '') (replicate n CHR '' '' @ pair_string (k, v)) = pair_string (k, v)"
    by (induction n) simp_all
  then show ?case
    using Cons by (auto simp: p pair_string_def substr_def Let_def)
qed simp

section \<open>Properties\<close>

text \<open>Method names: \<open>method_from_str\<close> inverts \<open>method_str\<close>, and every name that it recognises is
  the one \<open>method_str\<close> prints.\<close>

lemma method_names:
  "method_from_str (method_str m) = m \<and>
   (method_from_str s = UNKNOWN \<or> method_str (method_from_str s) = s)"
  by (rule conjI, rule method_from_str_method_str) (simp add: method_from_str_def)

text \<open>\<open>finalize\<close>: without a question mark the target is kept and the query string too; with one, the
  target was the new path, a question mark and the new query, and the new path has no
  question mark. Keep-alive is on for HTTP/1.0 only on request and otherwise unless
  refused. Method, version, headers and body are untouched, and finalizing again changes
  nothing.\<close>

lemma finalize_spec:
  "(if CHR ''?'' \<in> set (path r)
    then path r = path (finalize r) @ CHR ''?'' # query (finalize r) \<and> CHR ''?'' \<notin> set (path (finalize r))
    else path (finalize r) = path r \<and> query (finalize r) = query r) \<and>
   keep_alive (finalize r) =
     (if version r = ''HTTP/1.0'' then header r ''Connection'' \<in> {''keep-alive'', ''Keep-Alive''}
      else header r ''Connection'' \<notin> {''close'', ''Close''}) \<and>
   req_method (finalize r) = req_method r \<and> version (finalize r) = version r \<and>
   headers (finalize r) = headers r \<and> body (finalize r) = body r \<and>
   finalize (finalize r) = finalize r"
proof (cases "str_find CHR ''?'' (path r)")
  case None
  then show ?thesis
    by (auto simp: finalize_def header_def Let_def)
next
  case (Some i)
  note s = str_find_SomeD [OF Some]
  then have "CHR ''?'' \<in> set (path r)"
    by (metis in_set_conv_decomp)
  with s Some show ?thesis
    by (auto simp: finalize_def header_def Let_def substr_def)
qed

text \<open>Reading pairs: a query string, or a form body declared as URL-encoded, that joins
  \<open>key=value\<close> pairs with ampersands is read back as the map of these pairs; of several pairs
  with the same key the last one counts.\<close>

lemma pairs_roundtrip:
  assumes "\<forall>(k, v) \<in> set kvs. set k \<inter> {CHR ''='', CHR ''&''} = {} \<and> CHR ''&'' \<notin> set v"
  shows "(query r = join ''&'' (map pair_string kvs) \<longrightarrow> query_params r = map_of (rev kvs)) \<and>
    (str_contains ''application/x-www-form-urlencoded'' (header r ''Content-Type'') \<and>
       body r = join ''&'' (map pair_string kvs) \<longrightarrow> form_data r = map_of (rev kvs))"
  using pairs_decode [OF assms] by (auto simp: query_params_def form_data_def)

text \<open>Cookies: from a \<open>Cookie\<close> header that joins \<open>name=value\<close> pairs with a semicolon and a
  space, \<open>cookie(name)\<close> returns the value of the first pair with that name, and the empty
  string when there is none.\<close>

lemma cookie_lookup:
  assumes "headers r ''Cookie'' = Some (join ''; '' (map pair_string (kv # kvs)))"
    and "\<forall>(k, v) \<in> set (kv # kvs). set k \<inter> {CHR ''='', CHR '' '', CHR '';''} = {} \<and> k \<noteq> [] \<and> CHR '';'' \<notin> set v"
  shows "cookie r name = (case map_of (kv # kvs) name of Some v \<Rightarrow> v | None \<Rightarrow> [])"
proof -
  have no: "CHR '';'' \<notin> set (pair_string p)" if "p \<in> set (kv # kvs)" for p
    using assms(2) that by (auto simp: pair_string_def)
  have "getlines CHR '';'' (join ''; '' (map pair_string (kv # kvs))) =
      pair_string kv # map ((@) '' '') (map pair_string kvs)"
    using no by (subst list.map, intro getlines_join_padded) auto
  also have "\<dots> = map (\<lambda>(n, p). replicate n CHR '' '' @ pair_string p) ((0, kv) # map (Pair 1) kvs)"
    by simp
  finally have lines: "getlines CHR '';'' (join ''; '' (map pair_string (kv # kvs))) =
      map (\<lambda>(n, p). replicate n CHR '' '' @ pair_string p) ((0, kv) # map (Pair 1) kvs)" .
  have "header r ''Cookie'' \<noteq> []"
    using assms(1) by (cases kvs) (simp_all add: header_def)
  then have "cookie r name = find_cookie name (getlines CHR '';'' (join ''; '' (map pair_string (kv # kvs))))"
    using assms(1) by (simp add: cookie_def header_def Let_def)
  also have "\<dots> = (case map_of (map snd ((0::nat, kv) # map (Pair 1) kvs)) name of Some v \<Rightarrow> v | None \<Rightarrow> [])"
    unfolding lines by (rule find_cookie_pairs) (use assms(2) in auto)
  finally show ?thesis
    by (simp add: comp_def)
qed

end
