(* ===== verification/Http_Parser.thy ===== *)
theory Http_Parser
  imports Chain_Buffer Http_Request
begin

text \<open>
  The request parser of \<open>src/hound/src/http/http_parser.h\<close> and \<open>http_parser.cpp\<close>. The per-state functions get the
  bytes in view (\<open>data\<close>, \<open>len\<close>) as a list and return the number of bytes consumed with the
  new parser. \<open>parse_chunked_body\<close> also gets the memory behind the view, because its \<open>strtoul\<close>
  scans without a bound; it may fail, so it returns a sum. The sizes \<open>content_length_\<close>, \<open>body_read_\<close> and
  \<open>chunk_size_\<close> are 64-bit words: a client chooses them and they wrap. The driving loop
  \<open>parse\<close> is run with fuel, one unit per iteration; \<open>parse_returns\<close> shows that the size of
  the buffer plus one is enough.
\<close>

section \<open>Definitions\<close>

datatype parser_state = START | REQUEST_LINE | HEADERS | BODY | CHUNKED_BODY | DONE | ERROR

text \<open>\<open>std::length_error\<close> thrown by \<open>std::string::append\<close>, and a read outside the block's array.\<close>

datatype parse_fault = LengthError | OutOfRangeRead

record http_parser =
  state :: parser_state
  request :: http_request
  current_header_key :: string
  content_length :: size_t
  body_read :: size_t
  temp_body :: string
  chunk_size :: size_t
  reading_chunk_size :: bool
  chunked :: bool

definition HttpParser_reset :: http_parser where
  "HttpParser_reset =
     \<lparr>state = START, request = HttpRequest_new, current_header_key = [], content_length = 0,
      body_read = 0, temp_body = [], chunk_size = 0, reading_chunk_size = True, chunked = False\<rparr>"

definition is_done :: "http_parser \<Rightarrow> bool" where
  "is_done p \<longleftrightarrow> state p = DONE"

definition has_error :: "http_parser \<Rightarrow> bool" where
  "has_error p \<longleftrightarrow> state p = ERROR"

text \<open>\<open>take_request\<close> finalizes the request and moves it out of the parser; what is left behind
  in \<open>request_\<close> is a valid but unspecified value, the second argument.\<close>

definition take_request :: "http_parser \<Rightarrow> http_request \<Rightarrow> http_request \<times> http_parser" where
  "take_request p moved_from = (finalize (request p), p\<lparr>request := moved_from\<rparr>)"

fun find_crlf :: "string \<Rightarrow> nat option" where
  "find_crlf (a # b # s) = (if a = CR \<and> b = LF then Some 0 else map_option Suc (find_crlf (b # s)))"
| "find_crlf s = None"

subsection \<open>Request line\<close>

definition parse_request_line :: "http_parser \<Rightarrow> string \<Rightarrow> nat \<times> http_parser" where
  "parse_request_line p view =
     (case find_crlf view of
        None \<Rightarrow> (0, p)
      | Some line_len \<Rightarrow>
          (let line = take line_len view
           in case str_find CHR '' '' line of
                None \<Rightarrow> (0, p\<lparr>state := ERROR\<rparr>)
              | Some sp1 \<Rightarrow>
                  (case str_find_from CHR '' '' (sp1 + 1) line of
                     None \<Rightarrow> (0, p\<lparr>state := ERROR\<rparr>)
                   | Some sp2 \<Rightarrow>
                       (let m = substr 0 sp1 line;
                            target = substr (sp1 + 1) (sp2 - sp1 - 1) line;
                            v = drop (sp2 + 1) line
                        in (line_len + 2,
                            p\<lparr>request := set_version v (set_path target
                                (set_method (method_from_str m) (request p))),
                              state := HEADERS\<rparr>)))))"

subsection \<open>Headers\<close>

definition headers_done :: "http_parser \<Rightarrow> http_parser" where
  "headers_done p =
     (if str_contains ''chunked'' (header (request p) ''Transfer-Encoding'')
      then p\<lparr>chunked := True, state := CHUNKED_BODY\<rparr>
      else let cl = header (request p) ''Content-Length''
           in if cl \<noteq> [] then p\<lparr>content_length := strtoul 10 cl, state := BODY\<rparr>
              else p\<lparr>state := DONE\<rparr>)"

definition parse_header_line :: "http_parser \<Rightarrow> string \<Rightarrow> http_parser" where
  "parse_header_line p line =
     (case str_find CHR '':'' line of
        None \<Rightarrow> p
      | Some colon \<Rightarrow>
          p\<lparr>request := add_header (substr 0 colon line)
              (dropWhile (\<lambda>c. c = CHR '' '') (drop (colon + 1) line)) (request p)\<rparr>)"

function parse_headers_loop :: "http_parser \<Rightarrow> string \<Rightarrow> nat \<Rightarrow> nat \<times> http_parser" where
  "parse_headers_loop p current consumed_total =
     (if current = [] then (consumed_total, p)
      else if 2 \<le> length current \<and> current ! 0 = CR \<and> current ! 1 = LF
      then (consumed_total + 2, headers_done p)
      else case find_crlf current of
             None \<Rightarrow> (consumed_total, p)
           | Some line_len \<Rightarrow>
               parse_headers_loop (parse_header_line p (take line_len current))
                 (drop (line_len + 2) current) (consumed_total + line_len + 2))"
  by pat_completeness auto
termination
  by (relation "measure (\<lambda>(p, current, n). length current)") auto

declare parse_headers_loop.simps [simp del]

definition parse_headers :: "http_parser \<Rightarrow> string \<Rightarrow> nat \<times> http_parser" where
  "parse_headers p view = parse_headers_loop p view 0"

subsection \<open>Fixed-length body\<close>

definition parse_body :: "http_parser \<Rightarrow> string \<Rightarrow> nat \<times> http_parser" where
  "parse_body p view =
     (let needed = content_length p - body_read p;
          to_consume = min (unat needed) (length view);
          p1 = p\<lparr>temp_body := temp_body p @ take to_consume view,
                 body_read := body_read p + of_nat to_consume\<rparr>
      in (to_consume,
          if content_length p1 \<le> body_read p1
          then p1\<lparr>request := set_body (temp_body p1) (request p1), state := DONE\<rparr> else p1))"

subsection \<open>Chunked body\<close>

text \<open>The largest size of an \<open>std::string\<close>: no more than \<open>PTRDIFF_MAX\<close>.\<close>

definition string_max_size :: nat where
  "string_max_size = 2 ^ 63 - 1"

lemma unat_chunk_plus_2:
  "unat (c :: size_t) \<le> string_max_size \<Longrightarrow> unat (c + 2) = unat c + 2"
  by (simp add: string_max_size_def unat_word_ariths)

text \<open>\<open>current\<close> is the memory from the current position on, of which \<open>remaining\<close> bytes are in view.\<close>

function parse_chunked_loop ::
  "http_parser \<Rightarrow> string \<Rightarrow> nat \<Rightarrow> nat \<Rightarrow> parse_fault + nat \<times> http_parser" where
  "parse_chunked_loop p current remaining consumed_total =
     (if remaining = 0 then Inr (consumed_total, p)
      else if reading_chunk_size p
      then (case find_crlf (take remaining current) of
              None \<Rightarrow> Inr (consumed_total, p)
            | Some n \<Rightarrow>
                (case strtoul_mem 16 current of
                   None \<Rightarrow> Inl OutOfRangeRead
                 | Some sz \<Rightarrow>
                     if sz = 0
                     then Inr (consumed_total + n + 2,
                               p\<lparr>chunk_size := sz, state := DONE,
                                 request := set_body (temp_body p) (request p)\<rparr>)
                     else parse_chunked_loop (p\<lparr>chunk_size := sz, reading_chunk_size := False\<rparr>)
                            (drop (n + 2) current) (remaining - (n + 2)) (consumed_total + n + 2)))
      else let data_needed = chunk_size p + 2
           in if remaining < unat data_needed
              then let take_n = min remaining (unat (chunk_size p))
                   in Inr (consumed_total + take_n,
                           p\<lparr>temp_body := temp_body p @ take take_n current,
                             chunk_size := chunk_size p - of_nat take_n\<rparr>)
              else if string_max_size - length (temp_body p) < unat (chunk_size p)
              then Inl LengthError
              else parse_chunked_loop
                     (p\<lparr>temp_body := temp_body p @ take (unat (chunk_size p)) current,
                        reading_chunk_size := True\<rparr>)
                     (drop (unat data_needed) current) (remaining - unat data_needed)
                     (consumed_total + unat data_needed))"
  by pat_completeness auto
termination
  by (relation "measure (\<lambda>(p, current, remaining, n). remaining)")
    (auto simp: not_less unat_chunk_plus_2)

declare parse_chunked_loop.simps [simp del]

definition parse_chunked_body :: "http_parser \<Rightarrow> string \<Rightarrow> nat \<Rightarrow> parse_fault + nat \<times> http_parser" where
  "parse_chunked_body p mem len = parse_chunked_loop p mem len 0"

subsection \<open>The driving loop\<close>

text \<open>One evaluation of the switch, for a state that is not final.\<close>

definition parse_switch :: "http_parser \<Rightarrow> string \<Rightarrow> nat \<Rightarrow> parse_fault + nat \<times> http_parser" where
  "parse_switch p mem available =
     (case state p of
        START \<Rightarrow> Inr (parse_request_line p (take available mem))
      | REQUEST_LINE \<Rightarrow> Inr (parse_request_line p (take available mem))
      | HEADERS \<Rightarrow> Inr (parse_headers p (take available mem))
      | BODY \<Rightarrow> Inr (parse_body p (take available mem))
      | CHUNKED_BODY \<Rightarrow> parse_chunked_body p mem available
      | DONE \<Rightarrow> Inr (0, p)
      | ERROR \<Rightarrow> Inr (0, p))"

type_synonym parse_result = "parse_fault + nat \<times> http_parser \<times> buffer"

fun parse_loop :: "nat \<Rightarrow> http_parser \<Rightarrow> buffer \<Rightarrow> nat \<Rightarrow> parse_result option" where
  "parse_loop 0 p b total_consumed = None"
| "parse_loop (Suc fuel) p b total_consumed =
     (if buf_size b = 0 then Some (Inr (total_consumed, p, b))
      else if state p \<in> {DONE, ERROR} then Some (Inr (total_consumed, p, b))
      else case parse_switch p (case peek_data b of Some mem \<Rightarrow> mem | None \<Rightarrow> []) (peek_size b) of
             Inl e \<Rightarrow> Some (Inl e)
           | Inr (consumed, p') \<Rightarrow>
               if consumed = 0 then Some (Inr (total_consumed, p', b))
               else parse_loop fuel p' (retrieve b consumed) (total_consumed + consumed))"

definition parse :: "http_parser \<Rightarrow> buffer \<Rightarrow> parse_result option" where
  "parse p b = parse_loop (Suc (buf_size b)) p b 0"

section \<open>Line ends\<close>

lemma find_crlf_first_occ: "find_crlf s = first_occ crlf s"
  by (induction s rule: find_crlf.induct) (auto simp: crlf_def prefix_def)

lemma find_crlf_Some:
  assumes "find_crlf s = Some n"
  shows "n + 2 \<le> length s" and "s = take n s @ CR # LF # drop (n + 2) s"
proof -
  obtain r where r: "drop n s = CR # LF # r"
    using assms by (auto simp: find_crlf_first_occ first_occ_Some crlf_def prefix_def)
  then have "length (drop n s) = Suc (Suc (length r))" by simp
  then show "n + 2 \<le> length s" by simp
  have "drop (n + 2) s = r"
    using r by (metis add.commute drop_drop drop_Suc_Cons drop0 numeral_2_eq_2)
  with r show "s = take n s @ CR # LF # drop (n + 2) s"
    by (metis append_take_drop_id)
qed

lemma find_crlf_line: "CR \<notin> set line \<Longrightarrow> find_crlf (line @ CR # LF # rest) = Some (length line)"
proof (induction line)
  case (Cons a line)
  then show ?case by (cases "line @ CR # LF # rest") auto
qed simp

lemma find_crlf_None_prefix: "find_crlf (a @ b) = None \<Longrightarrow> find_crlf a = None"
  by (simp add: find_crlf_first_occ first_occ_None) (metis prefix_prefix trans_le_add1)

section \<open>Consumption\<close>

lemma parse_request_line_consumes: "parse_request_line p v = (n, p') \<Longrightarrow> n \<le> length v"
  using find_crlf_Some(1) [of v]
  by (auto simp: parse_request_line_def Let_def split: option.splits)

lemma parse_headers_loop_consumes:
  "parse_headers_loop p s c = (n, p') \<Longrightarrow> c \<le> n \<and> n \<le> c + length s"
proof (induction p s c rule: parse_headers_loop.induct)
  case (1 p s c)
  show ?case
  proof (cases "s = [] \<or> 2 \<le> length s \<and> s ! 0 = CR \<and> s ! 1 = LF")
    case True
    with "1.prems" show ?thesis
      by (auto simp: parse_headers_loop.simps [of p s c] split: if_splits)
  next
    case False
    then show ?thesis
      using "1.prems" "1.IH" find_crlf_Some(1) [of s]
      by (fastforce simp: parse_headers_loop.simps [of p s c] split: option.splits if_splits)
  qed
qed

lemma parse_body_consumes: "parse_body p v = (n, p') \<Longrightarrow> n \<le> length v"
  by (auto simp: parse_body_def Let_def)

lemma parse_chunked_loop_consumes:
  "parse_chunked_loop p s r c = Inr (n, p') \<Longrightarrow> c \<le> n \<and> n \<le> c + r"
proof (induction p s r c rule: parse_chunked_loop.induct)
  case (1 p s r c)
  note eq = parse_chunked_loop.simps [of p s r c]
  show ?case
  proof (cases "r = 0")
    case True
    with "1.prems" show ?thesis by (simp add: parse_chunked_loop.simps [of p s 0 c])
  next
    case r: False
    show ?thesis
    proof (cases "reading_chunk_size p")
      case True
      then show ?thesis
        using "1.prems" "1.IH"(1) [OF r True] find_crlf_Some(1) [of "take r s"] r
        by (fastforce simp: eq split: option.splits if_splits)
    next
      case False
      show ?thesis
      proof (cases "r < unat (chunk_size p + 2)")
        case True
        with "1.prems" r False show ?thesis by (auto simp: eq Let_def)
      next
        case long: False
        with "1.prems" "1.IH"(2) [OF r False refl long] r False show ?thesis
          by (auto simp: eq Let_def split: if_splits)
      qed
    qed
  qed
qed

lemma parse_switch_consumes: "parse_switch p mem len = Inr (n, p') \<Longrightarrow> n \<le> len"
  by (auto simp: parse_switch_def parse_headers_def parse_chunked_body_def
      dest!: parse_request_line_consumes parse_headers_loop_consumes parse_body_consumes
        parse_chunked_loop_consumes split: parser_state.splits)

abbreviation peek_mem :: "buffer \<Rightarrow> string" where
  "peek_mem b \<equiv> (case peek_data b of Some mem \<Rightarrow> mem | None \<Rightarrow> [])"

lemma take_peek_mem: "take (peek_size b) (peek_mem b) = peek b"
  by (simp add: peek_def peek_data_def peek_size_def blk_view_def)

lemma parse_switch_in_view:
  "buf_ok b \<Longrightarrow> parse_switch p (peek_mem b) (peek_size b) = Inr (n, p') \<Longrightarrow> n \<le> length (peek b)"
  by (simp add: length_peek parse_switch_consumes)

lemma parse_loop_consumes:
  "buf_ok b \<Longrightarrow> parse_loop f p b t = Some (Inr (t', p', b')) \<Longrightarrow>
   buf_ok b' \<and> (\<exists>n \<le> length (content b). t' = t + n \<and> content b' = drop n (content b))"
proof (induction f arbitrary: p b t)
  case (Suc f)
  show ?case
  proof (cases "buf_size b = 0 \<or> state p \<in> {DONE, ERROR}")
    case True
    with Suc.prems show ?thesis by (auto intro: exI [of _ 0] split: if_splits)
  next
    case False
    then obtain n q where s: "parse_switch p (peek_mem b) (peek_size b) = Inr (n, q)"
      using Suc.prems(2) by (auto split: sum.splits)
    show ?thesis
    proof (cases "n = 0")
      case True
      with s False Suc.prems show ?thesis by (auto intro: exI [of _ 0])
    next
      case pos: False
      have n: "n \<le> length (content b)"
        using parse_switch_in_view [OF Suc.prems(1) s] peek_prefix [OF Suc.prems(1)]
        by (auto dest!: prefix_length_le)
      have "parse_loop f q (retrieve b n) (t + n) = Some (Inr (t', p', b'))"
        using Suc.prems(2) s False pos by simp
      from Suc.IH [OF retrieve_ok [OF Suc.prems(1)] this] obtain m where
        "buf_ok b'" "m \<le> length (content b) - n" "t' = t + n + m" "content b' = drop (m + n) (content b)"
        using Suc.prems(1) by (auto simp: content_retrieve)
      then show ?thesis
        using n by (auto simp: add.commute add.left_commute intro!: exI [of _ "n + m"])
    qed
  qed
qed simp

lemma parse_loop_returns: "buf_ok b \<Longrightarrow> buf_size b < f \<Longrightarrow> parse_loop f p b t \<noteq> None"
  and parse_loop_fuel: "buf_ok b \<Longrightarrow> buf_size b < f \<Longrightarrow> f \<le> f' \<Longrightarrow> parse_loop f' p b t = parse_loop f p b t"
proof -
  have "parse_loop f p b t \<noteq> None \<and> parse_loop f' p b t = parse_loop f p b t"
    if "buf_ok b" "buf_size b < f" "f \<le> f'" for f f'
    using that
  proof (induction f arbitrary: f' p b t)
    case (Suc f)
    then obtain g where g: "f' = Suc g" "f \<le> g" by (cases f') auto
    show ?case
    proof (cases "buf_size b = 0 \<or> state p \<in> {DONE, ERROR}")
      case True
      with g show ?thesis by auto
    next
      case active: False
      show ?thesis
      proof (cases "parse_switch p (peek_mem b) (peek_size b)")
        case (Inl e)
        with active g show ?thesis by simp
      next
        case (Inr r)
        obtain n q where r: "r = (n, q)" by fastforce
        show ?thesis
        proof (cases "n = 0")
          case True
          with active g Inr r show ?thesis by simp
        next
          case False
          have "buf_size (retrieve b n) < buf_size b"
            by (rule cq.skip_decreases) (use Suc.prems Inr r False parse_switch_in_view in auto)
          then have "buf_size (retrieve b n) < f" using Suc.prems by simp
          from Suc.IH [OF retrieve_ok [OF Suc.prems(1)] this g(2), of q "t + n"]
          show ?thesis using active g Inr r False by simp
        qed
      qed
    qed
  qed simp
  then show "buf_ok b \<Longrightarrow> buf_size b < f \<Longrightarrow> parse_loop f p b t \<noteq> None"
    and "buf_ok b \<Longrightarrow> buf_size b < f \<Longrightarrow> f \<le> f' \<Longrightarrow> parse_loop f' p b t = parse_loop f p b t"
    by blast+
qed

text \<open>The loop from any point, with just enough fuel: one law per way an iteration can end.\<close>

definition parse_from :: "http_parser \<Rightarrow> buffer \<Rightarrow> nat \<Rightarrow> parse_result option" where
  "parse_from p b t = parse_loop (Suc (buf_size b)) p b t"

lemma parse_from_step:
  assumes "buf_ok b" and "state p \<notin> {DONE, ERROR}" and "0 < n"
    and "parse_switch p (peek_mem b) (peek_size b) = Inr (n, q)"
  shows "parse_from p b t = parse_from q (retrieve b n) (t + n)"
proof -
  have n: "n \<le> length (peek b)"
    by (rule parse_switch_in_view [OF assms(1,4)])
  then have lt: "buf_size (retrieve b n) < buf_size b"
    by (intro cq.skip_decreases assms)
  then have "parse_from p b t = parse_loop (buf_size b) q (retrieve b n) (t + n)"
    using assms(2-4) by (simp add: parse_from_def)
  also have "\<dots> = parse_from q (retrieve b n) (t + n)"
    unfolding parse_from_def
    by (rule parse_loop_fuel) (use assms(1) lt in \<open>auto simp: retrieve_ok\<close>)
  finally show ?thesis .
qed

lemma parse_from_final [simp]: "state p \<in> {DONE, ERROR} \<Longrightarrow> parse_from p b t = Some (Inr (t, p, b))"
  by (simp add: parse_from_def)

lemma parse_from_empty [simp]: "buf_size b = 0 \<Longrightarrow> parse_from p b t = Some (Inr (t, p, b))"
  by (simp add: parse_from_def)

lemma parse_from_fault:
  "buf_size b \<noteq> 0 \<Longrightarrow> state p \<notin> {DONE, ERROR} \<Longrightarrow>
   parse_switch p (peek_mem b) (peek_size b) = Inl e \<Longrightarrow> parse_from p b t = Some (Inl e)"
  by (simp add: parse_from_def)

lemma parse_from_wait:
  "buf_size b \<noteq> 0 \<Longrightarrow> state p \<notin> {DONE, ERROR} \<Longrightarrow>
   parse_switch p (peek_mem b) (peek_size b) = Inr (0, q) \<Longrightarrow> parse_from p b t = Some (Inr (t, q, b))"
  by (simp add: parse_from_def)

section \<open>Printed requests\<close>

text \<open>What a client sends. These printers are the reference the parser is compared with.\<close>

definition request_line :: "string \<Rightarrow> string \<Rightarrow> string \<Rightarrow> string" where
  "request_line m target v = m @ '' '' @ target @ '' '' @ v @ crlf"

definition header_line :: "string \<times> string \<Rightarrow> string" where
  "header_line kv = fst kv @ '': '' @ snd kv @ crlf"

definition header_block :: "(string \<times> string) list \<Rightarrow> string" where
  "header_block hs = concat (map header_line hs) @ crlf"

definition print_head :: "string \<Rightarrow> string \<Rightarrow> string \<Rightarrow> (string \<times> string) list \<Rightarrow> string" where
  "print_head m target v hs = request_line m target v @ header_block hs"

definition line_ok :: "string \<Rightarrow> string \<Rightarrow> string \<Rightarrow> bool" where
  "line_ok m target v \<longleftrightarrow>
     CR \<notin> set m \<and> CR \<notin> set target \<and> CR \<notin> set v \<and> CHR '' '' \<notin> set m \<and> CHR '' '' \<notin> set target"

definition header_ok :: "string \<times> string \<Rightarrow> bool" where
  "header_ok kv \<longleftrightarrow>
     CHR '':'' \<notin> set (fst kv) \<and> CR \<notin> set (fst kv) \<and> CR \<notin> set (snd kv) \<and>
     (snd kv = [] \<or> hd (snd kv) \<noteq> CHR '' '')"

definition with_headers :: "(string \<times> string) list \<Rightarrow> http_request \<Rightarrow> http_request" where
  "with_headers hs r = foldl (\<lambda>r kv. add_header (fst kv) (snd kv) r) r hs"

definition with_line :: "string \<Rightarrow> string \<Rightarrow> string \<Rightarrow> http_parser \<Rightarrow> http_parser" where
  "with_line m target v p =
     p\<lparr>request := set_version v (set_path target (set_method (method_from_str m) (request p))),
       state := HEADERS\<rparr>"

lemma parse_request_line_print:
  assumes "line_ok m target v"
  shows "parse_request_line p (request_line m target v @ rest) =
    (length (request_line m target v), with_line m target v p)"
proof -
  let ?line = "m @ CHR '' '' # target @ CHR '' '' # v"
  have view: "request_line m target v @ rest = ?line @ CR # LF # rest"
    by (simp add: request_line_def crlf_def)
  have len: "find_crlf (?line @ CR # LF # rest) = Some (length ?line)"
    by (rule find_crlf_line) (use assms in \<open>auto simp: line_ok_def\<close>)
  have sp1: "str_find CHR '' '' ?line = Some (length m)"
    by (rule str_find_append) (use assms in \<open>simp add: line_ok_def\<close>)
  have "str_find CHR '' '' (target @ CHR '' '' # v) = Some (length target)"
    by (rule str_find_append) (use assms in \<open>simp add: line_ok_def\<close>)
  then have sp2: "str_find_from CHR '' '' (length m + 1) ?line = Some (length m + 1 + length target)"
    by (simp add: str_find_from_def)
  show ?thesis
    unfolding view parse_request_line_def len option.case
    by (simp add: sp1 sp2 [simplified] Let_def substr_def with_line_def request_line_def crlf_def)
qed

lemma parse_header_line_print:
  assumes "header_ok kv"
  shows "parse_header_line p (fst kv @ '': '' @ snd kv) =
    p\<lparr>request := add_header (fst kv) (snd kv) (request p)\<rparr>"
proof -
  have "dropWhile (\<lambda>c. c = CHR '' '') (snd kv) = snd kv"
    using assms by (cases "snd kv") (auto simp: header_ok_def)
  then show ?thesis
    using assms by (simp add: parse_header_line_def header_ok_def substr_def)
qed

lemma parse_headers_loop_line:
  assumes "CR \<notin> set line" and "line \<noteq> []"
  shows "parse_headers_loop p (line @ CR # LF # rest) c =
    parse_headers_loop (parse_header_line p line) rest (c + length line + 2)"
proof -
  have "(line @ CR # LF # rest) ! 0 \<noteq> CR"
    using assms by (cases line) auto
  then show ?thesis
    using assms(2) by (simp add: parse_headers_loop.simps [of p "line @ CR # LF # rest" c]
        find_crlf_line [OF assms(1)])
qed

lemma parse_headers_loop_print:
  "\<forall>kv \<in> set hs. header_ok kv \<Longrightarrow>
   parse_headers_loop p (header_block hs @ rest) c =
   (c + length (header_block hs), headers_done (p\<lparr>request := with_headers hs (request p)\<rparr>))"
proof (induction hs arbitrary: p c)
  case Nil
  then show ?case
    by (simp add: header_block_def with_headers_def crlf_def parse_headers_loop.simps)
next
  case (Cons kv hs)
  let ?line = "fst kv @ '': '' @ snd kv" and ?rest = "header_block hs @ rest"
  have s: "header_block (kv # hs) @ rest = ?line @ CR # LF # ?rest"
    by (simp add: header_block_def header_line_def crlf_def)
  have line: "CR \<notin> set ?line"
    using Cons.prems by (auto simp: header_ok_def)
  have "parse_headers_loop p (?line @ CR # LF # ?rest) c =
      parse_headers_loop (parse_header_line p ?line) ?rest (c + length ?line + 2)"
    by (rule parse_headers_loop_line [OF line]) simp
  also have "\<dots> = (c + length (header_block (kv # hs)),
      headers_done (p\<lparr>request := with_headers (kv # hs) (request p)\<rparr>))"
    using Cons by (simp only: parse_header_line_print list.set_intros)
      (simp add: with_headers_def header_block_def header_line_def crlf_def)
  finally show ?case by (simp only: s)
qed

lemma headers_with_headers: "headers (with_headers hs r) = headers r ++ map_of (rev hs)"
proof (induction hs arbitrary: r)
  case (Cons kv hs)
  have "with_headers (kv # hs) r = with_headers hs (add_header (fst kv) (snd kv) r)"
    by (simp add: with_headers_def)
  with Cons show ?case
    by (simp add: add_header_def map_add_upd_left map_add_def fun_eq_iff split: option.splits)
qed (simp add: with_headers_def)

lemma with_headers_frame [parser_frame]:
  "req_method (with_headers hs r) = req_method r" "path (with_headers hs r) = path r"
  "query (with_headers hs r) = query r"
  "version (with_headers hs r) = version r" "body (with_headers hs r) = body r"
  "keep_alive (with_headers hs r) = keep_alive r"
  by (induction hs arbitrary: r) (simp_all add: with_headers_def add_header_def)

lemma headers_done_frame [parser_frame]:
  "request (headers_done p) = request p" "temp_body (headers_done p) = temp_body p"
  "body_read (headers_done p) = body_read p" "reading_chunk_size (headers_done p) = reading_chunk_size p"
  by (simp_all add: headers_done_def Let_def)

text \<open>A printed head in view is consumed in two iterations.\<close>

lemma parse_from_head:
  assumes "buf_ok b" and "line_ok m target v" and "\<forall>kv \<in> set hs. header_ok kv"
    and "prefix (print_head m target v hs @ rest) (peek b)" and "state p = START"
  obtains b' where "buf_ok b'" and "content b' = drop (length (print_head m target v hs)) (content b)"
    and "prefix rest (peek b')" and "content b' \<noteq> [] \<Longrightarrow> peek b' \<noteq> []"
    and "parse_from p b t = parse_from
      (headers_done ((with_line m target v p)\<lparr>request := with_headers hs (request (with_line m target v p))\<rparr>))
      b' (t + length (print_head m target v hs))"
proof -
  let ?n = "length (request_line m target v)" and ?k = "length (header_block hs)"
  let ?p = "with_line m target v p" and ?b = "retrieve b (length (request_line m target v))"
  obtain r1 where v1: "peek b = request_line m target v @ header_block hs @ rest @ r1"
    using assms(4) by (auto simp: prefix_def print_head_def)
  have k: "0 < ?k" by (simp add: header_block_def crlf_def)
  have s1: "parse_switch p (peek_mem b) (peek_size b) = Inr (?n, ?p)"
    using assms(5) parse_request_line_print [OF assms(2)] by (simp add: parse_switch_def take_peek_mem v1)
  have "prefix (drop ?n (peek b)) (peek ?b)"
    by (rule cq.view_keeps [OF assms(1)]) (simp add: v1)
  then obtain r2 where v2: "peek ?b = header_block hs @ rest @ r2"
    by (auto simp: v1 prefix_def)
  have ok: "buf_ok ?b" and c: "content ?b = drop ?n (content b)"
    using assms(1) by (simp_all add: retrieve_ok content_retrieve)
  have s2: "parse_switch ?p (peek_mem ?b) (peek_size ?b) =
      Inr (?k, headers_done (?p\<lparr>request := with_headers hs (request ?p)\<rparr>))"
    using parse_headers_loop_print [OF assms(3), of ?p "rest @ r2" 0]
    by (simp add: parse_switch_def take_peek_mem v2 parse_headers_def with_line_def)
  have "prefix (drop ?k (peek ?b)) (peek (retrieve ?b ?k))"
    by (rule cq.view_keeps [OF ok]) (simp add: v2)
  then have v3: "prefix rest (peek (retrieve ?b ?k))"
    by (auto simp: v2 prefix_def)
  have "parse_from p b t = parse_from ?p ?b (t + ?n)"
    by (rule parse_from_step [OF assms(1) _ _ s1]) (simp_all add: assms(5) request_line_def)
  also have "\<dots> = parse_from (headers_done (?p\<lparr>request := with_headers hs (request ?p)\<rparr>))
      (retrieve ?b ?k) (t + ?n + ?k)"
    by (rule parse_from_step [OF ok _ _ s2]) (simp_all add: with_line_def header_block_def crlf_def)
  finally show thesis
    by (intro that [of "retrieve ?b ?k"] peek_retrieve_nonempty ok k)
      (use ok v3 c in \<open>simp_all add: retrieve_ok content_retrieve print_head_def ac_simps\<close>)
qed

text \<open>A fixed-length body is collected block by block, wherever it lies in the buffer.\<close>

definition body_done :: "http_parser \<Rightarrow> string \<Rightarrow> http_parser" where
  "body_done p d = p\<lparr>temp_body := temp_body p @ d, body_read := content_length p,
     request := set_body (temp_body p @ d) (request p), state := DONE\<rparr>"

lemma body_done_split:
  "body_done (p\<lparr>temp_body := temp_body p @ w, body_read := n\<rparr>) d = body_done p (w @ d)"
  by (simp add: body_done_def)

lemma parse_body_all:
  assumes "unat (content_length p) = unat (body_read p) + length d"
  shows "parse_body p (d @ rest) = (length d, body_done p d)"
proof -
  have need: "unat (content_length p - body_read p) = length d"
    using assms by (simp add: unat_sub word_le_nat_alt)
  have "body_read p + of_nat (length d) = content_length p"
    using arg_cong [OF assms, of "of_nat :: nat \<Rightarrow> size_t"] by simp
  then show ?thesis
    by (simp add: parse_body_def Let_def need body_done_def)
qed

lemma parse_body_piece:
  assumes "unat (content_length p) = unat (body_read p) + (length w + length d)" and "d \<noteq> []"
  shows "parse_body p w = (length w,
    p\<lparr>temp_body := temp_body p @ w, body_read := body_read p + of_nat (length w)\<rparr>)"
    and "unat (body_read p + of_nat (length w)) = unat (body_read p) + length w"
proof -
  have need: "unat (content_length p - body_read p) = length w + length d"
    using assms by (simp add: unat_sub word_le_nat_alt)
  have "unat (content_length p) < 2 ^ LENGTH(64)" by (rule unsigned_less)
  then have lt: "unat (body_read p) + length w < 2 ^ 64"
    using assms by simp
  then show r: "unat (body_read p + of_nat (length w)) = unat (body_read p) + length w"
    by (simp add: unat_word_ariths unat_of_nat)
  have "\<not> content_length p \<le> body_read p + of_nat (length w)"
    using assms r by (simp add: word_le_nat_alt)
  then show "parse_body p w = (length w,
    p\<lparr>temp_body := temp_body p @ w, body_read := body_read p + of_nat (length w)\<rparr>)"
    by (simp add: parse_body_def Let_def need)
qed

lemma parse_from_body:
  "buf_ok b \<Longrightarrow> state p = BODY \<Longrightarrow> d \<noteq> [] \<Longrightarrow> content b = d @ rest \<Longrightarrow> peek b \<noteq> [] \<Longrightarrow>
   unat (content_length p) = unat (body_read p) + length d \<Longrightarrow>
   \<exists>b'. parse_from p b t = Some (Inr (t + length d, body_done p d, b')) \<and> buf_ok b' \<and> content b' = rest"
proof (induction "length d" arbitrary: b p d t rule: less_induct)
  case less
  note ok = less.prems(1)
  obtain tl where tl: "d @ rest = peek b @ tl"
    using peek_prefix [OF ok] less.prems(4) by (auto simp: prefix_def)
  show ?case
  proof (cases "length d \<le> length (peek b)")
    case True
    then obtain w where w: "peek b = d @ w"
      using tl by (metis append_eq_append_conv_if append_take_drop_id)
    have "parse_switch p (peek_mem b) (peek_size b) = Inr (length d, body_done p d)"
      using parse_body_all [OF less.prems(6), of w] less.prems(2)
      by (simp add: parse_switch_def take_peek_mem w)
    from parse_from_step [OF ok _ _ this, of t] have
      "parse_from p b t = Some (Inr (t + length d, body_done p d, retrieve b (length d)))"
      using less.prems by (simp add: body_done_def)
    then show ?thesis
      using ok less.prems(4) by (auto simp: retrieve_ok content_retrieve)
  next
    case False
    then have "d = peek b @ drop (length (peek b)) d"
      using tl by (metis append_eq_append_conv_if append_take_drop_id nat_le_linear)
    then obtain e where d: "d = peek b @ e" by blast
    with False have e: "e \<noteq> []" by (metis append_Nil2 order_refl)
    let ?w = "peek b"
    let ?q = "p\<lparr>temp_body := temp_body p @ ?w, body_read := body_read p + of_nat (length ?w)\<rparr>"
    have u: "unat (content_length p) = unat (body_read p) + (length ?w + length e)"
      using less.prems(6) unfolding d by simp
    have "parse_switch p (peek_mem b) (peek_size b) = Inr (length ?w, ?q)"
      using parse_body_piece(1) [OF u e] less.prems(2) by (simp add: parse_switch_def take_peek_mem)
    from parse_from_step [OF ok _ _ this, of t] have
      step: "parse_from p b t = parse_from ?q (retrieve b (length ?w)) (t + length ?w)"
      using less.prems by simp
    have c: "content (retrieve b (length ?w)) = e @ rest"
      using ok less.prems(4) d by (simp add: content_retrieve)
    have "\<exists>b'. parse_from ?q (retrieve b (length ?w)) (t + length ?w) =
        Some (Inr (t + length ?w + length e, body_done ?q e, b')) \<and> buf_ok b' \<and> content b' = rest"
    proof (rule less.hyps [OF _ retrieve_ok [OF ok] _ e c])
      show "length e < length d" using less.prems(5) by (simp add: d)
      show "peek (retrieve b (length ?w)) \<noteq> []"
        by (rule peek_retrieve_nonempty [OF ok]) (use less.prems(5) e c in simp_all)
    qed (use less.prems(2) u parse_body_piece(2) [OF u e] in simp_all)
    then show ?thesis
      unfolding step using d by (simp add: body_done_split ac_simps) 
  qed
qed

text \<open>Chunks: a line of hexadecimal digits, that many bytes, a line end.\<close>

definition print_chunk :: "string \<times> string \<Rightarrow> string" where
  "print_chunk ld = fst ld @ crlf @ snd ld @ crlf"

definition chunk_ok :: "string \<times> string \<Rightarrow> bool" where
  "chunk_ok ld \<longleftrightarrow> fst ld \<noteq> [] \<and> (\<forall>c \<in> set (fst ld). is_digit 16 c) \<and>
     digits_value 16 (fst ld) = length (snd ld) \<and> snd ld \<noteq> []"

lemma hex_no_cr: "\<forall>c \<in> set l. is_digit 16 c \<Longrightarrow> CR \<notin> set l"
  using hex_not_special(6) by blast

lemma parse_chunked_size_line:
  assumes "reading_chunk_size p" and "l \<noteq> []" and "\<forall>c \<in> set l. is_digit 16 c"
    and "digits_value 16 l < 2 ^ 64" and "digits_value 16 l \<noteq> 0"
  shows "parse_chunked_loop p (l @ CR # LF # w @ mem) (length l + 2 + length w) c =
    parse_chunked_loop (p\<lparr>chunk_size := of_nat (digits_value 16 l), reading_chunk_size := False\<rparr>)
      (w @ mem) (length w) (c + length l + 2)"
proof -
  have "of_nat (digits_value 16 l) \<noteq> (0 :: size_t)"
    using assms(4,5) by (simp add: word_unat_eq_iff unat_of_nat)
  moreover have "find_crlf (take (length l + 2 + length w) (l @ CR # LF # w @ mem)) = Some (length l)"
    using find_crlf_line [OF hex_no_cr [OF assms(3)], of w] by simp
  ultimately show ?thesis
    using assms(1) strtoul_mem_hex [OF assms(2-4)]
    by (subst parse_chunked_loop.simps) simp
qed

lemma parse_chunked_data:
  assumes "\<not> reading_chunk_size p" and "chunk_size p = of_nat (length d)"
    and "length (temp_body p) + length d \<le> string_max_size"
  shows "parse_chunked_loop p (d @ CR # LF # w @ mem) (length d + 2 + length w) c =
    parse_chunked_loop (p\<lparr>temp_body := temp_body p @ d, reading_chunk_size := True\<rparr>)
      (w @ mem) (length w) (c + length d + 2)"
proof -
  have "length d < 2 ^ 64"
    using assms(3) by (simp add: string_max_size_def)
  then have u: "unat (chunk_size p) = length d"
    using assms(2) by (simp add: unat_of_nat)
  then have "unat (chunk_size p + 2) = length d + 2"
    using assms(3) by (simp add: unat_chunk_plus_2)
  then show ?thesis
    using assms(1,3) u by (subst parse_chunked_loop.simps) (simp add: Let_def, arith)
qed

lemma parse_chunked_loop_print:
  "\<forall>ld \<in> set cs. chunk_ok ld \<Longrightarrow> reading_chunk_size p \<Longrightarrow>
   length (temp_body p) + length (concat (map snd cs)) \<le> string_max_size \<Longrightarrow>
   \<exists>q. reading_chunk_size q \<and> temp_body q = temp_body p @ concat (map snd cs) \<and> request q = request p \<and>
     parse_chunked_loop p (concat (map print_chunk cs) @ w @ mem) (length (concat (map print_chunk cs)) + length w) c =
     parse_chunked_loop q (w @ mem) (length w) (c + length (concat (map print_chunk cs)))"
proof (induction cs arbitrary: p c)
  case Nil
  then show ?case by auto
next
  case (Cons ld cs)
  obtain l d where ld: "ld = (l, d)" by fastforce
  let ?w = "concat (map print_chunk cs) @ w"
  let ?p1 = "p\<lparr>chunk_size := of_nat (digits_value 16 l), reading_chunk_size := False\<rparr>"
  let ?p2 = "?p1\<lparr>temp_body := temp_body ?p1 @ d, reading_chunk_size := True\<rparr>"
  have l: "l \<noteq> []" "\<forall>c \<in> set l. is_digit 16 c" "digits_value 16 l = length d" "d \<noteq> []"
    and len: "length (temp_body p) + length d \<le> string_max_size"
    using Cons.prems by (auto simp: chunk_ok_def ld)
  have "parse_chunked_loop p (l @ CR # LF # (d @ CR # LF # ?w) @ mem) (length l + 2 + length (d @ CR # LF # ?w)) c =
      parse_chunked_loop ?p1 ((d @ CR # LF # ?w) @ mem) (length (d @ CR # LF # ?w)) (c + length l + 2)"
    by (rule parse_chunked_size_line) (use Cons.prems l len in \<open>auto simp: string_max_size_def\<close>)
  also have "\<dots> = parse_chunked_loop ?p2 (?w @ mem) (length ?w) (c + length l + 2 + length d + 2)"
    using parse_chunked_data [of ?p1 d ?w mem "c + length l + 2"] l len by simp
  finally have step: "parse_chunked_loop p (concat (map print_chunk (ld # cs)) @ w @ mem)
      (length (concat (map print_chunk (ld # cs))) + length w) c =
      parse_chunked_loop ?p2 (?w @ mem) (length ?w) (c + length (print_chunk ld))"
    by (simp add: ld print_chunk_def crlf_def ac_simps)
  have "\<exists>q. reading_chunk_size q \<and> temp_body q = temp_body ?p2 @ concat (map snd cs) \<and> request q = request ?p2 \<and>
     parse_chunked_loop ?p2 (concat (map print_chunk cs) @ w @ mem) (length (concat (map print_chunk cs)) + length w)
       (c + length (print_chunk ld)) =
     parse_chunked_loop q (w @ mem) (length w) (c + length (print_chunk ld) + length (concat (map print_chunk cs)))"
    by (rule Cons.IH) (use Cons.prems in \<open>auto simp: ld\<close>)
  then show ?case
    unfolding step by (auto simp: ld ac_simps)
qed

lemma peek_mem_split: "peek_mem b = peek b @ drop (peek_size b) (peek_mem b)"
  using take_peek_mem [of b] by (metis append_take_drop_id)

text \<open>A complete chunked body in view, up to the size line of the last chunk.\<close>

definition last_chunk :: string where
  "last_chunk = ''0'' @ crlf"

lemma parse_chunked_last:
  assumes "reading_chunk_size p"
  shows "parse_chunked_loop p (last_chunk @ w @ mem) (length (last_chunk @ w)) c =
    Inr (c + length last_chunk,
      p\<lparr>chunk_size := 0, state := DONE, request := set_body (temp_body p) (request p)\<rparr>)"
proof -
  have "find_crlf (''0'' @ CR # LF # w) = Some (length ''0'')"
    by (rule find_crlf_line) simp
  moreover have "strtoul_mem 16 (''0'' @ CR # LF # w @ mem) = Some 0"
    using strtoul_mem_hex [of "''0''"] by (simp add: is_digit_16_iff digits_value_def digit_val_def)
  ultimately show ?thesis
    using assms by (subst parse_chunked_loop.simps) (simp add: last_chunk_def crlf_def)
qed

lemma parse_switch_chunks:
  assumes "buf_ok b" and "state p = CHUNKED_BODY" and "reading_chunk_size p" and "\<forall>ld \<in> set cs. chunk_ok ld"
    and "length (temp_body p) + length (concat (map snd cs)) \<le> string_max_size"
    and "peek b = concat (map print_chunk cs) @ last_chunk @ w"
  obtains q where "state q = DONE"
    and "request q = set_body (temp_body p @ concat (map snd cs)) (request p)"
    and "parse_switch p (peek_mem b) (peek_size b) = Inr (length (concat (map print_chunk cs) @ last_chunk), q)"
proof -
  let ?cs = "concat (map print_chunk cs)"
  obtain mem where mem: "peek_mem b = ?cs @ (last_chunk @ w) @ mem"
    using peek_mem_split [of b] assms(6) by auto
  have size: "peek_size b = length ?cs + length (last_chunk @ w)"
    using length_peek [OF assms(1)] assms(6) by simp
  obtain q where q: "reading_chunk_size q" "temp_body q = temp_body p @ concat (map snd cs)"
    "request q = request p"
    "parse_chunked_loop p (?cs @ (last_chunk @ w) @ mem) (length ?cs + length (last_chunk @ w)) 0 =
     parse_chunked_loop q ((last_chunk @ w) @ mem) (length (last_chunk @ w)) (0 + length ?cs)"
    using parse_chunked_loop_print [OF assms(4,3,5)] by blast
  have "parse_switch p (peek_mem b) (peek_size b) =
      parse_chunked_loop p (?cs @ (last_chunk @ w) @ mem) (length ?cs + length (last_chunk @ w)) 0"
    using assms(2) unfolding parse_switch_def parse_chunked_body_def mem size by simp
  then show thesis
    using q parse_chunked_last [OF q(1), of w mem "length ?cs"]
    by (intro that [of "q\<lparr>chunk_size := 0, state := DONE, request := set_body (temp_body q) (request q)\<rparr>"]) simp_all
qed

abbreviation after_head :: "string \<Rightarrow> string \<Rightarrow> string \<Rightarrow> (string \<times> string) list \<Rightarrow> http_parser" where
  "after_head m target v hs \<equiv>
     (with_line m target v HttpParser_reset)\<lparr>request := with_headers hs (request (with_line m target v HttpParser_reset))\<rparr>"

lemma request_of_head:
  "request (after_head m target v hs) =
   \<lparr>req_method = method_from_str m, path = target, query = [], version = v,
    headers = map_of (rev hs), body = [], keep_alive = True\<rparr>"
  by (intro http_request.equality)
    (simp_all add: headers_with_headers with_headers_frame with_line_def HttpParser_reset_def HttpRequest_new_def
      set_version_def set_path_def set_method_def)

lemma headers_done_chunked:
  assumes "map_of (rev hs) ''Transfer-Encoding'' = Some ''chunked''"
  shows "headers_done (after_head m target v hs) = (after_head m target v hs)\<lparr>chunked := True, state := CHUNKED_BODY\<rparr>"
proof -
  have "headers (request (after_head m target v hs)) = map_of (rev hs)"
    unfolding request_of_head by simp
  moreover have "str_contains ''chunked'' ''chunked''" by (simp add: str_contains_def)
  ultimately show ?thesis
    using assms by (simp add: headers_done_def header_def)
qed

lemma parse_eq_from: "parse p b = parse_from p b 0"
  by (simp add: parse_def parse_from_def)

lemma peek_append_new:
  assumes "length junk = kBlockSize" and "length s \<le> kBlockSize"
  shows "peek (append (Buffer_new junk) s) = s" and "buf_ok (append (Buffer_new junk) s)"
    and "content (append (Buffer_new junk) s) = s"
proof -
  show "buf_ok (append (Buffer_new junk) s)" "content (append (Buffer_new junk) s) = s"
    using assms by (simp_all add: append_ok Buffer_new_ok content_append content_Buffer_new)
  show "peek (append (Buffer_new junk) s) = s"
  proof (cases "s = []")
    case True
    then show ?thesis by (simp add: append_def Buffer_new_def peek_def)
  next
    case False
    then show ?thesis
      using assms by (subst append_fits [OF False])
        (simp_all add: Buffer_new_def block_reset_def writable_def peek_def blk_view_def readable_def
          blk_commit_def blk_poke_def)
  qed
qed

lemma parse_chunked_head:
  assumes "buf_ok b" and "line_ok m target v" and "\<forall>kv \<in> set hs. header_ok kv" and "\<forall>ld \<in> set cs. chunk_ok ld"
    and "peek b = print_head m target v hs @ concat (map print_chunk cs) @ last_chunk @ rest"
    and "map_of (rev hs) ''Transfer-Encoding'' = Some ''chunked''"
    and "length (concat (map snd cs)) \<le> string_max_size"
  shows "\<exists>p' b'. parse HttpParser_reset b =
      Some (Inr (length (print_head m target v hs @ concat (map print_chunk cs) @ last_chunk), p', b')) \<and>
    is_done p' \<and> request p' =
      \<lparr>req_method = method_from_str m, path = target, query = [], version = v, headers = map_of (rev hs),
       body = concat (map snd cs), keep_alive = True\<rparr> \<and>
    buf_ok b' \<and> prefix rest (peek b')"
proof -
  let ?q = "after_head m target v hs"
  let ?h = "print_head m target v hs" and ?cs = "concat (map print_chunk cs) @ last_chunk"
  obtain b1 where b1: "buf_ok b1" "prefix (?cs @ rest) (peek b1)"
    and head: "parse HttpParser_reset b = parse_from (headers_done ?q) b1 (length ?h)"
    using parse_from_head [OF assms(1-3), of "?cs @ rest" HttpParser_reset 0] assms(5)
    by (auto simp: HttpParser_reset_def parse_eq_from)
  from b1(2) obtain w where w: "peek b1 = concat (map print_chunk cs) @ last_chunk @ rest @ w"
    by (auto simp: prefix_def)
  have req: "request ?q = \<lparr>req_method = method_from_str m, path = target, query = [], version = v,
      headers = map_of (rev hs), body = [], keep_alive = True\<rparr>"
    by (rule request_of_head)
  note q = headers_done_chunked [OF assms(6), of m target v]
  obtain r where r: "state r = DONE" "request r = set_body (concat (map snd cs)) (request ?q)"
    "parse_switch (headers_done ?q) (peek_mem b1) (peek_size b1) = Inr (length ?cs, r)"
    using parse_switch_chunks [OF b1(1) _ _ assms(4) _ w, of "headers_done ?q"] assms(7)
    unfolding q by (auto simp: with_line_def HttpParser_reset_def)
  have "parse HttpParser_reset b = Some (Inr (length ?h + length ?cs, r, retrieve b1 (length ?cs)))"
    unfolding head using r(1) parse_from_step [OF b1(1) _ _ r(3), of "length ?h"]
    by (simp add: q last_chunk_def)
  moreover have "prefix (drop (length ?cs) (peek b1)) (peek (retrieve b1 (length ?cs)))"
    by (rule cq.view_keeps [OF b1(1)]) (simp add: w)
  ultimately show ?thesis
    using r req b1(1) by (auto simp: is_done_def set_body_def retrieve_ok w prefix_def)
qed

text \<open>A block that is full and not yet consumed stays in view, alone, whatever is received.\<close>

definition head_full :: "buffer \<Rightarrow> bool" where
  "head_full b \<longleftrightarrow> read_block b \<le> write_block b \<and> write_block b < length (blocks b) \<and> writable (rblk b) = 0"

lemma recv_into_head_full:
  assumes "head_full b"
  shows "head_full (recv_into b t)" and "rblk (recv_into b t) = rblk b"
    and "buf_size b \<le> buf_size (recv_into b t)"
proof -
  let ?c = "snd (begin_write b)"
  have c: "read_block ?c < write_block ?c" "write_block ?c < length (blocks ?c)"
    "rblk ?c = rblk b" "buf_size ?c = buf_size b"
    using assms
    by (cases "read_block b = write_block b";
      auto simp: head_full_def begin_write_def advance_write_def Let_def nth_append)+
  then show "rblk (recv_into b t) = rblk b"
    by (simp add: recv_into_def poke_def has_written_def Let_def)
  then show "head_full (recv_into b t)"
    using c assms by (simp add: head_full_def recv_into_def poke_def has_written_def Let_def)
  show "buf_size b \<le> buf_size (recv_into b t)"
    using c by (simp add: recv_into_def poke_def has_written_def Let_def)
qed

lemma recv_all_head_full:
  "head_full b \<Longrightarrow> head_full (foldl recv_into b ts) \<and> rblk (foldl recv_into b ts) = rblk b \<and>
   buf_size b \<le> buf_size (foldl recv_into b ts)"
proof (induction ts arbitrary: b)
  case (Cons t ts)
  with recv_into_head_full [OF Cons.prems, of t] show ?case by (metis foldl_Cons le_trans)
qed simp

lemma parse_no_line:
  assumes "buf_size b \<noteq> 0" and "state p \<in> {START, REQUEST_LINE, HEADERS}" and "find_crlf (peek b) = None"
  shows "parse p b = Some (Inr (0, p, b))"
proof -
  have "\<not> (2 \<le> length (peek b) \<and> peek b ! 0 = CR \<and> peek b ! 1 = LF)"
    using assms(3) by (cases "peek b" rule: find_crlf.cases) auto
  then have "parse_headers_loop p (peek b) 0 = (0, p)"
    unfolding parse_headers_loop.simps [of p "peek b" 0] assms(3) by auto
  moreover have "parse_request_line p (peek b) = (0, p)"
    using assms(3) by (simp add: parse_request_line_def)
  ultimately have "parse_switch p (peek_mem b) (peek_size b) = Inr (0, p)"
    using assms(2) by (auto simp: parse_switch_def take_peek_mem parse_headers_def)
  then show ?thesis
    using assms(1,2) by (auto simp: parse_eq_from intro!: parse_from_wait)
qed

section \<open>Properties\<close>

text \<open>C8. \<open>parse\<close> ends for every parser state and every well-formed buffer: it returns, or it throws or reads out of bounds.
  When it returns, the bytes it reports as consumed are exactly those that have left the front of the buffer, and
  the buffer keeps its invariant; nothing is claimed of the buffer when it throws.\<close>

theorem parse_consumption:
  assumes "buf_ok b"
  shows "case parse p b of
       None \<Rightarrow> False
     | Some (Inl e) \<Rightarrow> True
     | Some (Inr (n, p', b')) \<Rightarrow> n \<le> length (content b) \<and> buf_ok b' \<and> content b' = drop n (content b)"
  using parse_loop_returns [OF assms, of "Suc (buf_size b)" p 0]
    parse_loop_consumes [OF assms, of "Suc (buf_size b)" p 0]
  by (auto simp: parse_def simp del: parse_loop.simps split: option.splits sum.splits)

theorem parse_consumption_witness:
  "case parse HttpParser_reset (append (Buffer_new (replicate kBlockSize NUL)) ''GET / '') of
     None \<Rightarrow> False | Some (Inl e) \<Rightarrow> True | Some (Inr (n, p', b')) \<Rightarrow> content b' = drop n ''GET / ''"
proof -
  let ?b = "append (Buffer_new (replicate kBlockSize NUL)) ''GET / ''"
  have b: "buf_ok ?b" "content ?b = ''GET / ''"
    using peek_append_new [of "replicate kBlockSize NUL" "''GET / ''"] by (simp_all add: kBlockSize_def)
  from parse_consumption [OF b(1), of HttpParser_reset] show ?thesis
    by (simp add: b(2) split: option.splits sum.splits prod.splits)
qed

lemma parse_fixed_head:
  assumes "buf_ok b" and "line_ok m target v" and "\<forall>kv \<in> set hs. header_ok kv"
    and "prefix (print_head m target v hs) (peek b)"
    and "content b = print_head m target v hs @ bd @ rest"
    and "map_of (rev hs) ''Transfer-Encoding'' = None"
    and "map_of (rev hs) ''Content-Length'' = (if bd = [] then None else Some (dec_string (length bd)))"
    and "length bd < 2 ^ 64"
  shows "\<exists>p' b'. parse HttpParser_reset b = Some (Inr (length (print_head m target v hs @ bd), p', b')) \<and>
    is_done p' \<and> request p' =
      \<lparr>req_method = method_from_str m, path = target, query = [], version = v, headers = map_of (rev hs),
       body = bd, keep_alive = True\<rparr> \<and>
    buf_ok b' \<and> content b' = rest"
proof -
  let ?h = "print_head m target v hs"
  let ?q = "after_head m target v hs"
  obtain b1 where b1: "buf_ok b1" "content b1 = bd @ rest" "content b1 \<noteq> [] \<Longrightarrow> peek b1 \<noteq> []"
    and head: "parse HttpParser_reset b = parse_from (headers_done ?q) b1 (length ?h)"
    using parse_from_head [OF assms(1-3), of "[]" HttpParser_reset 0] assms(4,5)
    by (auto simp: HttpParser_reset_def parse_eq_from)
  have req: "request ?q = \<lparr>req_method = method_from_str m, path = target, query = [], version = v,
      headers = map_of (rev hs), body = [], keep_alive = True\<rparr>"
    by (rule request_of_head)
  then have hdr: "headers (request ?q) = map_of (rev hs)" by simp
  show ?thesis
  proof (cases "bd = []")
    case True
    then have "headers_done ?q = ?q\<lparr>state := DONE\<rparr>"
      using assms(6,7) hdr by (simp add: headers_done_def header_def str_contains_def)
    then show ?thesis
      using True b1 req by (simp add: head is_done_def)
  next
    case False
    then have q: "headers_done ?q = ?q\<lparr>content_length := of_nat (length bd), state := BODY\<rparr>"
      using assms(6-8) hdr
      by (simp add: headers_done_def header_def str_contains_def strtoul_dec_string Let_def)
    have "unat (content_length (headers_done ?q)) = unat (body_read (headers_done ?q)) + length bd"
      unfolding q using assms(8) by (simp add: unat_of_nat with_line_def HttpParser_reset_def)
    from parse_from_body [OF b1(1) _ False b1(2) _ this] obtain b' where
      "parse HttpParser_reset b = Some (Inr (length ?h + length bd, body_done (headers_done ?q) bd, b'))"
      "buf_ok b'" "content b' = rest"
      using b1 False by (auto simp: head q)
    moreover have "temp_body ?q = []"
      by (simp add: with_line_def HttpParser_reset_def)
    ultimately show ?thesis
      using req by (simp add: body_done_def q is_done_def set_body_def)
  qed
qed

text \<open>C2. A well-formed request whose head lies in the first block of the buffer is parsed back to what was sent, when it has no \<open>Transfer-Encoding\<close> header,
  and a \<open>Content-Length\<close> header exactly when its body is not empty (so no explicit \<open>Content-Length: 0\<close>) that gives the length of the body: method, target, version, the last value of every header,
  and the body, however many blocks it spans. Exactly the request's bytes are
  consumed, so a following request is left in the buffer.\<close>

theorem parse_fixed_length_request:
  assumes "buf_ok b" and "line_ok m target v" and "\<forall>kv \<in> set hs. header_ok kv"
    and "prefix (print_head m target v hs) (peek b)"
    and "content b = print_head m target v hs @ bd @ rest"
    and "map_of (rev hs) ''Transfer-Encoding'' = None"
    and "map_of (rev hs) ''Content-Length'' = (if bd = [] then None else Some (dec_string (length bd)))"
    and "length bd < 2 ^ 64"
  shows "\<exists>p' b'. parse HttpParser_reset b = Some (Inr (length (print_head m target v hs @ bd), p', b')) \<and>
    is_done p' \<and> request p' =
      \<lparr>req_method = method_from_str m, path = target, query = [], version = v, headers = map_of (rev hs),
       body = bd, keep_alive = True\<rparr> \<and>
    buf_ok b' \<and> content b' = rest"
  using parse_fixed_head [OF assms] .

theorem parse_fixed_length_request_witness:
  "\<exists>p' b'. parse HttpParser_reset (append (Buffer_new (replicate kBlockSize NUL))
     (print_head ''PUT'' ''/x?y'' ''HTTP/1.1'' [(''Host'', ''h''), (''Content-Length'', ''2'')] @ ''ok'' @ ''GET'')) =
       Some (Inr (51, p', b')) \<and> is_done p' \<and> path (request p') = ''/x?y'' \<and> body (request p') = ''ok'' \<and>
     content b' = ''GET''"
proof -
  let ?hs = "[(''Host'', ''h''), (''Content-Length'', ''2'')]"
  let ?s = "print_head ''PUT'' ''/x?y'' ''HTTP/1.1'' ?hs @ ''ok'' @ ''GET''"
  let ?b = "append (Buffer_new (replicate kBlockSize NUL)) ?s"
  have b: "peek ?b = ?s" "buf_ok ?b" "content ?b = ?s"
    by (rule peek_append_new; simp add: kBlockSize_def print_head_def request_line_def header_block_def
        header_line_def crlf_def)+
  have ok: "line_ok ''PUT'' ''/x?y'' ''HTTP/1.1''" "\<forall>kv \<in> set ?hs. header_ok kv"
    by (simp_all add: line_ok_def header_ok_def)
  have dec: "dec_string (Suc (Suc 0)) = ''2''" by code_simp
  have pre: "prefix (print_head ''PUT'' ''/x?y'' ''HTTP/1.1'' ?hs) (peek ?b)"
    unfolding b(1) by simp
  have "\<exists>p' b'. parse HttpParser_reset ?b =
      Some (Inr (length (print_head ''PUT'' ''/x?y'' ''HTTP/1.1'' ?hs @ ''ok''), p', b')) \<and> is_done p' \<and>
      request p' = \<lparr>req_method = method_from_str ''PUT'', path = ''/x?y'', query = [], version = ''HTTP/1.1'',
        headers = map_of (rev ?hs), body = ''ok'', keep_alive = True\<rparr> \<and> buf_ok b' \<and> content b' = ''GET''"
    by (rule parse_fixed_length_request [OF b(2) ok pre b(3)]) (simp_all add: dec)
  then show ?thesis
    by (fastforce simp: print_head_def request_line_def header_block_def header_line_def crlf_def)
qed

text \<open>C6. A well-formed request with a chunked body that lies in one block is parsed back to what
  was sent: the body is the concatenation of the chunks' data. The bytes consumed end with the size line
  of the last chunk.\<close>

theorem parse_chunked_request:
  assumes "buf_ok b" and "line_ok m target v" and "\<forall>kv \<in> set hs. header_ok kv" and "\<forall>ld \<in> set cs. chunk_ok ld"
    and "peek b = print_head m target v hs @ concat (map print_chunk cs) @ last_chunk @ rest"
    and "map_of (rev hs) ''Transfer-Encoding'' = Some ''chunked''"
    and "length (concat (map snd cs)) \<le> string_max_size"
  shows "\<exists>p' b'. parse HttpParser_reset b =
      Some (Inr (length (print_head m target v hs @ concat (map print_chunk cs) @ last_chunk), p', b')) \<and>
    is_done p' \<and> request p' =
      \<lparr>req_method = method_from_str m, path = target, query = [], version = v, headers = map_of (rev hs),
       body = concat (map snd cs), keep_alive = True\<rparr> \<and>
    buf_ok b' \<and> prefix rest (peek b')"
  using parse_chunked_head [OF assms] .

theorem parse_chunked_request_witness:
  "\<exists>p' b'. parse HttpParser_reset (append (Buffer_new (replicate kBlockSize NUL))
     (print_head ''POST'' ''/'' ''HTTP/1.1'' [(''Transfer-Encoding'', ''chunked'')] @
       ''3'' @ crlf @ ''abc'' @ crlf @ ''1'' @ crlf @ ''d'' @ crlf @ last_chunk)) = Some (Inr (64, p', b')) \<and>
     is_done p' \<and> body (request p') = ''abcd''"
proof -
  let ?hs = "[(''Transfer-Encoding'', ''chunked'')]" and ?cs = "[(''3'', ''abc''), (''1'', ''d'')]"
  let ?s = "print_head ''POST'' ''/'' ''HTTP/1.1'' ?hs @ concat (map print_chunk ?cs) @ last_chunk @ []"
  let ?b = "append (Buffer_new (replicate kBlockSize NUL)) ?s"
  have b: "peek ?b = ?s" "buf_ok ?b"
    by (rule peek_append_new; simp add: kBlockSize_def print_head_def request_line_def header_block_def
        header_line_def print_chunk_def last_chunk_def crlf_def)+
  have ok: "line_ok ''POST'' ''/'' ''HTTP/1.1''" "\<forall>kv \<in> set ?hs. header_ok kv"
    "\<forall>ld \<in> set ?cs. chunk_ok ld"
    by (simp_all add: line_ok_def header_ok_def chunk_ok_def is_digit_16_iff digits_value_def digit_val_def)
  show ?thesis
    using parse_chunked_request [OF b(2) ok b(1)]
    by (fastforce simp: print_chunk_def string_max_size_def print_head_def request_line_def header_block_def
        header_line_def crlf_def last_chunk_def)
qed

text \<open>The line end after the last chunk is not consumed, although the comment in
  \<open>parse_chunked_body\<close> says so: the chunked request is complete, its final line end stays at the front of the
  buffer, and the parser, reset for the next request on the connection, takes it for an empty
  request line and stops in \<open>ERROR\<close> without consuming anything.\<close>

lemma chunked_request_breaks_connection:
  assumes "buf_ok b" and "line_ok m target v" and "\<forall>kv \<in> set hs. header_ok kv" and "\<forall>ld \<in> set cs. chunk_ok ld"
    and "peek b = print_head m target v hs @ concat (map print_chunk cs) @ last_chunk @ crlf @ rest"
    and "map_of (rev hs) ''Transfer-Encoding'' = Some ''chunked''"
    and "length (concat (map snd cs)) \<le> string_max_size"
  shows "\<exists>n p' b' q. parse HttpParser_reset b = Some (Inr (n, p', b')) \<and> is_done p' \<and>
    parse HttpParser_reset b' = Some (Inr (0, q, b')) \<and> has_error q"
proof -
  obtain n p' b' where first: "parse HttpParser_reset b = Some (Inr (n, p', b'))" "is_done p'"
    and view: "prefix (crlf @ rest) (peek b')"
    using parse_chunked_head [OF assms(1-4) _ assms(6,7), of "crlf @ rest"] assms(5) by auto
  obtain w where w: "peek b' = CR # LF # w"
    using view by (auto simp: crlf_def prefix_def)
  let ?q = "HttpParser_reset\<lparr>state := ERROR\<rparr>"
  have "parse_switch HttpParser_reset (peek_mem b') (peek_size b') = Inr (0, ?q)"
    by (simp add: parse_switch_def take_peek_mem w parse_request_line_def HttpParser_reset_def)
  moreover have "buf_size b' \<noteq> 0"
    using w by (simp add: peek_def split: if_splits)
  ultimately have "parse HttpParser_reset b' = Some (Inr (0, ?q, b'))"
    unfolding parse_eq_from by (intro parse_from_wait) (simp_all add: HttpParser_reset_def)
  with first show ?thesis by (auto simp: has_error_def)
qed

text \<open>A request with \<open>Content-Length: 0\<close> that ends the buffer is not completed: the parser
  consumes its head and waits in \<open>BODY\<close>, and running it again on the empty buffer
  changes nothing. It completes, without consuming anything, only when
  bytes of a later request arrive.\<close>

lemma empty_body_not_completed:
  assumes "buf_ok b" and "line_ok m target v" and "\<forall>kv \<in> set hs. header_ok kv"
    and "peek b = print_head m target v hs" and "content b = print_head m target v hs"
    and "map_of (rev hs) ''Transfer-Encoding'' = None"
    and "map_of (rev hs) ''Content-Length'' = Some ''0''"
  shows "\<exists>p' b'. parse HttpParser_reset b = Some (Inr (length (print_head m target v hs), p', b')) \<and>
    state p' = BODY \<and> content b' = [] \<and> parse p' b' = Some (Inr (0, p', b')) \<and>
    (\<forall>c. buf_size c \<noteq> 0 \<longrightarrow> (\<exists>q. parse p' c = Some (Inr (0, q, c)) \<and> is_done q))"
proof -
  let ?q = "after_head m target v hs"
  let ?p = "headers_done ?q"
  obtain b1 where b1: "buf_ok b1" "content b1 = []"
    and head: "parse HttpParser_reset b = parse_from ?p b1 (length (print_head m target v hs))"
    using parse_from_head [OF assms(1-3), of "[]" HttpParser_reset 0] assms(4,5)
    by (auto simp: HttpParser_reset_def parse_eq_from)
  have size: "buf_size b1 = 0" using b1 by (simp add: buf_okD(6))
  have "dec_string 0 = ''0''" by code_simp
  then have zero: "strtoul 10 ''0'' = 0" using strtoul_dec_string [of 0] by simp
  have p: "headers_done ?q = ?q\<lparr>content_length := 0, state := BODY\<rparr>"
    using assms(6,7) by (simp add: headers_done_def header_def request_of_head str_contains_def zero)
  have st: "state ?p = BODY" and len: "unat (content_length ?p) = unat (body_read ?p) + length []"
    unfolding p by (simp_all add: with_line_def HttpParser_reset_def)
  have "\<exists>q. parse ?p c = Some (Inr (0, q, c)) \<and> is_done q" if "buf_size c \<noteq> 0" for c
  proof -
    have "parse_switch ?p (peek_mem c) (peek_size c) = Inr (0, body_done ?p [])"
      using parse_body_all [OF len, of "peek c"] st by (simp add: parse_switch_def take_peek_mem)
    from parse_from_wait [OF that _ this, of 0] show ?thesis
      using st by (simp add: parse_eq_from body_done_def is_done_def)
  qed
  then show ?thesis
    unfolding head using b1 size st by (intro exI [of _ ?p] exI [of _ b1]) (simp add: parse_eq_from)
qed

text \<open>C33. A client can make the parser throw. A chunk size of \<open>2\<^sup>6\<^sup>4 - 2\<close> or \<open>2\<^sup>6\<^sup>4 - 1\<close>
  makes \<open>chunk_size_ + 2\<close> wrap around, so that any further byte counts as the whole chunk, and
  \<open>append\<close> of that many bytes to the body throws \<open>std::length_error\<close>, which nothing in the server catches.\<close>

theorem chunk_size_wraps:
  assumes "buf_ok b" and "line_ok m target v" and "\<forall>kv \<in> set hs. header_ok kv"
    and "l \<noteq> []" and "\<forall>c \<in> set l. is_digit 16 c"
    and "2 ^ 64 - 2 \<le> digits_value 16 l" and "digits_value 16 l < 2 ^ 64" and "w \<noteq> []"
    and "peek b = print_head m target v hs @ l @ crlf @ w"
    and "map_of (rev hs) ''Transfer-Encoding'' = Some ''chunked''"
  shows "parse HttpParser_reset b = Some (Inl LengthError)"
proof -
  let ?q = "after_head m target v hs"
  let ?p = "headers_done ?q" and ?sz = "of_nat (digits_value 16 l) :: size_t"
  obtain b1 where b1: "buf_ok b1" "prefix (l @ crlf @ w) (peek b1)"
    and head: "parse HttpParser_reset b = parse_from ?p b1 (length (print_head m target v hs))"
    using parse_from_head [OF assms(1-3), of "l @ crlf @ w" HttpParser_reset 0] assms(9)
    by (auto simp: HttpParser_reset_def parse_eq_from)
  obtain w' where view: "peek b1 = l @ CR # LF # w'" and w': "w' \<noteq> []"
    using b1(2) assms(8) by (auto simp: prefix_def crlf_def)
  obtain mem where mem: "peek_mem b1 = l @ CR # LF # w' @ mem"
    using peek_mem_split [of b1] view by auto
  have size: "peek_size b1 = length l + 2 + length w'"
    using length_peek [OF b1(1)] view by simp
  have p: "state ?p = CHUNKED_BODY" "reading_chunk_size ?p" "temp_body ?p = []"
    unfolding headers_done_chunked [OF assms(10)] by (simp_all add: with_line_def HttpParser_reset_def)
  have sz: "unat ?sz = digits_value 16 l"
    using assms(7) by (simp add: unat_of_nat)
  then have wrap: "unat (?sz + 2) = digits_value 16 l - (2 ^ 64 - 2)"
    using assms(6,7) by (simp add: unat_word_ariths le_mod_geq)
  then have short: "\<not> length w' < unat (?sz + 2)"
    using assms(7) w' by (cases w') simp_all
  have "parse_chunked_loop ?p (l @ CR # LF # w' @ mem) (length l + 2 + length w') 0 = Inl LengthError"
    using assms(6) w' p sz short
    by (subst parse_chunked_size_line [OF p(2) assms(4,5,7)], simp)
      (subst parse_chunked_loop.simps, simp add: Let_def string_max_size_def)
  then have "parse_switch ?p (peek_mem b1) (peek_size b1) = Inl LengthError"
    unfolding mem size by (simp add: parse_switch_def parse_chunked_body_def p)
  moreover have "buf_size b1 \<noteq> 0"
    using view by (simp add: peek_def split: if_splits)
  ultimately show ?thesis
    unfolding head by (intro parse_from_fault) (simp_all add: p)
qed

theorem chunk_size_wraps_witness:
  "parse HttpParser_reset (append (Buffer_new (replicate kBlockSize NUL))
     (print_head ''POST'' ''/'' ''HTTP/1.1'' [(''Transfer-Encoding'', ''chunked'')] @
       ''ffffffffffffffff'' @ crlf @ ''x'')) = Some (Inl LengthError)"
proof -
  let ?hs = "[(''Transfer-Encoding'', ''chunked'')]" and ?l = "''ffffffffffffffff''"
  let ?s = "print_head ''POST'' ''/'' ''HTTP/1.1'' ?hs @ ?l @ crlf @ ''x''"
  let ?b = "append (Buffer_new (replicate kBlockSize NUL)) ?s"
  have b: "peek ?b = ?s" "buf_ok ?b"
    by (rule peek_append_new; simp add: kBlockSize_def print_head_def request_line_def header_block_def
        header_line_def crlf_def)+
  have ok: "line_ok ''POST'' ''/'' ''HTTP/1.1''" "\<forall>kv \<in> set ?hs. header_ok kv"
    by (simp_all add: line_ok_def header_ok_def)
  have l: "digits_value 16 ?l = 2 ^ 64 - 1" "\<forall>c \<in> set ?l. is_digit 16 c"
    by (simp_all add: digits_value_def digit_val_def is_digit_16_iff)
  show ?thesis
    by (rule chunk_size_wraps [OF b(2) ok _ l(2) _ _ _ b(1)]) (simp_all add: l(1))
qed

text \<open>A request line or header line that does not fit in the first block is never parsed. Once that
  block is full and holds no line end, whatever arrives on the connection goes to
  later blocks, which \<open>parse\<close> does not look at: it consumes nothing and stays in its state for
  ever, although the complete line is in the buffer.\<close>

lemma long_line_stalls:
  assumes "length junk = kBlockSize" and "length s = kBlockSize" and "find_crlf s = None"
    and "state p \<in> {START, REQUEST_LINE, HEADERS}"
  shows "let b = foldl recv_into (append (Buffer_new junk) s) ts in parse p b = Some (Inr (0, p, b))"
proof -
  note b0 = append_one_block [OF assms(1,2)]
  let ?b = "foldl recv_into (append (Buffer_new junk) s) ts"
  have b: "rblk ?b = \<lparr>data = s, read_idx = 0, write_idx = kBlockSize\<rparr>" "buf_size ?b \<noteq> 0"
    using recv_all_head_full [of "append (Buffer_new junk) s" ts]
    by (simp_all add: b0 head_full_def writable_def, simp add: kBlockSize_def)
  have "peek ?b = s"
    using b assms(2) by (simp add: peek_def blk_view_def readable_def)
  with b(2) assms(3,4) show ?thesis
    unfolding Let_def by (intro parse_no_line) simp_all
qed

end
