(* ===== verification/Http_Response.thy ===== *)
theory Http_Response
  imports Http_Parser
begin

text \<open>
  The response builder of \<open>src/hound/src/http/http_response.h\<close> and \<open>http_response.cpp\<close>. The headers are an
  \<open>unordered_map\<close>: a map here, and the order in which \<open>serialize\<close> meets its entries is the
  parameter \<open>iter\<close>, of which only \<open>iter_ok\<close> is assumed (every entry once, no other). Shown: a
  client that frames responses by \<open>Content-Length\<close> gets back what was built, and
  where the builder leaves \<open>Content-Length\<close> out it cannot.
\<close>

section \<open>Definitions\<close>

record http_response =
  status_code :: int
  status_message :: string
  resp_headers :: "string \<rightharpoonup> string"
  resp_body :: string
  cookies :: "string list"

definition HttpResponse_new :: http_response where
  "HttpResponse_new =
     \<lparr>status_code = 200, status_message = ''OK'', resp_headers = Map.empty, resp_body = [], cookies = []\<rparr>"

definition set_status :: "int \<Rightarrow> string \<Rightarrow> http_response \<Rightarrow> http_response" where
  "set_status code message r = r\<lparr>status_code := code, status_message := message\<rparr>"

definition set_header :: "string \<Rightarrow> string \<Rightarrow> http_response \<Rightarrow> http_response" where
  "set_header key val r = r\<lparr>resp_headers := (resp_headers r)(key \<mapsto> val)\<rparr>"

definition set_content_type :: "string \<Rightarrow> http_response \<Rightarrow> http_response" where
  "set_content_type ct r = set_header ''Content-Type'' ct r"

definition resp_set_body :: "string \<Rightarrow> http_response \<Rightarrow> http_response" where
  "resp_set_body bd r =
     (let r1 = r\<lparr>resp_body := bd\<rparr>
      in set_header ''Content-Length'' (to_string (int (length (resp_body r1)))) r1)"

definition append_body :: "string \<Rightarrow> http_response \<Rightarrow> http_response" where
  "append_body chunk r =
     (let r1 = r\<lparr>resp_body := resp_body r @ chunk\<rparr>
      in set_header ''Content-Length'' (to_string (int (length (resp_body r1)))) r1)"

definition set_cookie ::
  "string \<Rightarrow> string \<Rightarrow> string \<Rightarrow> int \<Rightarrow> bool \<Rightarrow> http_response \<Rightarrow> http_response" where
  "set_cookie name val pth max_age http_only r =
     (let c0 = name @ ''='' @ val @ ''; Path='' @ pth;
          c1 = (if max_age > 0 then c0 @ ''; Max-Age='' @ to_string max_age else c0);
          c2 = (if http_only then c1 @ ''; HttpOnly'' else c1)
      in r\<lparr>cookies := cookies r @ [c2]\<rparr>)"

definition set_keep_alive :: "bool \<Rightarrow> http_response \<Rightarrow> http_response" where
  "set_keep_alive on r =
     (if on then set_header ''Connection'' ''keep-alive'' r else set_header ''Connection'' ''close'' r)"

definition serialize :: "((string \<rightharpoonup> string) \<Rightarrow> (string \<times> string) list) \<Rightarrow> http_response \<Rightarrow> string" where
  "serialize iter r =
     ''HTTP/1.1 '' @ to_string (status_code r) @ '' '' @ status_message r @ crlf
     @ concat (map (\<lambda>h. fst h @ '': '' @ snd h @ crlf) (iter (resp_headers r)))
     @ concat (map (\<lambda>cookie. ''Set-Cookie: '' @ cookie @ crlf) (cookies r))
     @ crlf
     @ resp_body r"

definition HttpResponse_ok :: "string \<Rightarrow> string \<Rightarrow> http_response" where
  "HttpResponse_ok bd content_type =
     (let r = set_content_type content_type (set_status 200 ''OK'' HttpResponse_new)
      in if bd \<noteq> [] then resp_set_body bd r else r)"

definition not_found :: "string \<Rightarrow> http_response" where
  "not_found bd =
     resp_set_body bd (set_content_type ''text/plain'' (set_status 404 ''Not Found'' HttpResponse_new))"

definition internal_error :: "string \<Rightarrow> http_response" where
  "internal_error bd =
     resp_set_body bd (set_content_type ''text/plain''
       (set_status 500 ''Internal Server Error'' HttpResponse_new))"

definition redirect :: "string \<Rightarrow> int \<Rightarrow> http_response" where
  "redirect location code =
     set_header ''Location'' location
       (set_status code (if code = 301 then ''Moved Permanently'' else ''Found'') HttpResponse_new)"

definition json :: "string \<Rightarrow> http_response" where
  "json json_body = HttpResponse_ok json_body ''application/json; charset=utf-8''"

section \<open>Responses a handler can build\<close>

text \<open>Any sequence of builder calls that leaves \<open>Content-Length\<close> to the builder.\<close>

inductive built :: "http_response \<Rightarrow> bool" where
  new: "built HttpResponse_new"
| status: "built r \<Longrightarrow> built (set_status code message r)"
| header: "built r \<Longrightarrow> key \<noteq> ''Content-Length'' \<Longrightarrow> built (set_header key val r)"
| content_type: "built r \<Longrightarrow> built (set_content_type ct r)"
| body: "built r \<Longrightarrow> built (resp_set_body bd r)"
| append: "built r \<Longrightarrow> built (append_body bd r)"
| cookie: "built r \<Longrightarrow> built (set_cookie name val pth max_age http_only r)"
| keep_alive: "built r \<Longrightarrow> built (set_keep_alive on r)"

definition length_declared :: "http_response \<Rightarrow> bool" where
  "length_declared r \<longleftrightarrow>
     (case resp_headers r ''Content-Length'' of
        None \<Rightarrow> resp_body r = []
      | Some v \<Rightarrow> v = dec_string (length (resp_body r)))"

lemmas builder_defs = set_status_def set_header_def set_content_type_def resp_set_body_def
  append_body_def set_cookie_def set_keep_alive_def

lemma length_declared_if_built: "built r \<Longrightarrow> length_declared r"
  by (induction rule: built.induct)
    (auto simp: length_declared_def builder_defs HttpResponse_new_def Let_def split: option.splits)

lemma built_factories:
  "built (HttpResponse_ok bd ct)" "built (not_found bd)" "built (internal_error bd)"
  "built (redirect loc code)" "built (json bd)"
  by (auto simp: HttpResponse_ok_def not_found_def internal_error_def redirect_def json_def Let_def
      intro!: built.intros)

section \<open>What a client reads\<close>

text \<open>The reference reader: a status line, header lines up to an empty one, and then as many
  bytes as \<open>Content-Length\<close> declares. Without that header the body extends to the end of
  the connection.\<close>

definition client_header :: "string \<Rightarrow> string \<times> string" where
  "client_header line =
     (case str_find CHR '':'' line of
        None \<Rightarrow> (line, [])
      | Some colon \<Rightarrow> (take colon line, dropWhile (\<lambda>c. c = CHR '' '') (drop (colon + 1) line)))"

function client_headers :: "string \<Rightarrow> ((string \<times> string) list \<times> string) option" where
  "client_headers s =
     (case find_crlf s of
        None \<Rightarrow> None
      | Some n \<Rightarrow>
          if n = 0 then Some ([], drop 2 s)
          else (case client_headers (drop (n + 2) s) of
                  None \<Rightarrow> None
                | Some (hs, rest) \<Rightarrow> Some (client_header (take n s) # hs, rest)))"
  by pat_completeness auto
termination
  by (relation "measure length") (auto dest: find_crlf_Some(1))

declare client_headers.simps [simp del]

definition client_read :: "string \<Rightarrow> (string \<times> (string \<times> string) list \<times> string \<times> string) option" where
  "client_read s =
     (case find_crlf s of
        None \<Rightarrow> None
      | Some n \<Rightarrow>
          (case client_headers (drop (n + 2) s) of
             None \<Rightarrow> None
           | Some (hs, rest) \<Rightarrow>
               (case map_of hs ''Content-Length'' of
                  None \<Rightarrow> Some (take n s, hs, rest, [])
                | Some v \<Rightarrow> Some (take n s, hs, take (unat (strtoul 10 v)) rest,
                                  drop (unat (strtoul 10 v)) rest))))"

lemma client_header_print: "header_ok kv \<Longrightarrow> client_header (fst kv @ '': '' @ snd kv) = kv"
  by (cases kv; cases "snd kv") (auto simp: client_header_def header_ok_def)

lemma drop_line: "drop (length l + 2) (l @ CR # LF # rest) = rest"
  by (induction l) simp_all

lemma client_headers_print:
  "\<forall>kv \<in> set hs. header_ok kv \<Longrightarrow> client_headers (header_block hs @ rest) = Some (hs, rest)"
proof (induction hs)
  case Nil
  then show ?case by (simp add: client_headers.simps header_block_def crlf_def)
next
  case (Cons kv hs)
  let ?line = "fst kv @ '': '' @ snd kv" and ?rest = "header_block hs @ rest"
  have s: "header_block (kv # hs) @ rest = ?line @ CR # LF # ?rest"
    by (simp add: header_block_def header_line_def crlf_def)
  have "CR \<notin> set ?line"
    using Cons.prems by (auto simp: header_ok_def)
  note n = find_crlf_line [OF this, of ?rest]
  show ?case
    unfolding s client_headers.simps [of "?line @ CR # LF # ?rest"] n option.case drop_line
    using Cons client_header_print [of kv] by simp
qed

definition wire_headers :: "((string \<rightharpoonup> string) \<Rightarrow> (string \<times> string) list) \<Rightarrow> http_response \<Rightarrow> (string \<times> string) list" where
  "wire_headers iter r = iter (resp_headers r) @ map (Pair ''Set-Cookie'') (cookies r)"

definition status_line :: "http_response \<Rightarrow> string" where
  "status_line r = ''HTTP/1.1 '' @ to_string (status_code r) @ '' '' @ status_message r"

definition iter_ok :: "((string \<rightharpoonup> string) \<Rightarrow> (string \<times> string) list) \<Rightarrow> http_response \<Rightarrow> bool" where
  "iter_ok iter r \<longleftrightarrow>
     distinct (map fst (iter (resp_headers r))) \<and> map_of (iter (resp_headers r)) = resp_headers r"

definition wire_ok :: "((string \<rightharpoonup> string) \<Rightarrow> (string \<times> string) list) \<Rightarrow> http_response \<Rightarrow> bool" where
  "wire_ok iter r \<longleftrightarrow> CR \<notin> set (status_message r) \<and> list_all header_ok (wire_headers iter r)"

lemma serialize_wire:
  "serialize iter r = status_line r @ crlf @ header_block (wire_headers iter r) @ resp_body r"
  by (simp add: serialize_def status_line_def header_block_def header_line_def [abs_def] wire_headers_def
      comp_def)

lemma to_string_no_cr: "CR \<notin> set (to_string i)"
  using dec_string_no_crlf(1) by (simp add: to_string_def)

lemma client_read_serialize:
  assumes "iter_ok iter r" and "wire_ok iter r"
  shows "client_read (serialize iter r @ later) =
    (case resp_headers r ''Content-Length'' of
       None \<Rightarrow> Some (status_line r, wire_headers iter r, resp_body r @ later, [])
     | Some v \<Rightarrow> Some (status_line r, wire_headers iter r, take (unat (strtoul 10 v)) (resp_body r @ later),
                       drop (unat (strtoul 10 v)) (resp_body r @ later)))"
proof -
  let ?tl = "header_block (wire_headers iter r) @ resp_body r @ later"
  have s: "serialize iter r @ later = status_line r @ CR # LF # ?tl"
    by (simp add: serialize_wire crlf_def)
  have "CR \<notin> set (status_line r)"
    using assms(2) to_string_no_cr by (auto simp: status_line_def wire_ok_def)
  note n = find_crlf_line [OF this, of ?tl]
  have hs: "client_headers ?tl = Some (wire_headers iter r, resp_body r @ later)"
    by (rule client_headers_print) (use assms(2) in \<open>simp add: wire_ok_def list_all_iff\<close>)
  have "map_of (map (Pair ''Set-Cookie'') (cookies r)) ''Content-Length'' = None"
    by (auto simp: map_of_eq_None_iff)
  then have cl: "map_of (wire_headers iter r) ''Content-Length'' = resp_headers r ''Content-Length''"
    using assms(1) by (simp add: iter_ok_def wire_headers_def map_add_def split: option.splits)
  show ?thesis
    unfolding s client_read_def n option.case drop_line hs prod.case cl
    by (auto split: option.splits)
qed

lemma client_read_built:
  assumes "built r" and "iter_ok iter r" and "wire_ok iter r"
    and "resp_headers r ''Content-Length'' \<noteq> None" and "length (resp_body r) < 2 ^ 64"
  shows "client_read (serialize iter r @ later) =
    Some (''HTTP/1.1 '' @ to_string (status_code r) @ '' '' @ status_message r,
          iter (resp_headers r) @ map (Pair ''Set-Cookie'') (cookies r), resp_body r, later)"
proof -
  have "resp_headers r ''Content-Length'' = Some (dec_string (length (resp_body r)))"
    using length_declared_if_built [OF assms(1)] assms(4) by (auto simp: length_declared_def)
  moreover have "unat (strtoul 10 (dec_string (length (resp_body r)))) = length (resp_body r)"
    using assms(5) by (simp add: strtoul_dec_string unat_of_nat)
  ultimately show ?thesis
    using client_read_serialize [OF assms(2,3), of later] by (simp add: status_line_def wire_headers_def)
qed

section \<open>Properties\<close>

text \<open>C19. Framing. Take a response made by the constructor, the factories and the builder calls, without a \<open>Content-Length\<close> set by hand, that declares its length (which \<open>ok\<close> of an
  empty body and \<open>redirect\<close> do not), and whose status message, header names and values and cookies have no line break or separator that would end them early. A client
  reading the serialized bytes gets the status line, the headers and cookies in
  order and exactly the body, and is left with the bytes of the next response on the
  connection, whatever the iteration order of the header map.\<close>

theorem response_framing:
  assumes "built r" and "iter_ok iter r" and "wire_ok iter r"
    and "resp_headers r ''Content-Length'' \<noteq> None" and "length (resp_body r) < 2 ^ 64"
  shows "client_read (serialize iter r @ later) =
    Some (''HTTP/1.1 '' @ to_string (status_code r) @ '' '' @ status_message r,
          iter (resp_headers r) @ map (Pair ''Set-Cookie'') (cookies r), resp_body r, later)"
  using client_read_built [OF assms] .

definition two_headers :: "(string \<rightharpoonup> string) \<Rightarrow> (string \<times> string) list" where
  "two_headers m = [(k, v). k \<leftarrow> [''Content-Length'', ''Content-Type''], v \<leftarrow> (case m k of None \<Rightarrow> [] | Some v \<Rightarrow> [v])]"

theorem response_framing_witness:
  "client_read (serialize two_headers (set_cookie ''sid'' ''7'' ''/'' 60 True (not_found ''gone'')) @ ''HTTP'') =
    Some (''HTTP/1.1 404 Not Found'',
      [(''Content-Length'', ''4''), (''Content-Type'', ''text/plain''),
       (''Set-Cookie'', ''sid=7; Path=/; Max-Age=60; HttpOnly'')], ''gone'', ''HTTP'')"
proof -
  let ?r = "set_cookie ''sid'' ''7'' ''/'' 60 True (not_found ''gone'')"
  have num: "dec_string (Suc (Suc (Suc (Suc 0)))) = ''4''" "to_string 60 = ''60''" "to_string 404 = ''404''" by code_simp+
  have r: "?r = \<lparr>status_code = 404, status_message = ''Not Found'',
      resp_headers = [''Content-Type'' \<mapsto> ''text/plain'', ''Content-Length'' \<mapsto> ''4''], resp_body = ''gone'',
      cookies = [''sid=7; Path=/; Max-Age=60; HttpOnly'']\<rparr>"
    by (simp add: not_found_def builder_defs HttpResponse_new_def Let_def num)
  have "built ?r" by (intro built.intros built_factories)
  from response_framing [OF this, of two_headers "''HTTP''"] show ?thesis
    by (simp add: r num two_headers_def iter_ok_def wire_ok_def wire_headers_def header_ok_def fun_eq_iff)
qed

text \<open>The factories produce the status, content type, location and body they are named for.
  \<open>Content-Length\<close> is there for every body but the empty one of \<open>ok\<close>, and never for a redirect.\<close>

lemma response_factories:
  "HttpResponse_ok bd ct = \<lparr>status_code = 200, status_message = ''OK'',
     resp_headers = (if bd = [] then [''Content-Type'' \<mapsto> ct]
       else [''Content-Type'' \<mapsto> ct, ''Content-Length'' \<mapsto> dec_string (length bd)]),
     resp_body = bd, cookies = []\<rparr> \<and>
   not_found bd = \<lparr>status_code = 404, status_message = ''Not Found'',
     resp_headers = [''Content-Type'' \<mapsto> ''text/plain'', ''Content-Length'' \<mapsto> dec_string (length bd)],
     resp_body = bd, cookies = []\<rparr> \<and>
   internal_error bd = \<lparr>status_code = 500, status_message = ''Internal Server Error'',
     resp_headers = [''Content-Type'' \<mapsto> ''text/plain'', ''Content-Length'' \<mapsto> dec_string (length bd)],
     resp_body = bd, cookies = []\<rparr> \<and>
   json bd = HttpResponse_ok bd ''application/json; charset=utf-8'' \<and>
   redirect loc code = \<lparr>status_code = code,
     status_message = (if code = 301 then ''Moved Permanently'' else ''Found''),
     resp_headers = [''Location'' \<mapsto> loc], resp_body = [], cookies = []\<rparr>"
  by (auto simp: HttpResponse_ok_def not_found_def internal_error_def redirect_def json_def builder_defs
      HttpResponse_new_def Let_def)

text \<open>An empty \<open>ok\<close> response or a redirect does not tell the client that its body is empty. On a
  connection that is kept alive the client takes the bytes of the next response for the body.\<close>

lemma undeclared_length_swallows_next:
  assumes "r = HttpResponse_ok [] ct \<or> r = redirect loc code" and "iter_ok iter r" and "wire_ok iter r"
  shows "client_read (serialize iter r @ later) = Some (status_line r, wire_headers iter r, later, [])"
proof -
  have "resp_headers r ''Content-Length'' = None" and "resp_body r = []"
    using assms(1) by (auto simp: HttpResponse_ok_def redirect_def builder_defs HttpResponse_new_def)
  then show ?thesis
    using client_read_serialize [OF assms(2,3), of later] by simp
qed

end
