(* ===== verification/Url_Router.thy ===== *)
theory Url_Router
  imports Http_Response
begin

text \<open>
  The trie router of \<open>src/hound/src/http/router.h\<close> and \<open>router.cpp\<close>. A \<open>Node\<close> is a datatype with the fields of
  the struct; handlers are of any type. \<open>add\<close> walks and extends the trie, \<open>route\<close> walks it with
  the source's priorities (exact, then the first parameter child, then the first wildcard) and
  computes the captured parameters, which the source then drops. The abstract specification
  works on the list of registrations alone; the locale \<open>route_store\<close> is the interface
  between the two, and the trie is shown to implement it.
\<close>

section \<open>Definitions\<close>

datatype 'h node = Node (segment: string) (is_param: bool) (is_wildcard: bool)
  (handlers: "(string \<times> 'h) list") (children: "'h node list")

definition Node_new :: "'h node" where
  "Node_new = Node [] False False [] []"

text \<open>\<open>Node::find_child\<close>, which no other code calls.\<close>

definition find_child :: "'h node \<Rightarrow> string \<Rightarrow> 'h node option" where
  "find_child n seg = List.find (\<lambda>child. segment child = seg \<or> is_param child \<or> is_wildcard child) (children n)"

definition split_path :: "string \<Rightarrow> string list" where
  "split_path s = filter (\<lambda>seg. seg \<noteq> []) (getlines CHR ''/'' s)"

definition new_child :: "string \<Rightarrow> 'h node" where
  "new_child seg =
     (if hd seg = CHR '':'' then Node seg True False [] []
      else if hd seg = CHR ''*'' then Node seg False True [] []
      else Node seg False False [] [])"

text \<open>The child loop of \<open>add\<close>: go into the first child with that segment, or a new last one.\<close>

fun descend :: "string \<Rightarrow> ('h node \<Rightarrow> 'h node) \<Rightarrow> 'h node list \<Rightarrow> 'h node list" where
  "descend seg f [] = [f (new_child seg)]"
| "descend seg f (c # cs) = (if segment c = seg then f c # cs else c # descend seg f cs)"

primrec add_at :: "string \<Rightarrow> 'h \<Rightarrow> string list \<Rightarrow> 'h node \<Rightarrow> 'h node" where
  "add_at m h [] = (\<lambda>n. Node (segment n) (is_param n) (is_wildcard n) (AList.update m h (handlers n)) (children n))"
| "add_at m h (seg # segs) =
     (\<lambda>n. Node (segment n) (is_param n) (is_wildcard n) (handlers n) (descend seg (add_at m h segs) (children n)))"

record 'h router =
  root :: "'h node option"

definition Router_new :: "'h router" where
  "Router_new = \<lparr>root = None\<rparr>"

definition router_empty :: "'h router \<Rightarrow> bool" where
  "router_empty rt \<longleftrightarrow> (case root rt of None \<Rightarrow> True | Some n \<Rightarrow> False)"

definition add :: "'h router \<Rightarrow> string \<Rightarrow> string \<Rightarrow> 'h \<Rightarrow> 'h router" where
  "add rt m pattern h =
     (let n = (case root rt of None \<Rightarrow> Node_new | Some n \<Rightarrow> n)
      in rt\<lparr>root := Some (add_at m h (split_path pattern) n)\<rparr>)"

text \<open>The child loop of \<open>route\<close>: \<open>match\<close>, \<open>param_match\<close> and \<open>wildcard_match\<close>.\<close>

fun scan :: "string \<Rightarrow> 'h node list \<Rightarrow> 'h node option \<Rightarrow> 'h node option \<Rightarrow>
    'h node option \<times> 'h node option \<times> 'h node option" where
  "scan seg [] pm wm = (None, pm, wm)"
| "scan seg (c # cs) pm wm =
     (if segment c = seg then (Some c, pm, wm)
      else scan seg cs
             (case pm of None \<Rightarrow> if is_param c then Some c else None | Some k \<Rightarrow> Some k)
             (case wm of None \<Rightarrow> if is_wildcard c then Some c else None | Some k \<Rightarrow> Some k))"

fun walk :: "'h node \<Rightarrow> string list \<Rightarrow> (string \<rightharpoonup> string) \<Rightarrow> ('h node \<times> (string \<rightharpoonup> string)) option" where
  "walk n [] params = Some (n, params)"
| "walk n (seg # segs) params =
     (case scan seg (children n) None None of
        (Some c, _, _) \<Rightarrow> walk c segs params
      | (None, Some c, _) \<Rightarrow> walk c segs (params(drop 1 (segment c) \<mapsto> seg))
      | (None, None, Some c) \<Rightarrow> Some (c, params(drop 1 (segment c) \<mapsto> join ''/'' (seg # segs)))
      | (None, None, None) \<Rightarrow> None)"

text \<open>\<open>route\<close>: the handler, or none with \<open>*resp\<close> replaced; \<open>resp\<close> may be a null pointer.\<close>

definition route ::
  "'h router \<Rightarrow> http_request \<Rightarrow> http_response option \<Rightarrow> 'h option \<times> http_response option" where
  "route rt req resp =
     (case root rt of
        None \<Rightarrow> (None, resp)
      | Some n \<Rightarrow>
          (let m = method_str (req_method req);
               set_resp = (\<lambda>r. case resp of None \<Rightarrow> None | Some _ \<Rightarrow> Some r)
           in case walk n (split_path (path req)) Map.empty of
                None \<Rightarrow> (None, set_resp (not_found (''404 Not Found: '' @ path req)))
              | Some (k, params) \<Rightarrow>
                  (case map_of (handlers k) m of
                     Some h \<Rightarrow> (Some h, resp)
                   | None \<Rightarrow>
                       (None, if handlers k \<noteq> [] then set_resp (not_found ''405 Method Not Allowed'')
                              else set_resp (not_found (''404 Not Found: '' @ path req))))))"

section \<open>The trie seen from outside\<close>

abbreviation child_named :: "string \<Rightarrow> 'h node list \<Rightarrow> 'h node option" where
  "child_named s cs \<equiv> List.find (\<lambda>c. segment c = s) cs"

primrec node_at :: "string list \<Rightarrow> 'h node \<Rightarrow> 'h node option" where
  "node_at [] = Some"
| "node_at (s # ss) = (\<lambda>n. case child_named s (children n) of None \<Rightarrow> None | Some c \<Rightarrow> node_at ss c)"

definition kids :: "'h node \<Rightarrow> string list \<Rightarrow> string list" where
  "kids n pre = (case node_at pre n of None \<Rightarrow> [] | Some k \<Rightarrow> map segment (children k))"

definition handlers_at :: "'h node \<Rightarrow> string list \<Rightarrow> (string \<rightharpoonup> 'h)" where
  "handlers_at n pre = (case node_at pre n of None \<Rightarrow> Map.empty | Some k \<Rightarrow> map_of (handlers k))"

definition is_param_seg :: "string \<Rightarrow> bool" where
  "is_param_seg s \<longleftrightarrow> s \<noteq> [] \<and> hd s = CHR '':''"

definition is_wild_seg :: "string \<Rightarrow> bool" where
  "is_wild_seg s \<longleftrightarrow> s \<noteq> [] \<and> hd s = CHR ''*''"

definition flag_ok :: "'h node \<Rightarrow> bool" where
  "flag_ok c \<longleftrightarrow> is_param c = is_param_seg (segment c) \<and> is_wildcard c = is_wild_seg (segment c)"

lemma segment_add_at [simp]: "segment (add_at m h segs n) = segment n"
  "is_param (add_at m h segs n) = is_param n" "is_wildcard (add_at m h segs n) = is_wildcard n"
  by (cases segs; simp)+

lemma segment_new_child [simp]: "segment (new_child seg) = seg" "children (new_child seg) = []"
  "handlers (new_child seg) = []"
  by (simp_all add: new_child_def)

lemma flag_ok_new_child: "seg \<noteq> [] \<Longrightarrow> flag_ok (new_child seg)"
  by (simp add: new_child_def flag_ok_def is_param_seg_def is_wild_seg_def)

lemma child_named_descend:
  "\<forall>c. segment (f c) = segment c \<Longrightarrow>
   child_named s (descend seg f cs) =
   (if s = seg then Some (f (case child_named seg cs of None \<Rightarrow> new_child seg | Some c \<Rightarrow> c))
    else child_named s cs)"
  by (induction cs) auto

lemma segments_descend:
  "\<forall>c. segment (f c) = segment c \<Longrightarrow>
   map segment (descend seg f cs) =
   (if seg \<in> set (map segment cs) then map segment cs else map segment cs @ [seg])"
  by (induction cs) auto

lemma child_named_Some: "child_named s cs = Some c \<Longrightarrow> segment c = s \<and> c \<in> set cs"
  by (auto simp: find_Some_iff)

lemma child_named_None: "child_named s cs = None \<longleftrightarrow> s \<notin> set (map segment cs)"
  by (auto simp: find_None_iff)

lemma node_at_add_at:
  "node_at pre (add_at m h segs n) =
   (if prefix pre segs
    then Some (add_at m h (drop (length pre) segs)
           (case node_at pre n of Some k \<Rightarrow> k | None \<Rightarrow> new_child (last pre)))
    else node_at pre n)"
proof (induction pre arbitrary: segs n)
  case (Cons s ss)
  show ?case
  proof (cases segs)
    case Nil
    then show ?thesis by (simp split: option.splits)
  next
    case segs: (Cons t ts)
    let ?c = "case child_named t (children n) of None \<Rightarrow> new_child t | Some c \<Rightarrow> c"
    have "child_named s (children (add_at m h segs n)) =
        (if s = t then Some (add_at m h ts ?c) else child_named s (children n))"
      using child_named_descend [of "add_at m h ts" s t "children n"] by (simp add: segs)
    moreover have "node_at ss (new_child t :: 'a node) = (if ss = [] then Some (new_child t) else None)" for t
      by (cases ss) simp_all
    ultimately show ?thesis
      using Cons.IH [of ts ?c] by (auto simp: segs split: option.splits)
  qed
qed simp

lemma drop_prefix_Cons:
  assumes "prefix pre segs" and "pre \<noteq> segs"
  shows "drop (length pre) segs = segs ! length pre # drop (Suc (length pre)) segs"
proof -
  have "length pre < length segs"
    using assms by (metis prefix_length_less prefix_order.less_le)
  then show ?thesis by (simp add: Cons_nth_drop_Suc)
qed

definition kids_after :: "string list \<Rightarrow> string list \<Rightarrow> string list \<Rightarrow> string list" where
  "kids_after segs pre ks =
     (if prefix pre segs \<and> pre \<noteq> segs \<and> segs ! length pre \<notin> set ks then ks @ [segs ! length pre] else ks)"

lemma kids_add_at: "kids (add_at m h segs n) pre = kids_after segs pre (kids n pre)"
proof (cases "prefix pre segs \<and> pre \<noteq> segs")
  case True
  let ?k = "case node_at pre n of Some k \<Rightarrow> k | None \<Rightarrow> new_child (last pre)"
  have "map segment (children ?k) = kids n pre"
    by (simp add: kids_def split: option.splits)
  then show ?thesis
    using True segments_descend [of "add_at m h (drop (Suc (length pre)) segs)" "segs ! length pre" "children ?k"]
    by (simp add: kids_def [of "add_at m h segs n"] node_at_add_at drop_prefix_Cons kids_after_def)
next
  case False
  then show ?thesis
    by (auto simp: kids_def node_at_add_at kids_after_def split: option.splits)
qed

lemma handlers_at_add_at:
  "handlers_at (add_at m h segs n) pre = (if pre = segs then (handlers_at n pre)(m \<mapsto> h) else handlers_at n pre)"
proof (cases "prefix pre segs \<and> pre \<noteq> segs")
  case True
  then show ?thesis
    by (auto simp: handlers_at_def node_at_add_at drop_prefix_Cons split: option.splits)
next
  case False
  then show ?thesis
    by (auto simp: handlers_at_def node_at_add_at update_conv' split: option.splits)
qed

definition flags_ok :: "'h node \<Rightarrow> bool" where
  "flags_ok n \<longleftrightarrow> (\<forall>pre k. node_at pre n = Some k \<longrightarrow> (\<forall>c \<in> set (children k). flag_ok c))"

lemma flags_ok_new: "flags_ok Node_new"
proof -
  have "k = Node_new" if "node_at pre Node_new = Some k" for pre and k :: "'a node"
    using that by (cases pre) (auto simp: Node_new_def)
  then show ?thesis by (fastforce simp: flags_ok_def Node_new_def)
qed

lemma set_descend:
  "c \<in> set (descend seg f cs) \<Longrightarrow> c \<in> set cs \<or> (\<exists>d. c = f d \<and> (d \<in> set cs \<or> d = new_child seg))"
  by (induction cs) (auto split: if_splits)

lemma flags_ok_add_at:
  assumes "flags_ok n" and "\<forall>s \<in> set segs. s \<noteq> []"
  shows "flags_ok (add_at m h segs n)"
  unfolding flags_ok_def
proof (intro allI impI ballI)
  fix pre k c
  assume k: "node_at pre (add_at m h segs n) = Some k" and c: "c \<in> set (children k)"
  let ?k = "case node_at pre n of Some k \<Rightarrow> k | None \<Rightarrow> new_child (last pre)"
  have old: "\<forall>d \<in> set (children ?k). flag_ok d"
    using assms(1) by (auto simp: flags_ok_def split: option.splits)
  show "flag_ok c"
  proof (cases "prefix pre segs \<and> pre \<noteq> segs")
    case True
    then have "length pre < length segs"
      by (metis prefix_length_less prefix_order.less_le)
    then have "flag_ok (new_child (segs ! length pre) :: 'a node)"
      using assms(2) by (intro flag_ok_new_child) simp
    then show ?thesis
      using True k c old set_descend [of c "segs ! length pre"]
      by (fastforce simp: node_at_add_at drop_prefix_Cons flag_ok_def)
  next
    case False
    then show ?thesis
      using k c old assms(1) by (auto simp: node_at_add_at flags_ok_def split: if_splits)
  qed
qed

lemma split_path_nonempty: "\<forall>s \<in> set (split_path p). s \<noteq> []"
  by (auto simp: split_path_def)

section \<open>Registrations as the specification\<close>

type_synonym 'h registration = "string \<times> string \<times> 'h"

abbreviation reg_segs :: "'h registration \<Rightarrow> string list" where
  "reg_segs r \<equiv> split_path (fst (snd r))"

text \<open>The segments that can follow a prefix, in the order of their first registration, and the
  handlers of a pattern: the last registration for a method wins.\<close>

definition spec_kids :: "'h registration list \<Rightarrow> string list \<Rightarrow> string list" where
  "spec_kids rs pre = foldl (\<lambda>ks r. kids_after (reg_segs r) pre ks) [] rs"

definition spec_handlers :: "'h registration list \<Rightarrow> string list \<Rightarrow> (string \<rightharpoonup> 'h)" where
  "spec_handlers rs pre = map_of (rev (map (\<lambda>r. (fst r, snd (snd r))) (filter (\<lambda>r. reg_segs r = pre) rs)))"

fun spec_walk :: "(string list \<Rightarrow> string list) \<Rightarrow> string list \<Rightarrow> string list \<Rightarrow> string list option" where
  "spec_walk K pre [] = Some pre"
| "spec_walk K pre (seg # segs) =
     (if seg \<in> set (K pre) then spec_walk K (pre @ [seg]) segs
      else case List.find is_param_seg (K pre) of
             Some c \<Rightarrow> spec_walk K (pre @ [c]) segs
           | None \<Rightarrow> (case List.find is_wild_seg (K pre) of
                         Some c \<Rightarrow> Some (pre @ [c])
                       | None \<Rightarrow> None))"

definition spec_route ::
  "'h registration list \<Rightarrow> http_method \<Rightarrow> string \<Rightarrow> 'h option \<times> http_response option" where
  "spec_route rs m p =
     (if rs = [] then (None, None)
      else case spec_walk (spec_kids rs) [] (split_path p) of
             None \<Rightarrow> (None, Some (not_found (''404 Not Found: '' @ p)))
           | Some pat \<Rightarrow>
               (case spec_handlers rs pat (method_str m) of
                  Some h \<Rightarrow> (Some h, None)
                | None \<Rightarrow>
                    (None, Some (not_found (if \<exists>r \<in> set rs. reg_segs r = pat then ''405 Method Not Allowed''
                                            else ''404 Not Found: '' @ p)))))"

text \<open>The interface between the trie and the specification.\<close>

locale route_store =
  fixes empty :: 's and insert :: "string \<Rightarrow> 'h \<Rightarrow> string list \<Rightarrow> 's \<Rightarrow> 's"
    and succs :: "'s \<Rightarrow> string list \<Rightarrow> string list" and entries :: "'s \<Rightarrow> string list \<Rightarrow> (string \<rightharpoonup> 'h)"
    and ok :: "'s \<Rightarrow> bool"
  assumes succs_empty: "succs empty pre = []"
    and entries_empty: "entries empty pre = Map.empty"
    and ok_empty: "ok empty"
    and succs_insert: "succs (insert m h segs s) pre = kids_after segs pre (succs s pre)"
    and entries_insert:
      "entries (insert m h segs s) pre = (if pre = segs then (entries s pre)(m \<mapsto> h) else entries s pre)"
    and ok_insert: "ok s \<Longrightarrow> \<forall>t \<in> set segs. t \<noteq> [] \<Longrightarrow> ok (insert m h segs s)"
begin

definition insert_all :: "'s \<Rightarrow> 'h registration list \<Rightarrow> 's" where
  "insert_all s rs = foldl (\<lambda>s r. insert (fst r) (snd (snd r)) (reg_segs r) s) s rs"

lemma insert_all_snoc:
  "insert_all s (rs @ [r]) = insert (fst r) (snd (snd r)) (reg_segs r) (insert_all s rs)"
  by (simp add: insert_all_def)

lemma succs_all: "succs (insert_all empty rs) pre = spec_kids rs pre"
  by (induction rs rule: rev_induct)
    (simp add: insert_all_def succs_empty spec_kids_def, simp add: insert_all_snoc succs_insert spec_kids_def)

lemma entries_all: "entries (insert_all empty rs) pre = spec_handlers rs pre"
  by (induction rs rule: rev_induct)
    (simp add: insert_all_def entries_empty spec_handlers_def, auto simp: insert_all_snoc entries_insert spec_handlers_def fun_eq_iff)

lemma ok_all: "ok (insert_all empty rs)"
  by (induction rs rule: rev_induct)
    (simp add: insert_all_def ok_empty, simp add: insert_all_snoc ok_insert split_path_nonempty)

end

interpretation trie: route_store Node_new add_at kids handlers_at flags_ok
proof unfold_locales
  show "kids Node_new pre = []" for pre :: "string list"
    by (cases pre) (simp_all add: kids_def Node_new_def)
  show "handlers_at Node_new pre = Map.empty" for pre :: "string list"
    by (cases pre) (simp_all add: handlers_at_def Node_new_def)
qed (simp_all add: flags_ok_new kids_add_at handlers_at_add_at flags_ok_add_at)

section \<open>The walk refines the specification\<close>

lemma fst_scan: "fst (scan seg cs pm wm) = child_named seg cs"
  by (induction cs arbitrary: pm wm) auto

lemma snd_scan:
  "seg \<notin> set (map segment cs) \<Longrightarrow>
   snd (scan seg cs pm wm) =
   (case pm of Some k \<Rightarrow> Some k | None \<Rightarrow> List.find is_param cs,
    case wm of Some k \<Rightarrow> Some k | None \<Rightarrow> List.find is_wildcard cs)"
  by (induction cs arbitrary: pm wm) (auto split: option.splits)

lemma node_at_snoc:
  "node_at pre n = Some k \<Longrightarrow> node_at (pre @ [s]) n = child_named s (children k)"
  by (induction pre arbitrary: n) (auto split: option.splits)

text \<open>The first child with a flag is the one its segment names.\<close>

lemma find_flag:
  assumes "\<forall>c \<in> set cs. P c = Q (segment c)"
  shows "List.find Q (map segment cs) = map_option segment (List.find P cs)"
    and "List.find P cs = Some c \<Longrightarrow> child_named (segment c) cs = Some c"
proof -
  have Q: "Q (segment c)" if "List.find P cs = Some c" "\<forall>c \<in> set cs. P c = Q (segment c)" for cs c
    using that by (auto simp: find_Some_iff)
  show "List.find Q (map segment cs) = map_option segment (List.find P cs)"
    and "List.find P cs = Some c \<Longrightarrow> child_named (segment c) cs = Some c"
    using assms Q by (induction cs) (auto split: if_splits)
qed

lemma walk_spec:
  assumes "flags_ok rt"
  shows "node_at pre rt = Some n \<Longrightarrow>
    (case spec_walk (kids rt) pre segs of
       None \<Rightarrow> walk n segs ps = None
     | Some pat \<Rightarrow> \<exists>k qs. walk n segs ps = Some (k, qs) \<and> node_at pat rt = Some k)"
proof (induction segs arbitrary: pre n ps)
  case (Cons seg segs)
  let ?cs = "children n"
  have K: "kids rt pre = map segment ?cs"
    using Cons.prems by (simp add: kids_def)
  have P: "\<forall>c \<in> set ?cs. is_param c = is_param_seg (segment c)"
    and W: "\<forall>c \<in> set ?cs. is_wildcard c = is_wild_seg (segment c)"
    using assms Cons.prems by (auto simp: flags_ok_def flag_ok_def)
  note sn = node_at_snoc [OF Cons.prems]
  show ?case
  proof (cases "child_named seg ?cs")
    case (Some c)
    then have "seg \<in> set (kids rt pre)"
      using child_named_Some [OF Some] by (auto simp: K)
    moreover have "fst (scan seg ?cs None None) = Some c"
      using Some by (simp add: fst_scan)
    then have "walk n (seg # segs) ps = walk c segs ps"
      by (cases "scan seg ?cs None None") simp
    ultimately show ?thesis
      using Cons.IH [of "pre @ [seg]" c ps] sn [of seg] Some
      by (auto simp del: walk.simps split: option.splits)
  next
    case None
    then have no: "seg \<notin> set (map segment ?cs)"
      unfolding child_named_None .
    have scan: "scan seg ?cs None None = (None, List.find is_param ?cs, List.find is_wildcard ?cs)"
      using None by (simp add: prod_eq_iff fst_scan snd_scan [OF no])
    show ?thesis
    proof (cases "List.find is_param ?cs")
      case (Some c)
      have "node_at (pre @ [segment c]) rt = Some c"
        using find_flag(2) [OF P Some] sn by simp
      note IH = Cons.IH [OF this]
      obtain qs where "walk n (seg # segs) ps = walk c segs qs"
        using Some by (simp add: scan)
      with IH [of qs] show ?thesis
        using no Some find_flag(1) [OF P] by (auto simp: K simp del: walk.simps split: option.splits)
    next
      case none: None
      then show ?thesis
        using no sn find_flag [OF P] find_flag [OF W]
        by (cases "List.find is_wildcard ?cs") (simp_all add: K scan)
    qed
  qed
qed simp

definition routes :: "'h registration list \<Rightarrow> 'h router" where
  "routes rs = foldl (\<lambda>rt r. add rt (fst r) (fst (snd r)) (snd (snd r))) Router_new rs"

lemma root_routes: "root (routes rs) = (if rs = [] then None else Some (trie.insert_all Node_new rs))"
proof (induction rs rule: rev_induct)
  case (snoc r rs)
  have "routes (rs @ [r]) = add (routes rs) (fst r) (fst (snd r)) (snd (snd r))"
    by (simp add: routes_def)
  with snoc show ?case
    by (auto simp: add_def trie.insert_all_snoc Let_def trie.insert_all_def)
qed (simp add: routes_def Router_new_def)

lemma handlers_nonempty:
  assumes "node_at pat (trie.insert_all Node_new rs) = Some k"
  shows "handlers k \<noteq> [] \<longleftrightarrow> (\<exists>r \<in> set rs. reg_segs r = pat)"
    and "map_of (handlers k) = spec_handlers rs pat"
proof -
  show h: "map_of (handlers k) = spec_handlers rs pat"
    using trie.entries_all [of rs pat] assms by (simp add: handlers_at_def)
  have "handlers k \<noteq> [] \<longleftrightarrow> map_of (handlers k) \<noteq> Map.empty"
    by simp
  also have "\<dots> \<longleftrightarrow> filter (\<lambda>r. reg_segs r = pat) rs \<noteq> []"
    unfolding h spec_handlers_def by simp
  finally show "handlers k \<noteq> [] \<longleftrightarrow> (\<exists>r \<in> set rs. reg_segs r = pat)"
    by (auto simp: filter_empty_conv)
qed

lemma route_routes:
  "route (routes rs) req (Some resp) =
   (case spec_route rs (req_method req) (path req) of
      (h, None) \<Rightarrow> (h, Some resp)
    | (h, Some r) \<Rightarrow> (h, Some r))"
proof (cases "rs = []")
  case True
  then show ?thesis by (simp add: route_def root_routes spec_route_def)
next
  case False
  let ?n = "trie.insert_all Node_new rs" and ?segs = "split_path (path req)"
  have K: "kids ?n = spec_kids rs"
    by (simp add: fun_eq_iff trie.succs_all)
  have r: "root (routes rs) = Some ?n"
    using False by (simp add: root_routes)
  from walk_spec [OF trie.ok_all [of rs], of "[]" ?n ?segs Map.empty] have
    w: "case spec_walk (spec_kids rs) [] ?segs of
       None \<Rightarrow> walk ?n ?segs Map.empty = None
     | Some pat \<Rightarrow> \<exists>k qs. walk ?n ?segs Map.empty = Some (k, qs) \<and> node_at pat ?n = Some k"
    by (simp add: K)
  show ?thesis
  proof (cases "spec_walk (spec_kids rs) [] ?segs")
    case None
    with w False show ?thesis
      by (simp add: route_def r spec_route_def)
  next
    case (Some pat)
    with w obtain k qs where k: "walk ?n ?segs Map.empty = Some (k, qs)" "node_at pat ?n = Some k"
      by auto
    show ?thesis
      using False Some k(1) handlers_nonempty [OF k(2)]
      by (auto simp: route_def r spec_route_def split: option.splits)
  qed
qed

section \<open>Consequences of the specification\<close>

lemma set_kids_after:
  "set (kids_after segs pre ks) = set ks \<union> (if prefix pre segs \<and> pre \<noteq> segs then {segs ! length pre} else {})"
  by (auto simp: kids_after_def)

lemma spec_kids_memI:
  "r \<in> set rs \<Longrightarrow> prefix pre (reg_segs r) \<Longrightarrow> pre \<noteq> reg_segs r \<Longrightarrow>
   reg_segs r ! length pre \<in> set (spec_kids rs pre)"
proof (induction rs rule: rev_induct)
  case (snoc q rs)
  have "spec_kids (rs @ [q]) pre = kids_after (reg_segs q) pre (spec_kids rs pre)"
    by (simp add: spec_kids_def)
  with snoc show ?case by (auto simp: set_kids_after)
qed simp

lemma spec_walk_exact:
  assumes "r \<in> set rs"
  shows "reg_segs r = pre @ segs \<Longrightarrow> spec_walk (spec_kids rs) pre segs = Some (reg_segs r)"
proof (induction segs arbitrary: pre)
  case (Cons s ss)
  have "s \<in> set (spec_kids rs pre)"
    using spec_kids_memI [OF assms, of pre] Cons.prems by simp
  then show ?case using Cons by simp
qed simp

text \<open>A pattern matches a path: equal segments, parameters for any segment, a last wildcard
  for one or more.\<close>

fun pat_match :: "string list \<Rightarrow> string list \<Rightarrow> bool" where
  "pat_match [] [] = True"
| "pat_match (p # ps) (s # ss) =
     ((p = s \<or> is_param_seg p) \<and> pat_match ps ss \<or> is_wild_seg p \<and> ps = [])"
| "pat_match _ _ = False"

lemma spec_walk_match:
  "spec_walk K pre segs = Some pat \<Longrightarrow> \<exists>q. pat = pre @ q \<and> pat_match q segs"
proof (induction segs arbitrary: pre)
  case (Cons s ss)
  consider (exact) "s \<in> set (K pre)"
    | (param) c where "s \<notin> set (K pre)" "List.find is_param_seg (K pre) = Some c"
    | (wild) c where "s \<notin> set (K pre)" "List.find is_param_seg (K pre) = None"
        "List.find is_wild_seg (K pre) = Some c"
    using Cons.prems by (cases "s \<in> set (K pre)"; cases "List.find is_param_seg (K pre)";
      cases "List.find is_wild_seg (K pre)") auto
  then show ?case
  proof cases
    case exact
    with Cons.prems Cons.IH [of "pre @ [s]"] obtain q where "pat = pre @ s # q" "pat_match q ss" by auto
    then show ?thesis by (intro exI [of _ "s # q"]) simp
  next
    case param
    with Cons.prems Cons.IH [of "pre @ [c]"] obtain q where "pat = pre @ c # q" "pat_match q ss" by auto
    moreover have "is_param_seg c" using param by (auto simp: find_Some_iff)
    ultimately show ?thesis by (intro exI [of _ "c # q"]) simp
  next
    case wild
    then have "is_wild_seg c" by (auto simp: find_Some_iff)
    with wild Cons.prems show ?thesis by (intro exI [of _ "[c]"]) simp
  qed
qed simp

lemma spec_handlers_Some:
  "spec_handlers rs pat m = Some h \<Longrightarrow> \<exists>r \<in> set rs. reg_segs r = pat \<and> fst r = m \<and> snd (snd r) = h"
  by (auto simp: spec_handlers_def dest!: map_of_SomeD)

lemma spec_handlers_last:
  assumes "reg_segs r = pat" and "\<forall>q \<in> set rs2. reg_segs q = pat \<longrightarrow> fst q \<noteq> fst r"
  shows "spec_handlers (rs1 @ r # rs2) pat (fst r) = Some (snd (snd r))"
proof -
  have "map_of (rev (map (\<lambda>r. (fst r, snd (snd r))) (filter (\<lambda>r. reg_segs r = pat) rs2))) (fst r) = None"
    using assms(2) by (force simp: map_of_eq_None_iff)
  then show ?thesis
    using assms(1) by (simp add: spec_handlers_def map_add_def)
qed

lemma spec_kids_single:
  "spec_kids [r] pre = (if prefix pre (reg_segs r) \<and> pre \<noteq> reg_segs r then [reg_segs r ! length pre] else [])"
  by (simp add: spec_kids_def kids_after_def)

lemma spec_walk_single:
  "reg_segs r = pre @ ps \<Longrightarrow> \<forall>s \<in> set segs. \<not> is_wild_seg s \<Longrightarrow>
   spec_walk (spec_kids [r]) pre segs = Some (reg_segs r) \<longleftrightarrow> pat_match ps segs"
proof (induction segs arbitrary: pre ps)
  case Nil
  then show ?case by (cases ps) auto
next
  case (Cons s ss)
  show ?case
  proof (cases ps)
    case Nil
    then show ?thesis using Cons.prems by (simp add: spec_kids_single)
  next
    case ps: (Cons p qs)
    have K: "spec_kids [r] pre = [p]"
      using Cons.prems ps by (simp add: spec_kids_single nth_append)
    have IH: "spec_walk (spec_kids [r]) (pre @ [p]) ss = Some (reg_segs r) \<longleftrightarrow> pat_match qs ss"
      by (rule Cons.IH) (use Cons.prems ps in simp_all)
    have "\<not> (is_param_seg p \<and> is_wild_seg p)"
      by (auto simp: is_param_seg_def is_wild_seg_def)
    then show ?thesis
      using IH Cons.prems by (auto simp: ps K)
  qed
qed

lemma method_str_inject: "method_str m = method_str m' \<longleftrightarrow> m = m'"
  using method_from_str_method_str by metis

section \<open>Properties\<close>

text \<open>C7. The router implements its table. For every list of registrations and every request, \<open>route\<close> on
  the trie built by \<open>add\<close> gives the handler, or the error response, that the
  specification computes from the list alone: per segment an exact successor, else the
  parameter registered first, else the wildcard registered first; the last registration for a
  pattern and method wins.\<close>

theorem route_refines_table:
  "route (routes rs) req (Some resp) =
   (case spec_route rs (req_method req) (path req) of
      (h, None) \<Rightarrow> (h, Some resp)
    | (h, Some r) \<Rightarrow> (h, Some r))"
  by (rule route_routes)

text \<open>C20. A registered route is found: a request whose path has the segments of the pattern and
  whose method is the registered one gets the handler registered last for them, however many
  other routes there are, and the response is left alone.\<close>

theorem route_finds_registered:
  assumes "rs = rs1 @ (method_str (req_method req), p, h) # rs2"
    and "\<forall>q \<in> set rs2. reg_segs q = split_path p \<longrightarrow> fst q \<noteq> method_str (req_method req)"
    and "split_path (path req) = split_path p"
  shows "route (routes rs) req (Some resp) = (Some h, Some resp)"
proof -
  let ?r = "(method_str (req_method req), p, h)"
  have "spec_walk (spec_kids rs) [] (split_path (path req)) = Some (split_path p)"
    using spec_walk_exact [of ?r rs "[]" "split_path p"] assms by simp
  moreover have "spec_handlers rs (split_path p) (method_str (req_method req)) = Some h"
    using spec_handlers_last [of ?r "split_path p" rs2 rs1] assms by simp
  ultimately show ?thesis
    using assms(1) by (simp add: route_routes spec_route_def)
qed

definition GET_request :: "string \<Rightarrow> http_request" where
  "GET_request p = HttpRequest_new\<lparr>req_method := GET, path := p\<rparr>"

lemma GET_request_simps [simp]: "req_method (GET_request p) = GET" "path (GET_request p) = p"
  by (simp_all add: GET_request_def)

theorem route_finds_registered_witness:
  "route (routes [(''GET'', ''/:any'', 1), (''GET'', ''/users//list'', 2 :: nat), (''POST'', ''/users/list'', 3)])
     (GET_request ''/users/list/'') (Some HttpResponse_new) = (Some 2, Some HttpResponse_new)"
proof -
  have "split_path ''/users//list'' = [''users'', ''list'']" "split_path ''/users/list/'' = [''users'', ''list'']"
    by code_simp+
  then show ?thesis
    using route_finds_registered [of _ "[(''GET'', ''/:any'', 1 :: nat)]" "GET_request ''/users/list/''"
        "''/users//list''" 2 "[(''POST'', ''/users/list'', 3)]" HttpResponse_new]
    by simp
qed

text \<open>C24. A handler that is returned was registered for the request's method, with a pattern that
  matches the request's path.\<close>

theorem route_sound:
  assumes "route (routes rs) req (Some resp) = (Some h, resp')"
  shows "resp' = Some resp \<and>
    (\<exists>r \<in> set rs. fst r = method_str (req_method req) \<and> snd (snd r) = h \<and>
      pat_match (split_path (fst (snd r))) (split_path (path req)))"
proof -
  let ?m = "method_str (req_method req)" and ?segs = "split_path (path req)"
  obtain pat where pat: "spec_walk (spec_kids rs) [] ?segs = Some pat"
    "spec_handlers rs pat ?m = Some h" "resp' = Some resp"
    using assms by (auto simp: route_routes spec_route_def split: if_splits option.splits)
  have "pat_match pat ?segs"
    using spec_walk_match [OF pat(1)] by simp
  then show ?thesis
    using spec_handlers_Some [OF pat(2)] pat(3) by auto
qed

theorem route_sound_witness:
  "\<exists>r \<in> set [(''GET'', ''/users/:id'', 5 :: nat)]. fst r = ''GET'' \<and> snd (snd r) = 5 \<and>
     pat_match (split_path (fst (snd r))) (split_path ''/users/7'')"
proof -
  have "route (routes [(''GET'', ''/users/:id'', 5 :: nat)]) (GET_request ''/users/7'') (Some HttpResponse_new) =
      (Some 5, Some HttpResponse_new)"
    by (simp add: routes_def add_def Router_new_def Node_new_def route_def split_path_def getlines.simps
        str_find.simps new_child_def)
  from route_sound [OF this] show ?thesis by simp
qed

text \<open>With a single registration the router decides exactly by pattern matching: the handler is
  returned if and only if the method is the registered one and the pattern matches the path
  (no path segment starting with an asterisk).\<close>

lemma single_route_complete:
  assumes "\<forall>s \<in> set (split_path (path req)). \<not> is_wild_seg s"
  shows "fst (route (routes [(method_str m, p, h)]) req (Some resp)) = Some h \<longleftrightarrow>
    req_method req = m \<and> pat_match (split_path p) (split_path (path req))"
proof -
  let ?r = "(method_str m, p, h)" and ?segs = "split_path (path req)"
  have w: "spec_walk (spec_kids [?r]) [] ?segs = Some (split_path p) \<longleftrightarrow> pat_match (split_path p) ?segs"
    using spec_walk_single [of ?r "[]" "split_path p" ?segs] assms by simp
  have "spec_handlers [?r] pat (method_str m') = (if pat = split_path p \<and> m' = m then Some h else None)"
    for pat m'
    by (auto simp: spec_handlers_def method_str_inject)
  then show ?thesis
    using w by (auto simp: route_routes spec_route_def split: option.splits prod.splits)
qed

text \<open>The router does not backtrack. Once the first segment has an exact successor, a path that
  cannot be continued below it gets 404, also when a parameter route for it is registered.\<close>

lemma route_no_backtracking:
  assumes "rs \<noteq> []" and "split_path (path req) = s # t # ts" and "s \<in> set (spec_kids rs [])"
    and "\<forall>k \<in> set (spec_kids rs [s]). k \<noteq> t \<and> \<not> is_param_seg k \<and> \<not> is_wild_seg k"
  shows "route (routes rs) req (Some resp) = (None, Some (not_found (''404 Not Found: '' @ path req)))"
proof -
  have "List.find is_param_seg (spec_kids rs [s]) = None" "List.find is_wild_seg (spec_kids rs [s]) = None"
    using assms(4) by (auto simp: find_None_iff)
  then have "spec_walk (spec_kids rs) [] (split_path (path req)) = None"
    using assms(2-4) by auto
  then show ?thesis
    using assms(1) by (simp add: route_routes spec_route_def)
qed

text \<open>A registered path requested with a method it has no handler for is answered with the text
  of a 405 but the status 404.\<close>

lemma route_method_not_allowed:
  assumes "r \<in> set rs" and "split_path (path req) = reg_segs r"
    and "\<forall>q \<in> set rs. reg_segs q = reg_segs r \<longrightarrow> fst q \<noteq> method_str (req_method req)"
  shows "\<exists>resp'. route (routes rs) req (Some resp) = (None, Some resp') \<and>
    status_code resp' = 404 \<and> resp_body resp' = ''405 Method Not Allowed''"
proof -
  have "spec_walk (spec_kids rs) [] (split_path (path req)) = Some (reg_segs r)"
    using spec_walk_exact [OF assms(1), of "[]" "reg_segs r"] assms(2) by simp
  moreover have "spec_handlers rs (reg_segs r) (method_str (req_method req)) = None"
    using assms(3) spec_handlers_Some [of rs "reg_segs r"] by (metis option.exhaust)
  moreover have "\<exists>q \<in> set rs. reg_segs q = reg_segs r"
    using assms(1) by blast
  ultimately have "route (routes rs) req (Some resp) = (None, Some (not_found ''405 Method Not Allowed''))"
    using assms(1) by (auto simp: route_routes spec_route_def)
  then show ?thesis
    by (simp add: not_found_def builder_defs Let_def)
qed

end
