(* ===== verification/Net_Address.thy ===== *)
theory Net_Address
  imports Cxx_Std
begin

unbundle bit_operations_syntax

text \<open>
  Socket addresses (\<open>src/hound/src/io/address.h\<close>, \<open>address.cpp\<close>). An address is what its \<open>sockaddr_storage\<close> holds, its family, its port in network
  byte order, its address bytes and, for IPv6, flow information and scope (0 for IPv4; the padding of \<open>sockaddr_in\<close> is never read), and the length of the structure. The conversion functions \<open>inet_pton\<close>, \<open>inet_ntop\<close> and
  \<open>getaddrinfo\<close> of the system are a record of parameters. C strings are strings without the
  terminating zero.
\<close>

section \<open>Addresses\<close>

type_synonym byte = "8 word"

datatype family = AF_UNSPEC | AF_INET | AF_INET6 | AF_OTHER

record address =
  addr_family :: family
  net_port :: "16 word"
  addr_bytes :: "byte list"
  flowinfo :: "32 word"
  scope_id :: "32 word"
  addr_len :: nat

definition Address_new :: address where
  "Address_new = \<lparr>addr_family = AF_UNSPEC, net_port = 0, addr_bytes = [], flowinfo = 0, scope_id = 0, addr_len = 0\<rparr>"

record resolver =
  inet_pton4 :: "string \<Rightarrow> byte list option"
  inet_pton6 :: "string \<Rightarrow> byte list option"
  inet_ntop4 :: "byte list \<Rightarrow> string"
  inet_ntop6 :: "byte list \<Rightarrow> string"
  getaddrinfo :: "string \<Rightarrow> string \<Rightarrow> address option"

text \<open>\<open>htons\<close> and \<open>ntohs\<close> on a little-endian machine.\<close>

definition htons :: "16 word \<Rightarrow> 16 word" where
  "htons x = push_bit 8 x OR drop_bit 8 x"

definition is_valid :: "address \<Rightarrow> bool" where
  "is_valid a \<longleftrightarrow> addr_family a = AF_INET \<or> addr_family a = AF_INET6"

definition port :: "address \<Rightarrow> 16 word" where
  "port a = (if addr_family a = AF_INET then htons (net_port a)
             else if addr_family a = AF_INET6 then htons (net_port a) else 0)"

definition ip :: "resolver \<Rightarrow> address \<Rightarrow> string" where
  "ip r a = (if addr_family a = AF_INET then inet_ntop4 r (addr_bytes a)
             else if addr_family a = AF_INET6 then inet_ntop6 r (addr_bytes a) else [])"

definition address_to_string :: "resolver \<Rightarrow> address \<Rightarrow> string" where
  "address_to_string r a =
     (if \<not> is_valid a then ''(invalid)''
      else (if addr_family a = AF_INET6 then ''['' @ ip r a @ '']'' else ip r a) @ '':'' @ to_string (uint (port a)))"

definition strip_brackets :: "string \<Rightarrow> string" where
  "strip_brackets host =
     (if length host > 2 \<and> hd host = CHR ''['' \<and> last host = CHR '']'' then substr 1 (length host - 2) host else host)"

definition resolve :: "resolver \<Rightarrow> string \<Rightarrow> address" where
  "resolve r hp =
     (case str_rfind (CHR '':'') hp of
        None \<Rightarrow> Address_new
      | Some pos \<Rightarrow>
          (let host = strip_brackets (take pos hp);
               port_str = drop (pos + 1) hp
           in case getaddrinfo r host port_str of
                None \<Rightarrow> Address_new
              | Some addr \<Rightarrow> addr))"

definition parse_address :: "resolver \<Rightarrow> string \<Rightarrow> 16 word \<Rightarrow> address" where
  "parse_address r s p =
     (case inet_pton4 r s of
        Some b \<Rightarrow> \<lparr>addr_family = AF_INET, net_port = htons p, addr_bytes = b, flowinfo = 0, scope_id = 0, addr_len = 16\<rparr>
      | None \<Rightarrow>
          (case inet_pton6 r s of
             Some b \<Rightarrow> \<lparr>addr_family = AF_INET6, net_port = htons p, addr_bytes = b, flowinfo = 0, scope_id = 0, addr_len = 28\<rparr>
           | None \<Rightarrow> resolve r (s @ '':'' @ to_string (uint p))))"

text \<open>All bytes of a \<open>sockaddr\<close> are copied, flow information and scope included.\<close>

definition from_sockaddr :: "address \<Rightarrow> nat \<Rightarrow> address" where
  "from_sockaddr sa len = sa\<lparr>addr_len := len\<rparr>"

definition any_ipv4 :: "resolver \<Rightarrow> 16 word \<Rightarrow> address" where
  "any_ipv4 r p = parse_address r ''0.0.0.0'' p"

definition loopback_v4 :: "resolver \<Rightarrow> 16 word \<Rightarrow> address" where
  "loopback_v4 r p = parse_address r ''127.0.0.1'' p"

definition any_ipv6 :: "resolver \<Rightarrow> 16 word \<Rightarrow> address" where
  "any_ipv6 r p = parse_address r ''::'' p"

definition loopback_v6 :: "resolver \<Rightarrow> 16 word \<Rightarrow> address" where
  "loopback_v6 r p = parse_address r ''::1'' p"

section \<open>Splitting and byte order\<close>

lemma htons_htons [simp]: "htons (htons x) = x"
  by (rule bit_word_eqI) (auto simp: htons_def bit_simps)

lemma str_rfind_last: "c \<notin> set b \<Longrightarrow> str_rfind c (a @ c # b) = Some (length a)"
  by (simp add: str_rfind_def)

lemma resolve_split:
  assumes "CHR '':'' \<notin> set p"
  shows "resolve r (h @ '':'' @ p) =
    (case getaddrinfo r (strip_brackets h) p of None \<Rightarrow> Address_new | Some addr \<Rightarrow> addr)"
  using str_rfind_last [OF assms, of h] by (simp add: resolve_def Let_def)

lemma strip_brackets_bracketed: "h \<noteq> [] \<Longrightarrow> strip_brackets (''['' @ h @ '']'') = h"
  by (simp add: strip_brackets_def substr_def)

lemma port_text: "CHR '':'' \<notin> set (to_string (uint p))"
proof -
  have "uint p = int (unat p)" by simp
  then have "to_string (uint p) = dec_string (unat p)" by (metis to_string_nat)
  moreover have "\<not> is_digit 10 (CHR '':'')" by code_simp
  ultimately show ?thesis using dec_string_digits by metis
qed

section \<open>Properties\<close>

text \<open>The storage of a valid address: 4 bytes in a \<open>sockaddr_in\<close>, 16 in a \<open>sockaddr_in6\<close>.\<close>

definition address_wf :: "address \<Rightarrow> bool" where
  "address_wf a \<longleftrightarrow>
     addr_family a = AF_INET \<and> length (addr_bytes a) = 4 \<and> flowinfo a = 0 \<and> scope_id a = 0 \<and> addr_len a = 16 \<or>
     addr_family a = AF_INET6 \<and> length (addr_bytes a) = 16 \<and> addr_len a = 28"

text \<open>What the manual pages say of the system functions. The text \<open>inet_ntop\<close> gives for the bytes of the address converts back by \<open>inet_pton\<close>; it is
  not empty, for IPv4 it does not start with a bracket, and for IPv6 it is not one of IPv4.
  \<open>getaddrinfo\<close> of a host that is a numeric address, and of a decimal port, gives that address and port, without flow information
  or scope.\<close>

definition ntop_agrees :: "resolver \<Rightarrow> address \<Rightarrow> bool" where
  "ntop_agrees r a \<longleftrightarrow>
     (addr_family a = AF_INET \<longrightarrow> inet_pton4 r (inet_ntop4 r (addr_bytes a)) = Some (addr_bytes a) \<and>
        inet_ntop4 r (addr_bytes a) \<noteq> [] \<and> hd (inet_ntop4 r (addr_bytes a)) \<noteq> CHR ''['') \<and>
     (addr_family a = AF_INET6 \<longrightarrow> inet_pton6 r (inet_ntop6 r (addr_bytes a)) = Some (addr_bytes a) \<and>
        inet_ntop6 r (addr_bytes a) \<noteq> [] \<and> inet_pton4 r (inet_ntop6 r (addr_bytes a)) = None)"

definition numeric_hosts :: "resolver \<Rightarrow> bool" where
  "numeric_hosts r \<longleftrightarrow>
     (\<forall>h b p. inet_pton4 r h = Some b \<longrightarrow> getaddrinfo r h (to_string (uint p)) =
        Some \<lparr>addr_family = AF_INET, net_port = htons p, addr_bytes = b, flowinfo = 0, scope_id = 0, addr_len = 16\<rparr>) \<and>
     (\<forall>h b p. inet_pton4 r h = None \<and> inet_pton6 r h = Some b \<longrightarrow> getaddrinfo r h (to_string (uint p)) =
        Some \<lparr>addr_family = AF_INET6, net_port = htons p, addr_bytes = b, flowinfo = 0, scope_id = 0, addr_len = 28\<rparr>)"

lemma host_of_text:
  assumes "is_valid a" and "ntop_agrees r a"
  shows "strip_brackets (if addr_family a = AF_INET6 then ''['' @ ip r a @ '']'' else ip r a) = ip r a"
proof (cases "addr_family a = AF_INET6")
  case True
  then have "ip r a \<noteq> []" using assms(2) by (simp add: ntop_agrees_def ip_def)
  then show ?thesis using True by (simp only: strip_brackets_bracketed if_True simp_thms)
next
  case False
  then have "hd (ip r a) \<noteq> CHR ''[''"
    using assms by (auto simp: ntop_agrees_def ip_def is_valid_def)
  then show ?thesis using False by (simp add: strip_brackets_def)
qed

text \<open>\<open>parse\<close> and \<open>resolve\<close> agree on a numeric host: whatever path is taken, the result is the same address.\<close>

lemma resolve_numeric:
  assumes "numeric_hosts r" and "inet_pton4 r h \<noteq> None \<or> inet_pton6 r h \<noteq> None"
  shows "getaddrinfo r h (to_string (uint p)) = Some (parse_address r h p)"
  using assms by (auto simp: numeric_hosts_def parse_address_def split: option.splits)

lemma parse_of_ip:
  assumes "address_wf a" and "ntop_agrees r a"
  shows "parse_address r (ip r a) (port a) = a\<lparr>flowinfo := 0, scope_id := 0\<rparr>"
    and "inet_pton4 r (ip r a) \<noteq> None \<or> inet_pton6 r (ip r a) \<noteq> None"
  using assms by (cases a; auto simp: address_wf_def ntop_agrees_def parse_address_def ip_def port_def)+


text \<open>A link-local address on the interface with number 2, and a resolver that knows its text.\<close>

definition link_local :: address where
  "link_local = \<lparr>addr_family = AF_INET6, net_port = htons 80, addr_bytes = [0xfe, 0x80] @ replicate 13 0 @ [1], flowinfo = 0, scope_id = 2, addr_len = 28\<rparr>"

definition local_resolver :: resolver where
  "local_resolver = \<lparr>inet_pton4 = (\<lambda>s. None), inet_pton6 = (\<lambda>s. if s = ''fe80::1'' then Some (addr_bytes link_local) else None),
     inet_ntop4 = (\<lambda>b. []), inet_ntop6 = (\<lambda>b. ''fe80::1''),
     getaddrinfo = (\<lambda>h p. if h = ''fe80::1'' then Some (link_local\<lparr>scope_id := 0, net_port := htons (ucast (strtoul 10 p))\<rparr>) else None)\<rparr>"

lemma strtoul_port: "ucast (strtoul 10 (to_string (uint p))) = (p :: 16 word)"
proof -
  have "unat p < 2 ^ 16" using unsigned_less [of p, where 'a = nat] by simp
  then have n: "unat p < 2 ^ 64" by simp
  have "uint p = int (unat p)" by simp
  then have "to_string (uint p) = dec_string (unat p)" by (metis to_string_nat)
  then have "strtoul 10 (to_string (uint p)) = ucast p"
    using strtoul_dec_string [OF n] by simp
  moreover have "ucast (ucast p :: size_t) = p"
    by (rule bit_word_eqI) (simp add: bit_simps)
  ultimately show ?thesis by simp
qed


end
