(* ===== verification/Socket_Io.thy ===== *)
theory Socket_Io
  imports Net_Address
begin

text \<open>
  Results (\<open>src/hound/src/util/result.h\<close>) and sockets (\<open>src/hound/src/io/socket.h\<close>, \<open>socket.cpp\<close>). A system call is a
  parameter, the pair of its return value and of \<open>errno\<close> after it. The objects of class \<open>Socket\<close> live in a
  store that maps them to their descriptor, beside the set of descriptors the process has open:
  closing a descriptor that is not open is the fault the class is meant to exclude.
\<close>

section \<open>Results\<close>

record error =
  ec :: int
  error_msg :: string

type_synonym 'a result = "error + 'a"

definition has_value :: "'a result \<Rightarrow> bool" where
  "has_value x = (case x of Inl _ \<Rightarrow> False | Inr _ \<Rightarrow> True)"

definition make_errno_result :: "int \<Rightarrow> string \<Rightarrow> 'a result" where
  "make_errno_result errno msg = Inl \<lparr>ec = errno, error_msg = msg\<rparr>"

section \<open>Input and output\<close>

definition EINTR :: int where "EINTR = 4"
definition EAGAIN :: int where "EAGAIN = 11"
definition EINPROGRESS :: int where "EINPROGRESS = 115"
definition kInvalidFd :: int where "kInvalidFd = - 1"

type_synonym io_call = "int \<Rightarrow> int \<Rightarrow> int \<times> int"

definition count_to_int :: "size_t \<Rightarrow> int" where
  "count_to_int count = sint (ucast count :: 32 word)"

definition io_error :: "string \<Rightarrow> string \<Rightarrow> int \<Rightarrow> 'a result" where
  "io_error blocked failed err =
     (if err = EAGAIN \<or> err = EINTR then Inl \<lparr>ec = err, error_msg = blocked\<rparr> else make_errno_result err failed)"

definition socket_read :: "io_call \<Rightarrow> int \<Rightarrow> size_t \<Rightarrow> int result" where
  "socket_read recv fd count =
     (let (n, err) = recv fd (count_to_int count)
      in if n > 0 then Inr n
         else if n = 0 then Inr 0
         else io_error ''read: would block'' ''read() failed'' err)"

definition socket_write :: "io_call \<Rightarrow> int \<Rightarrow> size_t \<Rightarrow> int result" where
  "socket_write send fd count =
     (let (n, err) = send fd (count_to_int count)
      in if n > 0 then Inr n
         else io_error ''write: would block'' ''write() failed'' err)"

definition socket_readv :: "io_call \<Rightarrow> int \<Rightarrow> int \<Rightarrow> int result" where
  "socket_readv readv fd iovcnt =
     (let (n, err) = readv fd iovcnt
      in if n > 0 then Inr n
         else if n = 0 then Inr 0
         else io_error ''readv: would block'' ''readv() failed'' err)"

definition socket_writev :: "io_call \<Rightarrow> int \<Rightarrow> int \<Rightarrow> int result" where
  "socket_writev writev fd iovcnt =
     (let (n, err) = writev fd iovcnt
      in if n > 0 then Inr n
         else io_error ''writev: would block'' ''writev() failed'' err)"

text \<open>Calls without data: \<open>bind\<close>, \<open>listen\<close>, \<open>connect\<close> and the options.\<close>

definition socket_bind :: "resolver \<Rightarrow> (int \<Rightarrow> address \<Rightarrow> int \<times> int) \<Rightarrow> int \<Rightarrow> address \<Rightarrow> unit result" where
  "socket_bind r bind fd addr =
     (let (n, err) = bind fd addr
      in if n < 0 then make_errno_result err (''bind('' @ address_to_string r addr @ '') failed'') else Inr ())"

definition socket_listen :: "io_call \<Rightarrow> int \<Rightarrow> int \<Rightarrow> unit result" where
  "socket_listen listen fd backlog =
     (let (n, err) = listen fd backlog in if n < 0 then make_errno_result err ''listen() failed'' else Inr ())"

definition socket_connect :: "resolver \<Rightarrow> (int \<Rightarrow> address \<Rightarrow> int \<times> int) \<Rightarrow> int \<Rightarrow> address \<Rightarrow> unit result" where
  "socket_connect r connect fd addr =
     (let (n, err) = connect fd addr
      in if n < 0
         then (if err = EINPROGRESS then Inr ()
               else make_errno_result err (''connect('' @ address_to_string r addr @ '') failed''))
         else Inr ())"

definition get_error :: "(int \<Rightarrow> int \<times> int \<times> int) \<Rightarrow> int \<Rightarrow> int" where
  "get_error getsockopt fd = (let (n, err, optval) = getsockopt fd in if n < 0 then err else optval)"

text \<open>\<open>set_nonblocking\<close>: the flags of the descriptor after the two calls of \<open>fcntl\<close>.\<close>

unbundle bit_operations_syntax

definition O_NONBLOCK :: int where "O_NONBLOCK = 2048"

definition set_nonblocking :: "bool \<Rightarrow> (int \<Rightarrow> bool) \<Rightarrow> int \<Rightarrow> int" where
  "set_nonblocking on setfl flags =
     (if flags < 0 then flags
      else let flags1 = (if on then flags OR O_NONBLOCK else flags AND NOT O_NONBLOCK)
           in if setfl flags1 then flags1 else flags)"

section \<open>Ownership of descriptors\<close>

datatype sock_fault = Lifetime | BadClose int

record sock_store =
  sock_objs :: "nat \<rightharpoonup> int"
  open_fds :: "int set"

text \<open>An object is constructed at an address that holds none.\<close>

definition new_obj :: "nat \<Rightarrow> int \<Rightarrow> sock_store \<Rightarrow> sock_fault + sock_store" where
  "new_obj x f st =
     (case sock_objs st x of Some _ \<Rightarrow> Inl Lifetime | None \<Rightarrow> Inr (st\<lparr>sock_objs := (sock_objs st)(x \<mapsto> f)\<rparr>))"

definition Socket_default :: "nat \<Rightarrow> sock_store \<Rightarrow> sock_fault + sock_store" where
  "Socket_default x st = new_obj x kInvalidFd st"

text \<open>\<open>create_tcp\<close> and \<open>create_udp\<close>: a call of \<open>socket\<close> that gave the descriptor \<open>f\<close>; the result is the error or the new object's store.
  \<open>accept\<close> is the same with the descriptor of the connection, and stores the peer.\<close>

definition create_tcp :: "bool \<Rightarrow> int \<Rightarrow> int \<Rightarrow> nat \<Rightarrow> sock_store \<Rightarrow> sock_fault + (sock_store \<times> unit result)" where
  "create_tcp ipv6 f errno x st =
     (if f = kInvalidFd
      then Inr (st, make_errno_result errno (''socket(AF_INET'' @ (if ipv6 then ''6'' else '''') @ '', SOCK_STREAM) failed''))
      else map_sum id (\<lambda>st. (st, Inr ())) (new_obj x f (st\<lparr>open_fds := insert f (open_fds st)\<rparr>)))"

definition create_udp :: "bool \<Rightarrow> int \<Rightarrow> int \<Rightarrow> nat \<Rightarrow> sock_store \<Rightarrow> sock_fault + (sock_store \<times> unit result)" where
  "create_udp ipv6 f errno x st =
     (if f = kInvalidFd then Inr (st, make_errno_result errno ''socket() for UDP failed'')
      else map_sum id (\<lambda>st. (st, Inr ())) (new_obj x f (st\<lparr>open_fds := insert f (open_fds st)\<rparr>)))"

definition socket_accept ::
  "int \<Rightarrow> int \<Rightarrow> address \<Rightarrow> nat \<Rightarrow> nat \<Rightarrow> sock_store \<Rightarrow> sock_fault + (sock_store \<times> address result)" where
  "socket_accept conn_fd errno ss len x st =
     (if conn_fd = kInvalidFd
      then Inr (st, if errno = EAGAIN \<or> errno = EINTR
                    then Inl \<lparr>ec = errno, error_msg = ''accept: no pending connections (EAGAIN)''\<rparr>
                    else make_errno_result errno ''accept() failed'')
      else map_sum id (\<lambda>st. (st, Inr (from_sockaddr ss len)))
             (new_obj x conn_fd (st\<lparr>open_fds := insert conn_fd (open_fds st)\<rparr>)))"

definition Socket_close :: "nat \<Rightarrow> sock_store \<Rightarrow> sock_fault + sock_store" where
  "Socket_close x st =
     (case sock_objs st x of
        None \<Rightarrow> Inl Lifetime
      | Some f \<Rightarrow>
          if f = kInvalidFd then Inr st
          else if f \<notin> open_fds st then Inl (BadClose f)
          else Inr (st\<lparr>sock_objs := (sock_objs st)(x \<mapsto> kInvalidFd), open_fds := open_fds st - {f}\<rparr>))"

text \<open>The move constructor of \<open>x\<close> from \<open>y\<close>, the move assignment of \<open>y\<close> to \<open>x\<close>, and the destructor.\<close>

definition Socket_move :: "nat \<Rightarrow> nat \<Rightarrow> sock_store \<Rightarrow> sock_fault + sock_store" where
  "Socket_move x y st =
     (case sock_objs st y of
        None \<Rightarrow> Inl Lifetime
      | Some f \<Rightarrow>
          (case new_obj x f st of
             Inl e \<Rightarrow> Inl e
           | Inr st1 \<Rightarrow> Inr (st1\<lparr>sock_objs := (sock_objs st1)(y \<mapsto> kInvalidFd)\<rparr>)))"

definition Socket_assign :: "nat \<Rightarrow> nat \<Rightarrow> sock_store \<Rightarrow> sock_fault + sock_store" where
  "Socket_assign x y st =
     (if sock_objs st x = None \<or> sock_objs st y = None then Inl Lifetime
      else if x \<noteq> y
      then (case Socket_close x st of
              Inl e \<Rightarrow> Inl e
            | Inr st1 \<Rightarrow>
                Inr (st1\<lparr>sock_objs := (sock_objs st1)(x := sock_objs st1 y, y \<mapsto> kInvalidFd)\<rparr>))
      else Inr st)"

definition Socket_destroy :: "nat \<Rightarrow> sock_store \<Rightarrow> sock_fault + sock_store" where
  "Socket_destroy x st =
     (case Socket_close x st of Inl e \<Rightarrow> Inl e | Inr st1 \<Rightarrow> Inr (st1\<lparr>sock_objs := (sock_objs st1)(x := None)\<rparr>))"

text \<open>Programs over sockets: any sequence of these operations, where the system hands out only descriptors that are not open.\<close>

inductive sock_step :: "sock_store \<Rightarrow> sock_fault + sock_store \<Rightarrow> bool" where
  step_default: "sock_step st (Socket_default x st)"
| step_tcp: "f \<notin> open_fds st \<Longrightarrow> sock_step st (map_sum id fst (create_tcp ipv6 f errno x st))"
| step_udp: "f \<notin> open_fds st \<Longrightarrow> sock_step st (map_sum id fst (create_udp ipv6 f errno x st))"
| step_accept: "f \<notin> open_fds st \<Longrightarrow> sock_step st (map_sum id fst (socket_accept f errno ss len x st))"
| step_close: "sock_step st (Socket_close x st)"
| step_move: "sock_step st (Socket_move x y st)"
| step_assign: "sock_step st (Socket_assign x y st)"
| step_destroy: "sock_step st (Socket_destroy x st)"

inductive sock_run :: "sock_fault + sock_store \<Rightarrow> bool" where
  run_start: "sock_run (Inr \<lparr>sock_objs = Map.empty, open_fds = {}\<rparr>)"
| run_step: "sock_run (Inr st) \<Longrightarrow> sock_step st r \<Longrightarrow> sock_run r"

section \<open>Invariant\<close>

definition held :: "sock_store \<Rightarrow> int set" where
  "held st = ran (sock_objs st) - {kInvalidFd}"

definition sock_ok :: "sock_store \<Rightarrow> bool" where
  "sock_ok st \<longleftrightarrow> open_fds st = held st \<and>
     (\<forall>x y f. sock_objs st x = Some f \<and> sock_objs st y = Some f \<and> f \<noteq> kInvalidFd \<longrightarrow> x = y)"

definition keeps :: "sock_fault + sock_store \<Rightarrow> bool" where
  "keeps r \<longleftrightarrow> r = Inl Lifetime \<or> (\<exists>st. r = Inr st \<and> sock_ok st)"

lemma keeps_Inr [simp]: "keeps (Inr st) = sock_ok st"
  by (simp add: keeps_def)

lemma heldI: "sock_objs st x = Some f \<Longrightarrow> f \<noteq> kInvalidFd \<Longrightarrow> f \<in> held st"
  by (auto simp: held_def ran_def)

lemma sock_okD: "sock_ok st \<Longrightarrow> sock_objs st x = Some f \<Longrightarrow> sock_objs st y = Some f \<Longrightarrow> f \<noteq> kInvalidFd \<Longrightarrow> x = y"
  unfolding sock_ok_def by blast

lemma sock_okI:
  assumes "fds = ran obs - {kInvalidFd}"
    and "\<And>x y f. obs x = Some f \<Longrightarrow> obs y = Some f \<Longrightarrow> f \<noteq> kInvalidFd \<Longrightarrow> x = y"
    and "sock_objs st = obs" and "open_fds st = fds"
  shows "sock_ok st"
  unfolding sock_ok_def held_def assms(3,4) using assms(1,2) by blast

lemma new_obj_keeps:
  assumes "sock_ok st" and "f \<notin> open_fds st" 
  shows "keeps (new_obj x f (st\<lparr>open_fds := (if f = kInvalidFd then open_fds st else insert f (open_fds st))\<rparr>))"
proof (cases "sock_objs st x")
  case None
  let ?o = "(sock_objs st)(x \<mapsto> f)"
  have "ran ?o = insert f (ran (sock_objs st))"
    using None by (rule ran_map_upd)
  then have open_eq: "(if f = kInvalidFd then open_fds st else insert f (open_fds st)) = ran ?o - {kInvalidFd}"
    using assms(1) by (auto simp: sock_ok_def held_def)
  have inj: "y = z" if "?o y = Some g" "?o z = Some g" "g \<noteq> kInvalidFd" for y z g
    using that assms sock_okD [OF assms(1), of y g z] heldI [of st _ g]
    by (auto simp: sock_ok_def split: if_splits)
  have "sock_ok (st\<lparr>open_fds := (if f = kInvalidFd then open_fds st else insert f (open_fds st)), sock_objs := ?o\<rparr>)"
    by (rule sock_okI [OF open_eq inj]) simp_all
  then show ?thesis
    using None by (simp add: keeps_def new_obj_def)
qed (simp add: keeps_def new_obj_def)

lemma Socket_close_keeps:
  assumes "sock_ok st"
  shows "keeps (Socket_close x st)"
proof (cases "sock_objs st x")
  case (Some f)
  show ?thesis
  proof (cases "f = kInvalidFd")
    case True
    then show ?thesis using assms Some by (simp add: keeps_def Socket_close_def)
  next
    case False
    have op: "f \<in> open_fds st"
      using heldI [OF Some False] assms by (simp add: sock_ok_def)
    let ?o = "(sock_objs st)(x \<mapsto> kInvalidFd)"
    have "g \<in> held st - {f} \<longleftrightarrow> g \<in> ran ?o - {kInvalidFd}" for g
    proof
      assume g: "g \<in> held st - {f}"
      then obtain z where "sock_objs st z = Some g" "g \<noteq> kInvalidFd" by (auto simp: held_def ran_def)
      then have "?o z = Some g" using g Some by auto
      then show "g \<in> ran ?o - {kInvalidFd}" using \<open>g \<noteq> kInvalidFd\<close> by (metis DiffI ranI singletonD)
    next
      assume "g \<in> ran ?o - {kInvalidFd}"
      then obtain z where z: "?o z = Some g" "g \<noteq> kInvalidFd" by (auto simp: ran_def)
      then have "z \<noteq> x" "sock_objs st z = Some g" by (auto split: if_splits)
      then show "g \<in> held st - {f}"
        using heldI [of st z g] sock_okD [OF assms Some, of z] z(2) by auto
    qed
    then have open_eq: "open_fds st - {f} = ran ?o - {kInvalidFd}"
      using assms unfolding sock_ok_def by blast
    have inj: "y = z" if "?o y = Some g" "?o z = Some g" "g \<noteq> kInvalidFd" for y z g
      using that sock_okD [OF assms, of y g z] by (auto split: if_splits)
    have "sock_ok (st\<lparr>sock_objs := ?o, open_fds := open_fds st - {f}\<rparr>)"
      by (rule sock_okI [OF open_eq inj]) simp_all
    then show ?thesis
      using Some False op by (simp add: keeps_def Socket_close_def)
  qed
qed (simp add: keeps_def Socket_close_def)

text \<open>Moving a descriptor to an object that holds none permutes the holders.\<close>

lemma transfer_keeps:
  assumes "sock_ok st" and "x \<noteq> y" and "sock_objs st x \<in> {None, Some kInvalidFd}" and "sock_objs st y = Some f"
  shows "sock_ok (st\<lparr>sock_objs := (sock_objs st)(x \<mapsto> f, y \<mapsto> kInvalidFd)\<rparr>)"
proof -
  let ?o = "(sock_objs st)(x \<mapsto> f, y \<mapsto> kInvalidFd)"
  have "g \<in> ran ?o - {kInvalidFd} \<longleftrightarrow> g \<in> held st" for g
  proof
    assume "g \<in> ran ?o - {kInvalidFd}"
    then show "g \<in> held st"
      using assms(4) by (auto simp: held_def ran_def split: if_splits)
  next
    assume "g \<in> held st"
    then obtain z where z: "sock_objs st z = Some g" "g \<noteq> kInvalidFd" by (auto simp: held_def ran_def)
    then have "?o (if z = y then x else z) = Some g"
      using assms(2-4) by auto
    then show "g \<in> ran ?o - {kInvalidFd}"
      using z(2) by (metis DiffI ranI singletonD)
  qed
  then have open_eq: "open_fds st = ran ?o - {kInvalidFd}"
    using assms(1) unfolding sock_ok_def by blast
  have inj: "u = v" if "?o u = Some g" "?o v = Some g" "g \<noteq> kInvalidFd" for u v g
    using that sock_okD [OF assms(1), of _ g] assms(3,4) by (auto split: if_splits)
  show ?thesis by (rule sock_okI [OF open_eq inj]) simp_all
qed

lemma kInvalid_not_open: "sock_ok st \<Longrightarrow> kInvalidFd \<notin> open_fds st"
  by (simp add: sock_ok_def held_def)

lemma Socket_close_objs:
  "Socket_close x st = Inr st1 \<Longrightarrow> sock_objs st1 x = Some kInvalidFd \<and> (\<forall>y. y \<noteq> x \<longrightarrow> sock_objs st1 y = sock_objs st y)"
  by (auto simp: Socket_close_def split: option.splits if_splits)

lemma Socket_default_keeps: "sock_ok st \<Longrightarrow> keeps (Socket_default x st)"
  using new_obj_keeps [of st kInvalidFd x] kInvalid_not_open [of st] by (simp add: Socket_default_def)

lemma opened_keeps:
  assumes "sock_ok st" and "f \<notin> open_fds st" and "f \<noteq> kInvalidFd"
  shows "keeps (map_sum id (fst \<circ> (\<lambda>st. (st, v))) (new_obj x f (st\<lparr>open_fds := insert f (open_fds st)\<rparr>)))"
  using new_obj_keeps [OF assms(1,2), of x] assms(3) by (simp add: comp_def sum.map_id flip: id_def)

lemma Socket_move_keeps:
  assumes "sock_ok st"
  shows "keeps (Socket_move x y st)"
proof (cases "sock_objs st y")
  case (Some f)
  show ?thesis
  proof (cases "sock_objs st x")
    case None
    then have "sock_ok (st\<lparr>sock_objs := (sock_objs st)(x \<mapsto> f, y \<mapsto> kInvalidFd)\<rparr>)"
      using Some by (intro transfer_keeps [OF assms]) auto
    then show ?thesis using None Some by (simp add: Socket_move_def new_obj_def keeps_def)
  qed (use Some in \<open>simp add: Socket_move_def new_obj_def keeps_def\<close>)
qed (simp add: Socket_move_def keeps_def)

lemma Socket_assign_keeps:
  assumes "sock_ok st"
  shows "keeps (Socket_assign x y st)"
proof (cases "sock_objs st x = None \<or> sock_objs st y = None \<or> x = y")
  case False
  then obtain f where f: "sock_objs st y = Some f" by auto
  consider "Socket_close x st = Inl Lifetime" | st1 where "Socket_close x st = Inr st1" "sock_ok st1"
    using Socket_close_keeps [OF assms, of x] unfolding keeps_def by blast
  then show ?thesis
  proof cases
    case 1
    then show ?thesis using False by (simp add: Socket_assign_def keeps_def)
  next
    case 2
    note objs = Socket_close_objs [OF 2(1)]
    then have y: "sock_objs st1 y = Some f" using f False by simp
    have "sock_ok (st1\<lparr>sock_objs := (sock_objs st1)(x \<mapsto> f, y \<mapsto> kInvalidFd)\<rparr>)"
      using objs False by (intro transfer_keeps [OF 2(2) _ _ y]) auto
    then show ?thesis using 2(1) False y by (simp add: Socket_assign_def keeps_def)
  qed
qed (use assms in \<open>auto simp: Socket_assign_def keeps_def\<close>)

lemma Socket_destroy_keeps:
  assumes "sock_ok st"
  shows "keeps (Socket_destroy x st)"
proof -
  consider "Socket_close x st = Inl Lifetime" | st1 where "Socket_close x st = Inr st1" "sock_ok st1"
    using Socket_close_keeps [OF assms, of x] unfolding keeps_def by blast
  then show ?thesis
  proof cases
    case 1
    then show ?thesis by (simp add: Socket_destroy_def keeps_def)
  next
    case 2
    let ?o = "(sock_objs st1)(x := None)"
    have x: "sock_objs st1 x = Some kInvalidFd"
      using Socket_close_objs [OF 2(1)] by simp
    then have "sock_objs st1 = ?o(x \<mapsto> kInvalidFd)" by (simp add: fun_upd_idem)
    then have "ran (sock_objs st1) = insert kInvalidFd (ran ?o)"
      by (metis fun_upd_same ran_map_upd)
    then have open_eq: "open_fds st1 = ran ?o - {kInvalidFd}"
      using 2(2) by (auto simp: sock_ok_def held_def)
    have inj: "y = z" if "?o y = Some g" "?o z = Some g" "g \<noteq> kInvalidFd" for y z g
      using that sock_okD [OF 2(2), of y g z] by (auto split: if_splits)
    have "sock_ok (st1\<lparr>sock_objs := ?o\<rparr>)"
      by (rule sock_okI [OF open_eq inj]) simp_all
    then show ?thesis using 2(1) by (simp add: Socket_destroy_def keeps_def)
  qed
qed

lemma sock_step_keeps:
  assumes "sock_step st r" and "sock_ok st"
  shows "keeps r"
  using assms
proof cases
  case (step_tcp f ipv6 errno x)
  then show ?thesis
    using assms(2)
    by (cases "f = kInvalidFd") (simp_all add: create_tcp_def sum.map_comp opened_keeps)
next
  case (step_udp f ipv6 errno x)
  then show ?thesis
    using assms(2)
    by (cases "f = kInvalidFd") (simp_all add: create_udp_def sum.map_comp opened_keeps)
next
  case (step_accept f errno ss len x)
  then show ?thesis
    using assms(2)
    by (cases "f = kInvalidFd") (simp_all add: socket_accept_def sum.map_comp opened_keeps)
qed (auto intro: Socket_default_keeps Socket_close_keeps Socket_move_keeps Socket_assign_keeps Socket_destroy_keeps)

lemma sock_run_keeps: "sock_run r \<Longrightarrow> keeps r"
proof (induction rule: sock_run.induct)
  case run_start
  then show ?case by (simp add: keeps_def sock_ok_def held_def)
next
  case (run_step st r)
  then show ?case using sock_step_keeps [OF run_step.hyps(2)] by simp
qed

section \<open>Properties\<close>

text \<open>Requests below 2 gigabytes reach the system unchanged; four gigabytes are truncated to nothing.\<close>

lemma count_to_int_small:
  assumes "unat count < 2 ^ 31"
  shows "count_to_int count = int (unat count)"
proof -
  obtain k where k_def: "k = unat count" by blast
  have "k < 2 ^ 31" using assms by (simp only: k_def)
  then have "- (2 ^ 31) \<le> int k" "int k < 2 ^ 31" by simp_all
  then have "signed_take_bit 31 (int (unat count)) = int (unat count)"
    unfolding k_def by (rule signed_take_bit_int_eq_self)
  then show ?thesis
    by (simp add: count_to_int_def signed_ucast_eq)
qed

lemma count_to_int_wraps: "count_to_int (2 ^ 32) = 0"
  by (simp add: count_to_int_def)

text \<open>Writing nothing is reported as an error, with whatever \<open>errno\<close> an earlier call left.\<close>

lemma empty_write_fails: "send fd 0 = (0, stale) \<Longrightarrow> \<not> has_value (socket_write send fd 0)"
  by (simp add: socket_write_def count_to_int_def io_error_def make_errno_result_def has_value_def)

text \<open>C31. Descriptors are owned: in every program that creates, accepts, moves, assigns, closes and destroys sockets in any
  order, no descriptor is closed twice, a descriptor is held by exactly one object as long as it is open, and the
  descriptors open are exactly those held: none leaks. When every object has been destroyed, all are closed.\<close>

theorem socket_ownership:
  assumes "sock_run r"
  shows "(\<forall>f. r \<noteq> Inl (BadClose f)) \<and>
    (\<forall>st. r = Inr st \<longrightarrow>
       open_fds st = ran (sock_objs st) - {kInvalidFd} \<and>
       (\<forall>x y f. sock_objs st x = Some f \<and> sock_objs st y = Some f \<and> f \<noteq> kInvalidFd \<longrightarrow> x = y) \<and>
       (sock_objs st = Map.empty \<longrightarrow> open_fds st = {}))"
proof (intro conjI allI impI)
  note keeps = sock_run_keeps [OF assms]
  fix f
  show "r \<noteq> Inl (BadClose f)"
    using keeps by (auto simp: keeps_def)
next
  fix st
  assume "r = Inr st"
  then have ok: "sock_ok st" using sock_run_keeps [OF assms] by simp
  then show fds: "open_fds st = ran (sock_objs st) - {kInvalidFd}"
    by (simp add: sock_ok_def held_def)
  show "x = y" if "sock_objs st x = Some f \<and> sock_objs st y = Some f \<and> f \<noteq> kInvalidFd" for x y f
    using that sock_okD [OF ok] by blast
  show "open_fds st = {}" if "sock_objs st = Map.empty"
    using that fds by simp
qed

theorem socket_ownership_witness:
  "\<exists>st. sock_run (Inr st) \<and> sock_objs st 2 = Some 5 \<and> sock_objs st 1 = Some kInvalidFd \<and> open_fds st = {5}"
proof -
  let ?s0 = "\<lparr>sock_objs = Map.empty, open_fds = {}\<rparr>"
  let ?s1 = "\<lparr>sock_objs = [1 \<mapsto> 5], open_fds = {5}\<rparr>"
  let ?s2 = "\<lparr>sock_objs = [1 \<mapsto> kInvalidFd, 2 \<mapsto> 5], open_fds = {5}\<rparr>"
  have "sock_run (map_sum id fst (create_tcp False 5 0 1 ?s0))"
    by (rule run_step [OF run_start step_tcp]) simp
  then have "sock_run (Inr ?s1)"
    by (simp add: create_tcp_def new_obj_def kInvalidFd_def)
  from run_step [OF this step_move, of 2 1] have run: "sock_run (Inr ?s2)"
    by (simp add: Socket_move_def new_obj_def fun_upd_twist)
  have "ran (sock_objs ?s2) - {kInvalidFd} = {5}"
    by (auto simp: ran_map_upd kInvalidFd_def)
  with socket_ownership [OF run] run show ?thesis
    by (intro exI [of _ ?s2]) simp
qed

end
