(* ===== verification/Http_Server.thy ===== *)
theory Http_Server
  imports Loop_Services Url_Router Http_Parser Socket_Io
begin

text \<open>
  The HTTP server (\<open>src/hound/src/http/http_server.h\<close>, \<open>http_server.cpp\<close>), which composes all components below it: sockets, the
  buffer, the parser, the router, responses, channels and the event loop. Its handlers run in the loop thread. What
  lies outside the sources is an environment: the results of \<open>recv\<close> and \<open>send\<close>, the files, the registered handlers,
  the clock and the iteration order of the header map. \<open>wire\<close> records the bytes the system accepted per descriptor.
\<close>

section \<open>State\<close>

text \<open>The two closures the server hands to the loop: the deferred erasure of a connection captures its descriptor, its timeout captures the pointer to the connection, here the
  address of the channel inside it.\<close>

datatype http_task = EraseConnection int | ConnectionTimeout addr

record connection =
  conn_fd :: int
  conn_channel :: addr
  read_buf :: buffer
  conn_parser :: http_parser
  timeout_timer :: int
  closed :: bool

record 'h http_server =
  srv_loop :: "http_task event_loop"
  listen_addr :: address
  listen_fd :: int
  listen_channel :: "addr option"
  srv_router :: "'h router"
  static_dir :: string
  connections :: "(int \<times> connection) list"
  running :: bool
  srv_open :: "int set"
  next_addr :: addr
  wire :: "int \<Rightarrow> string"

datatype srv_fault = LoopFault loop_fault | ParseFault parse_fault | NullDeref | Diverges

record 'h http_env =
  http_now :: timestamp
  http_recv :: "int \<Rightarrow> int \<Rightarrow> (int \<times> int) \<times> string"
  http_send :: "int \<Rightarrow> string \<Rightarrow> int \<Rightarrow> int \<times> int"
  http_files :: "string \<Rightarrow> string option"
  http_run :: "'h \<Rightarrow> http_request \<Rightarrow> http_response \<Rightarrow> http_response"
  http_iter :: "(string \<rightharpoonup> string) \<Rightarrow> (string \<times> string) list"

text \<open>\<open>srv_open\<close> holds the descriptors the process has open, \<open>fds\<close> at the start, and \<open>next_addr\<close> is the next free address for a channel.\<close>

definition HttpServer_new :: "http_task event_loop \<Rightarrow> address \<Rightarrow> addr \<Rightarrow> int set \<Rightarrow> 'h http_server" where
  "HttpServer_new l a next fds =
     \<lparr>srv_loop = l, listen_addr = a, listen_fd = kInvalidFd, listen_channel = None, srv_router = Router_new, static_dir = [],
      connections = [], running = False, srv_open = fds, next_addr = next, wire = (\<lambda>f. [])\<rparr>"

definition http_get :: "string \<Rightarrow> 'h \<Rightarrow> 'h http_server \<Rightarrow> 'h http_server" where
  "http_get pattern h s = s\<lparr>srv_router := add (srv_router s) ''GET'' pattern h\<rparr>"

definition http_post :: "string \<Rightarrow> 'h \<Rightarrow> 'h http_server \<Rightarrow> 'h http_server" where
  "http_post pattern h s = s\<lparr>srv_router := add (srv_router s) ''POST'' pattern h\<rparr>"

definition http_put :: "string \<Rightarrow> 'h \<Rightarrow> 'h http_server \<Rightarrow> 'h http_server" where
  "http_put pattern h s = s\<lparr>srv_router := add (srv_router s) ''PUT'' pattern h\<rparr>"

definition http_del :: "string \<Rightarrow> 'h \<Rightarrow> 'h http_server \<Rightarrow> 'h http_server" where
  "http_del pattern h s = s\<lparr>srv_router := add (srv_router s) ''DELETE'' pattern h\<rparr>"

definition set_static_dir :: "string \<Rightarrow> 'h http_server \<Rightarrow> 'h http_server" where
  "set_static_dir dir s = s\<lparr>static_dir := dir\<rparr>"

section \<open>Operations\<close>

abbreviation self_of :: "'h http_server \<Rightarrow> nat" where
  "self_of s \<equiv> thread_id (srv_loop s)"

definition on_loop ::
  "(http_task event_loop \<Rightarrow> loop_fault + http_task event_loop) \<Rightarrow> 'h http_server \<Rightarrow> srv_fault + 'h http_server" where
  "on_loop f s = map_sum LoopFault (\<lambda>l. s\<lparr>srv_loop := l\<rparr>) (f (srv_loop s))"

definition put_conn :: "int \<Rightarrow> connection \<Rightarrow> 'h http_server \<Rightarrow> 'h http_server" where
  "put_conn f c s = s\<lparr>connections := AList.update f c (connections s)\<rparr>"

text \<open>A new channel of the server, with its callbacks, registered for reading.\<close>

definition new_channel :: "int \<Rightarrow> bool \<Rightarrow> 'h http_server \<Rightarrow> srv_fault + addr \<times> 'h http_server" where
  "new_channel f with_close s =
     (let a = next_addr s;
          ch = (Channel_new f)\<lparr>read_callback := True, close_callback := with_close, error_callback := with_close\<rparr>;
          p = loop_poller (srv_loop s);
          s1 = s\<lparr>next_addr := a + 1, srv_loop := (srv_loop s)\<lparr>loop_poller := p\<lparr>heap := (heap p)(a \<mapsto> ch)\<rparr>\<rparr>\<rparr>
      in map_sum id (\<lambda>s. (a, s)) (on_loop (with_poller (self_of s1) (enable_reading a)) s1))"

definition refresh_timeout :: "'h http_env \<Rightarrow> connection \<Rightarrow> 'h http_server \<Rightarrow> connection \<times> 'h http_server" where
  "refresh_timeout env c s =
     (let l1 = (if timeout_timer c \<noteq> 0 then cancel_timer (timeout_timer c) (srv_loop s) else srv_loop s);
          (i, l2) = run_after (http_now env) 30 (ConnectionTimeout (conn_channel c)) l1
      in (c\<lparr>timeout_timer := i\<rparr>, s\<lparr>srv_loop := l2\<rparr>))"

definition on_close :: "int \<Rightarrow> 'h http_server \<Rightarrow> srv_fault + 'h http_server" where
  "on_close f s =
     (case map_of (connections s) f of
        None \<Rightarrow> Inr s
      | Some c \<Rightarrow>
          if closed c then Inr s
          else
            let s1 = put_conn f (c\<lparr>closed := True\<rparr>) s;
                s2 = (if timeout_timer c \<noteq> 0 then s1\<lparr>srv_loop := cancel_timer (timeout_timer c) (srv_loop s1)\<rparr> else s1)
            in sum_bind (on_loop (with_poller (self_of s2) (disable_all (conn_channel c))) s2)
                 (\<lambda>s3. Inr (s3\<lparr>srv_loop := queue_in_loop (self_of s3) (EraseConnection f) (srv_loop s3)\<rparr>)))"

definition send_response :: "'h http_env \<Rightarrow> int \<Rightarrow> http_response \<Rightarrow> 'h http_server \<Rightarrow> srv_fault + 'h http_server" where
  "send_response env f resp s =
     (let raw = serialize (http_iter env) resp
      in case socket_write (\<lambda>f k. http_send env f raw k) f (of_nat (length raw)) of
           Inl e \<Rightarrow> on_close f s
         | Inr n \<Rightarrow> Inr (s\<lparr>wire := (wire s)(f := wire s f @ take (nat n) raw)\<rparr>))"

definition answer :: "'h http_env \<Rightarrow> 'h http_server \<Rightarrow> http_request \<Rightarrow> http_response" where
  "answer env s req =
     (case route (srv_router s) req (Some HttpResponse_new) of
        (handler, r) \<Rightarrow>
          let resp = (case r of None \<Rightarrow> HttpResponse_new | Some resp \<Rightarrow> resp);
              resp1 = (case handler of
                         Some h \<Rightarrow> http_run env h req resp
                       | None \<Rightarrow>
                           if static_dir s \<noteq> [] \<and> req_method req = GET
                           then (case http_files env (static_dir s @ path req) of
                                   None \<Rightarrow> resp
                                 | Some file \<Rightarrow> HttpResponse_ok file ''text/html'')
                           else resp)
          in set_keep_alive (keep_alive req) resp1)"

definition handle_request :: "'h http_env \<Rightarrow> int \<Rightarrow> 'h http_server \<Rightarrow> srv_fault + 'h http_server" where
  "handle_request env f s =
     (case map_of (connections s) f of
        None \<Rightarrow> Inl NullDeref
      | Some c \<Rightarrow>
          let req = request (conn_parser c)
          in sum_bind (send_response env f (answer env s req) s)
               (\<lambda>s1. if \<not> keep_alive req then on_close f s1 else Inr s1))"

text \<open>The loop of \<open>on_message\<close>. After \<open>parser.reset()\<close> the parser is never done, so its \<open>continue\<close> is always taken. The
  first argument bounds the iterations.\<close>

fun message_loop :: "nat \<Rightarrow> 'h http_env \<Rightarrow> int \<Rightarrow> 'h http_server \<Rightarrow> srv_fault + 'h http_server" where
  "message_loop 0 env f s = Inl Diverges"
| "message_loop (Suc n) env f s =
     (case map_of (connections s) f of
        None \<Rightarrow> Inl NullDeref
      | Some c \<Rightarrow>
          if buf_size (read_buf c) > 0
          then (case parse (conn_parser c) (read_buf c) of
                  None \<Rightarrow> Inl Diverges
                | Some (Inl e) \<Rightarrow> Inl (ParseFault e)
                | Some (Inr (consumed, p, b)) \<Rightarrow>
                    let s1 = put_conn f (c\<lparr>conn_parser := p, read_buf := b\<rparr>) s
                    in if has_error p
                       then sum_bind (send_response env f (not_found ''400 Bad Request'') s1) (on_close f)
                       else if is_done p
                       then sum_bind (handle_request env f s1)
                              (\<lambda>s2. case map_of (connections s2) f of
                                      None \<Rightarrow> Inl NullDeref
                                    | Some c2 \<Rightarrow> message_loop n env f (put_conn f (c2\<lparr>conn_parser := HttpParser_reset\<rparr>) s2))
                       else if consumed = 0 then Inr s1
                       else message_loop n env f s1)
          else Inr s)"

text \<open>The bound is enough: \<open>message_total\<close>.\<close>

definition on_message :: "'h http_env \<Rightarrow> int \<Rightarrow> 'h http_server \<Rightarrow> srv_fault + 'h http_server" where
  "on_message env f s =
     (case map_of (connections s) f of
        None \<Rightarrow> Inr s
      | Some c \<Rightarrow>
          if closed c then Inr s
          else
            let (writable, b) = begin_write (read_buf c);
                s1 = put_conn f (c\<lparr>read_buf := b\<rparr>) s
            in if writable = 0 then on_close f s1
               else
                 let bytes = snd (http_recv env f (count_to_int (of_nat writable)))
                 in case socket_read (\<lambda>f k. fst (http_recv env f k)) f (of_nat writable) of
                      Inl e \<Rightarrow> on_close f s1
                    | Inr n \<Rightarrow>
                        if n = 0 then on_close f s1
                        else
                          let b2 = has_written (poke b (take (nat n) bytes)) (nat n);
                              (c2, s2) = refresh_timeout env (c\<lparr>read_buf := b2\<rparr>) s1
                          in message_loop (2 * buf_size b2 + 2) env f (put_conn f c2 s2))"

definition on_accept :: "'h http_env \<Rightarrow> string \<Rightarrow> int \<Rightarrow> 'h http_server \<Rightarrow> srv_fault + 'h http_server" where
  "on_accept env junk f s =
     (if f = kInvalidFd then Inr s
      else sum_bind (new_channel f True (s\<lparr>srv_open := insert f (srv_open s)\<rparr>))
             (\<lambda>(a, s1).
                let c = \<lparr>conn_fd = f, conn_channel = a, read_buf = Buffer_new junk, conn_parser = HttpParser_reset,
                         timeout_timer = 0, closed = False\<rparr>;
                    (c1, s2) = refresh_timeout env c s1
                in Inr (put_conn f c1 s2)))"

text \<open>\<open>on_accept\<close> above gets the descriptor \<open>accept\<close> returned. Destroying a connection destroys its channel and closes its socket, unless that has been closed already.\<close>

definition destroy_connection :: "connection \<Rightarrow> 'h http_server \<Rightarrow> srv_fault + 'h http_server" where
  "destroy_connection c s =
     sum_bind (on_loop (Channel_destroy (self_of s) False (conn_channel c)) s)
       (\<lambda>s1. Inr (s1\<lparr>srv_open := srv_open s1 - {conn_fd c}\<rparr>))"

definition erase_connection :: "int \<Rightarrow> 'h http_server \<Rightarrow> srv_fault + 'h http_server" where
  "erase_connection f s =
     (case map_of (connections s) f of
        None \<Rightarrow> Inr s
      | Some c \<Rightarrow> destroy_connection c (s\<lparr>connections := AList.delete f (connections s)\<rparr>))"

text \<open>\<open>start\<close>, from the results of the three system calls, and \<open>stop\<close>.\<close>

definition srv_start :: "int \<Rightarrow> bool \<Rightarrow> bool \<Rightarrow> 'h http_server \<Rightarrow> srv_fault + 'h http_server" where
  "srv_start f bound listening s =
     (if running s then Inr s
      else if f = kInvalidFd then Inl (LoopFault Abort)
      else if \<not> bound then Inl (LoopFault Abort)
      else if \<not> listening then Inl (LoopFault Abort)
      else sum_bind (new_channel f False (s\<lparr>listen_fd := f, srv_open := insert f (srv_open s)\<rparr>))
             (\<lambda>(a, s1). Inr (s1\<lparr>listen_channel := Some a, running := True\<rparr>)))"

definition stop_connection :: "connection \<Rightarrow> 'h http_server \<Rightarrow> srv_fault + 'h http_server" where
  "stop_connection c s =
     (let s1 = (if timeout_timer c \<noteq> 0 then s\<lparr>srv_loop := cancel_timer (timeout_timer c) (srv_loop s)\<rparr> else s)
      in sum_bind (on_loop (with_poller (self_of s1) (disable_all (conn_channel c))) s1)
           (\<lambda>s2. Inr (s2\<lparr>srv_open := srv_open s2 - {conn_fd c}\<rparr>)))"

definition srv_stop :: "'h http_server \<Rightarrow> srv_fault + 'h http_server" where
  "srv_stop s =
     (if \<not> running s then Inr s
      else
        let conns = map snd (connections s)
        in sum_bind (for_each stop_connection conns (s\<lparr>running := False\<rparr>))
             (\<lambda>s1. sum_bind (for_each destroy_connection conns (s1\<lparr>connections := []\<rparr>))
               (\<lambda>s2. case listen_channel s2 of
                  None \<Rightarrow> Inl NullDeref
                | Some a \<Rightarrow>
                    sum_bind (on_loop (with_poller (self_of s2) (disable_all a)) s2)
                      (\<lambda>s3. sum_bind (on_loop (Channel_destroy (self_of s3) False a) s3)
                        (\<lambda>s4. Inr (s4\<lparr>listen_channel := None, srv_open := srv_open s4 - {listen_fd s4},
                                     listen_fd := kInvalidFd\<rparr>))))))"

text \<open>The server's closures when the loop runs them. The timeout reads the descriptor of the channel inside its connection, which must still exist.\<close>

definition run_http_task :: "http_task \<Rightarrow> 'h http_server \<Rightarrow> srv_fault + 'h http_server" where
  "run_http_task t s =
     (case t of
        EraseConnection f \<Rightarrow> erase_connection f s
      | ConnectionTimeout a \<Rightarrow>
          (case heap (loop_poller (srv_loop s)) a of
             None \<Rightarrow> Inl (LoopFault (PollFault UseAfterFree))
           | Some ch \<Rightarrow> on_close (fd ch) s))"

section \<open>One block is enough\<close>

text \<open>A buffer that has never left its first block keeps everything it holds in view of the parser.\<close>

definition single :: "buffer \<Rightarrow> bool" where
  "single b \<longleftrightarrow> length (blocks b) = 1 \<and> read_block b = 0 \<and> write_block b = 0"

lemma buf_size_content: "buf_ok b \<Longrightarrow> buf_size b = length (content b)"
  by (simp add: buf_ok_def)

lemma retrieve_single: "single b \<Longrightarrow> single (retrieve b n)"
  by (subst retrieve_def, subst retrieve_loop.simps)
    (simp add: single_def retrieve_finish_def consume_from_read_block_def compact_def Let_def)

lemma parse_loop_single:
  "parse_loop k p b t = Some (Inr (n, p', b')) \<Longrightarrow> single b \<Longrightarrow> single b'"
  by (induction k p b t rule: parse_loop.induct)
    (auto simp: retrieve_single split: if_splits sum.splits prod.splits)

lemma parse_single: "parse p b = Some (Inr (n, p', b')) \<Longrightarrow> single b \<Longrightarrow> single b'"
  unfolding parse_def by (rule parse_loop_single)

lemma recv_into_single:
  "single b \<Longrightarrow> writable (wblk b) \<noteq> 0 \<Longrightarrow> single (recv_into b bs)"
  by (simp add: single_def recv_into_def begin_write_def poke_def has_written_def Let_def)

lemma peek_single: "buf_ok b \<Longrightarrow> single b \<Longrightarrow> peek b = content b"
  by (cases "blocks b") (auto simp: single_def peek_def content_def buf_ok_def blk_view_def)

section \<open>Requests on the wire\<close>

type_synonym wire_request = "string \<times> string \<times> string \<times> (string \<times> string) list \<times> string"

fun wire_text :: "wire_request \<Rightarrow> string" where
  "wire_text (m, target, v, hs, bd) = print_head m target v hs @ bd"

fun wire_ok_request :: "wire_request \<Rightarrow> bool" where
  "wire_ok_request (m, target, v, hs, bd) \<longleftrightarrow>
     line_ok m target v \<and> (\<forall>kv \<in> set hs. header_ok kv) \<and> map_of (rev hs) ''Transfer-Encoding'' = None \<and>
     map_of (rev hs) ''Content-Length'' = (if bd = [] then None else Some (dec_string (length bd))) \<and> length bd < 2 ^ 64"

fun wire_value :: "wire_request \<Rightarrow> http_request" where
  "wire_value (m, target, v, hs, bd) =
     \<lparr>req_method = method_from_str m, path = target, query = [], version = v, headers = map_of (rev hs), body = bd,
      keep_alive = True\<rparr>"

lemma wire_text_nonempty [simp]: "wire_text r \<noteq> []"
  by (cases r) (simp add: print_head_def request_line_def)

lemma parse_wire:
  assumes "buf_ok b" and "single b" and "wire_ok_request r" and "content b = wire_text r @ rest"
  shows "\<exists>n p' b'. parse HttpParser_reset b = Some (Inr (n, p', b')) \<and> is_done p' \<and> request p' = wire_value r \<and>
    buf_ok b' \<and> single b' \<and> content b' = rest"
proof -
  obtain m target v hs bd where r: "r = (m, target, v, hs, bd)" by (cases r) auto
  have "prefix (print_head m target v hs) (peek b)"
    using assms(4) peek_single [OF assms(1,2)] by (simp add: r)
  from parse_fixed_head [OF assms(1) _ _ this, of bd rest] obtain p' b' where
    "parse HttpParser_reset b = Some (Inr (length (print_head m target v hs @ bd), p', b'))" "is_done p'"
    "request p' = wire_value r" "buf_ok b'" "content b' = rest"
    using assms(3,4) by (auto simp: r)
  with parse_single [OF this(1) assms(2)] show ?thesis by blast
qed

section \<open>Sending\<close>

text \<open>How many bytes \<open>send\<close> takes when it is asked to take all of \<open>raw\<close>, what it takes, and the two cases: it takes something, as a \<open>send\<close> that succeeds
  does, or it takes everything, which a \<open>send\<close> on a non-blocking socket does only while its buffer has room.\<close>

definition send_all_of :: "'h http_env \<Rightarrow> int \<Rightarrow> string \<Rightarrow> int \<times> int" where
  "send_all_of env f raw = http_send env f raw (count_to_int (of_nat (length raw)))"

definition sent :: "'h http_env \<Rightarrow> int \<Rightarrow> string \<Rightarrow> string" where
  "sent env f raw = take (nat (fst (send_all_of env f raw))) raw"

definition sends_some :: "'h http_env \<Rightarrow> int \<Rightarrow> bool" where
  "sends_some env f \<longleftrightarrow> (\<forall>raw. raw \<noteq> [] \<longrightarrow> 0 < fst (send_all_of env f raw))"

definition sends_all :: "'h http_env \<Rightarrow> int \<Rightarrow> bool" where
  "sends_all env f \<longleftrightarrow> (\<forall>raw. raw \<noteq> [] \<longrightarrow> send_all_of env f raw = (int (length raw), 0))"

lemma sends_all_some:
  assumes "sends_all env f"
  shows "sends_some env f" and "sent env f raw = raw"
  using assms by (cases "raw = []"; simp add: sends_all_def sends_some_def sent_def)+

lemma serialize_nonempty [simp]: "serialize iter r \<noteq> []"
  by (simp add: serialize_def)

lemma send_response_some:
  assumes "sends_some env f"
  shows "send_response env f resp s = Inr (s\<lparr>wire := (wire s)(f := wire s f @ sent env f (serialize (http_iter env) resp))\<rparr>)"
proof -
  obtain n e where n: "http_send env f (serialize (http_iter env) resp) (count_to_int (of_nat (length (serialize (http_iter env) resp)))) = (n, e)" by fastforce
  then have "0 < n" using assms by (auto simp: sends_some_def send_all_of_def dest: spec [of _ "serialize (http_iter env) resp"])
  with n show ?thesis by (simp add: send_response_def sent_def send_all_of_def socket_write_def Let_def)
qed

lemma map_of_put_conn [simp]: "map_of (connections (put_conn f c s)) g = (if g = f then Some c else map_of (connections s) g)"
  by (simp add: put_conn_def update_conv')

lemma put_conn_frame [simp]:
  "srv_router (put_conn f c s) = srv_router s" "static_dir (put_conn f c s) = static_dir s" "wire (put_conn f c s) = wire s"
  "srv_loop (put_conn f c s) = srv_loop s" "srv_open (put_conn f c s) = srv_open s" "next_addr (put_conn f c s) = next_addr s"
  by (simp_all add: put_conn_def)

lemma answer_cong:
  assumes "srv_router s = srv_router t" and "static_dir s = static_dir t"
  shows "answer env s = answer env t"
  unfolding answer_def assms ..

lemma keep_alive_wire [simp]: "keep_alive (wire_value r)"
  by (cases r) simp

lemma handle_wire:
  assumes "sends_some env f" and "map_of (connections s) f = Some c" and "request (conn_parser c) = wire_value r"
  shows "handle_request env f s =
    Inr (s\<lparr>wire := (wire s)(f := wire s f @ sent env f (serialize (http_iter env) (answer env s (wire_value r))))\<rparr>)"
  using assms by (simp add: handle_request_def send_response_some Let_def)

text \<open>A connection between requests: nothing buffered, nothing half parsed.\<close>

definition idle_conn :: "connection \<Rightarrow> bool" where
  "idle_conn c \<longleftrightarrow> conn_parser c = HttpParser_reset \<and> buf_ok (read_buf c) \<and> single (read_buf c) \<and> content (read_buf c) = []"

definition replies :: "'h http_env \<Rightarrow> 'h http_server \<Rightarrow> wire_request list \<Rightarrow> string" where
  "replies env s rs = concat (map (\<lambda>r. serialize (http_iter env) (answer env s (wire_value r))) rs)"

text \<open>What is sent of the replies: of each the part the system takes.\<close>

definition sent_replies :: "'h http_env \<Rightarrow> int \<Rightarrow> 'h http_server \<Rightarrow> wire_request list \<Rightarrow> string" where
  "sent_replies env f s rs = concat (map (\<lambda>r. sent env f (serialize (http_iter env) (answer env s (wire_value r)))) rs)"

lemma sent_replies_all: "sends_all env f \<Longrightarrow> sent_replies env f s rs = replies env s rs"
  by (simp add: sent_replies_def replies_def sends_all_some(2))

lemma message_loop_pipeline:
  assumes "sends_some env f"
  shows "map_of (connections s) f = Some c \<Longrightarrow> conn_parser c = HttpParser_reset \<Longrightarrow> buf_ok (read_buf c) \<Longrightarrow>
    single (read_buf c) \<Longrightarrow> \<forall>r \<in> set rs. wire_ok_request r \<Longrightarrow> content (read_buf c) = concat (map wire_text rs) \<Longrightarrow>
    length rs < n \<Longrightarrow>
    \<exists>s' c'. message_loop n env f s = Inr s' \<and> wire s' f = wire s f @ sent_replies env f s rs \<and>
      map_of (connections s') f = Some c' \<and> closed c' = closed c \<and> idle_conn c'"
proof (induction rs arbitrary: s c n)
  case Nil
  then obtain k where "n = Suc k" by (cases n) auto
  moreover have "buf_size (read_buf c) = 0"
    using Nil by (simp add: buf_size_content)
  ultimately show ?case
    using Nil by (intro exI [of _ s] exI [of _ c]) (simp add: idle_conn_def sent_replies_def)
next
  case (Cons r rs)
  then obtain k where k: "n = Suc k" "length rs < k" by (cases n) auto
  obtain m p b where parse: "parse HttpParser_reset (read_buf c) = Some (Inr (m, p, b))" and p: "is_done p" "request p = wire_value r"
    and b: "buf_ok b" "single b" "content b = concat (map wire_text rs)"
    using parse_wire [of "read_buf c" r "concat (map wire_text rs)"] Cons.prems by auto
  let ?s = "put_conn f (c\<lparr>conn_parser := p, read_buf := b\<rparr>) s"
  let ?t = "?s\<lparr>wire := (wire ?s)(f := wire ?s f @ sent env f (serialize (http_iter env) (answer env ?s (wire_value r))))\<rparr>"
  let ?c = "c\<lparr>read_buf := b, conn_parser := HttpParser_reset\<rparr>"
  let ?u = "put_conn f ?c ?t"
  have size: "0 < buf_size (read_buf c)"
    using Cons.prems by (simp add: buf_size_content)
  have handled: "handle_request env f ?s = Inr ?t"
    by (rule handle_wire [OF assms, of _ "c\<lparr>conn_parser := p, read_buf := b\<rparr>"]) (simp_all add: p)
  have conn: "map_of (connections ?t) f = Some (c\<lparr>conn_parser := p, read_buf := b\<rparr>)" by simp
  have "\<not> has_error p" using p(1) by (simp add: is_done_def has_error_def)
  then have step: "message_loop n env f s = message_loop k env f ?u"
    unfolding k(1) message_loop.simps Cons.prems(1)
    using parse Cons.prems(2) size p(1) handled conn by (simp add: Let_def del: put_conn_frame)
  obtain s' c' where IH: "message_loop k env f ?u = Inr s'" "wire s' f = wire ?u f @ sent_replies env f ?u rs"
      "map_of (connections s') f = Some c'" "closed c' = closed ?c" "idle_conn c'"
    using Cons.IH [of ?u ?c k] Cons.prems b k(2) by auto
  have "answer env ?s = answer env s" "answer env ?u = answer env s"
    by (rule answer_cong; simp)+
  with IH step show ?case by (auto simp: sent_replies_def)
qed

section \<open>Invariant\<close>

definition conn_ok :: "poller \<Rightarrow> int \<Rightarrow> connection \<Rightarrow> bool" where
  "conn_ok p f c \<longleftrightarrow> conn_fd c = f \<and> buf_ok (read_buf c) \<and> map_of (channels p) f = Some (conn_channel c) \<and>
     (\<exists>ch. heap p (conn_channel c) = Some ch \<and> added_to_loop ch)"

text \<open>Every connection has its own registered channel, registered descriptors are open, and the next address is free.\<close>

definition srv_ok :: "'h http_server \<Rightarrow> bool" where
  "srv_ok s \<longleftrightarrow> poller_ok (loop_poller (srv_loop s)) \<and> (\<forall>a \<ge> next_addr s. heap (loop_poller (srv_loop s)) a = None) \<and>
     dom (map_of (channels (loop_poller (srv_loop s)))) \<subseteq> srv_open s \<and>
     (\<forall>f c. map_of (connections s) f = Some c \<longrightarrow> conn_ok (loop_poller (srv_loop s)) f c)"

lemma srv_okD:
  "srv_ok s \<Longrightarrow> poller_ok (loop_poller (srv_loop s))"
  "srv_ok s \<Longrightarrow> map_of (connections s) f = Some c \<Longrightarrow> conn_ok (loop_poller (srv_loop s)) f c"
  "srv_ok s \<Longrightarrow> next_addr s \<le> a \<Longrightarrow> heap (loop_poller (srv_loop s)) a = None"
  "srv_ok s \<Longrightarrow> map_of (channels (loop_poller (srv_loop s))) f = Some a \<Longrightarrow> f \<in> srv_open s"
  by (auto simp: srv_ok_def)

lemma put_conn_ok:
  "srv_ok s \<Longrightarrow> conn_ok (loop_poller (srv_loop s)) f c \<Longrightarrow> srv_ok (put_conn f c s)"
  by (simp add: srv_ok_def)

lemma srv_loop_ok:
  "srv_ok s \<Longrightarrow> loop_poller l = loop_poller (srv_loop s) \<Longrightarrow> srv_ok (s\<lparr>srv_loop := l\<rparr>)"
  by (simp add: srv_ok_def)

lemma queue_poller [simp]: "loop_poller (queue_in_loop self t l) = loop_poller l"
  by (simp add: queue_in_loop_def push_task_def wakeup_def Let_def)

lemma cancel_poller [simp]: "loop_poller (cancel_timer i l) = loop_poller l"
  by (simp add: cancel_timer_def)

text \<open>Closing succeeds, and changes of a connection only that it is closed. \<open>srv_frame\<close> collects what no handler changes; the only task a handler queues is the erasure of a connection.\<close>

definition only_erases :: "'h http_server \<Rightarrow> bool" where
  "only_erases s \<longleftrightarrow> set (pending_tasks (srv_loop s)) \<subseteq> range EraseConnection"

lemma only_erases_frame [simp]:
  "only_erases (s\<lparr>wire := w\<rparr>) = only_erases s" "only_erases (put_conn f c s) = only_erases s"
  "only_erases (s\<lparr>srv_loop := l\<rparr>) \<longleftrightarrow> set (pending_tasks l) \<subseteq> range EraseConnection"
  by (simp_all add: only_erases_def put_conn_def)

lemma pending_frame [simp]:
  "pending_tasks (queue_in_loop self t l) = pending_tasks l @ [t]" "pending_tasks (cancel_timer i l) = pending_tasks l"
  by (simp_all add: queue_in_loop_def push_task_def wakeup_def cancel_timer_def Let_def)

definition srv_frame :: "'h http_server \<Rightarrow> 'h http_server \<Rightarrow> bool" where
  "srv_frame s s' \<longleftrightarrow>
     running s' = running s \<and> listen_fd s' = listen_fd s \<and> listen_channel s' = listen_channel s \<and> srv_open s' = srv_open s \<and>
     next_addr s' = next_addr s \<and> map fst (connections s') = map fst (connections s) \<and> wakeup_fd (srv_loop s') = wakeup_fd (srv_loop s) \<and>
     channels (loop_poller (srv_loop s')) = channels (loop_poller (srv_loop s)) \<and>
     keeps_added (loop_poller (srv_loop s)) (loop_poller (srv_loop s')) \<and> keeps_callbacks (loop_poller (srv_loop s)) (loop_poller (srv_loop s')) \<and>
     (only_erases s \<longrightarrow> only_erases s')"

definition same_conns :: "'h http_server \<Rightarrow> 'h http_server \<Rightarrow> bool" where
  "same_conns s s' \<longleftrightarrow> srv_frame s s' \<and> (\<forall>f c. map_of (connections s) f = Some c \<longrightarrow>
     (\<exists>c'. map_of (connections s') f = Some c' \<and> read_buf c' = read_buf c \<and> conn_parser c' = conn_parser c))"

lemma srv_frame_refl [simp]: "srv_frame s s"
  by (simp add: srv_frame_def)

lemma srv_frame_trans [trans]: "srv_frame s t \<Longrightarrow> srv_frame t u \<Longrightarrow> srv_frame s u"
  unfolding srv_frame_def by (auto intro: keeps_added_trans keeps_callbacks_trans)

lemma srv_frame_put:
  assumes "map_of (connections s) f = Some c"
  shows "srv_frame s (put_conn f d s)"
proof -
  have "f \<in> fst ` set (connections s)" using map_of_SomeD [OF assms] by (rule rev_image_eqI) simp
  then show ?thesis by (simp add: srv_frame_def put_conn_def update_keys only_erases_def)
qed

lemma same_conns_refl [simp]: "same_conns s s"
  by (simp add: same_conns_def)

lemma same_conns_trans:
  assumes "same_conns s t" and "same_conns t u"
  shows "same_conns s u"
proof -
  have "srv_frame s u" using assms srv_frame_trans unfolding same_conns_def by blast
  then show ?thesis using assms unfolding same_conns_def by fastforce
qed

lemma queue_wakeup_fd [simp]: "wakeup_fd (queue_in_loop self t l) = wakeup_fd l"
  by (simp add: queue_in_loop_def push_task_def wakeup_def Let_def)

lemma cancel_wakeup_fd [simp]: "wakeup_fd (cancel_timer i l) = wakeup_fd l"
  by (simp add: cancel_timer_def)

lemma on_close_ok:
  assumes "srv_ok s"
  shows "\<exists>s'. on_close f s = Inr s' \<and> srv_ok s' \<and> same_conns s s'"
proof (cases "map_of (connections s) f")
  case (Some c)
  show ?thesis
  proof (cases "closed c")
    case False
    let ?p = "loop_poller (srv_loop s)" and ?s1 = "put_conn f (c\<lparr>closed := True\<rparr>) s"
    define l where "l = (if timeout_timer c \<noteq> 0 then cancel_timer (timeout_timer c) (srv_loop s) else srv_loop s)"
    note c = srv_okD(2) [OF assms Some]
    then have own: "map_of (channels ?p) f = Some (conn_channel c)" by (simp add: conn_ok_def)
    from disable_all_ok [OF srv_okD(1) [OF assms] this] obtain p' where
      p': "disable_all (conn_channel c) ?p = Inr p'" "poller_ok p'" "channels p' = channels ?p" "\<forall>b. heap ?p b = None \<longrightarrow> heap p' b = None"
        "\<forall>b ch. heap ?p b = Some ch \<and> added_to_loop ch \<longrightarrow> (\<exists>ch'. heap p' b = Some ch' \<and> added_to_loop ch')"
      by auto
    let ?s' = "?s1\<lparr>srv_loop := queue_in_loop (thread_id l) (EraseConnection f) (l\<lparr>loop_poller := p'\<rparr>)\<rparr>"
    have l: "loop_poller l = ?p" by (simp add: l_def)
    have "on_close f s = Inr ?s'"
      using Some False p'(1) l
      by (simp add: on_close_def Let_def on_loop_def with_poller_def assert_in_loop_thread_def is_in_loop_thread_def l_def)
    moreover have "srv_ok ?s'"
      using assms c p'(2-5) by (auto simp: srv_ok_def conn_ok_def put_conn_def update_conv' split: if_splits)
    moreover have "same_conns s ?s'"
      using Some p'(3,5) srv_frame_put [OF Some, of "c\<lparr>closed := True\<rparr>"] disable_all_callbacks [OF srv_okD(1) [OF assms] own p'(1)]
      by (simp add: same_conns_def srv_frame_def l_def keeps_added_def added_def) (simp add: only_erases_def)
    ultimately show ?thesis by blast
  qed (use Some assms in \<open>simp add: on_close_def\<close>)
qed (use assms in \<open>simp add: on_close_def\<close>)

lemma send_response_ok:
  assumes "srv_ok s"
  shows "\<exists>s'. send_response env f resp s = Inr s' \<and> srv_ok s' \<and> same_conns s s'"
proof (cases "socket_write (\<lambda>f. http_send env f (serialize (http_iter env) resp)) f
    (of_nat (length (serialize (http_iter env) resp)))")
  case (Inl e)
  then show ?thesis using on_close_ok [OF assms] by (simp add: send_response_def Let_def)
next
  case (Inr n)
  then show ?thesis using assms by (simp add: send_response_def Let_def srv_ok_def same_conns_def srv_frame_def)
qed

lemma handle_request_ok:
  assumes "srv_ok s" and "map_of (connections s) f = Some c"
  shows "\<exists>s'. handle_request env f s = Inr s' \<and> srv_ok s' \<and> same_conns s s'"
proof -
  let ?req = "request (conn_parser c)"
  obtain s1 where s1: "send_response env f (answer env s ?req) s = Inr s1" "srv_ok s1" "same_conns s s1"
    using send_response_ok [OF assms(1)] by blast
  moreover obtain s2 where "on_close f s1 = Inr s2" "srv_ok s2" "same_conns s1 s2"
    using on_close_ok [OF s1(2)] by blast
  ultimately show ?thesis
    using assms(2) same_conns_trans [of s s1 s2] by (auto simp: handle_request_def Let_def)
qed

text \<open>A parser that starts afresh does not finish a request without consuming anything.\<close>

lemma parse_loop_total: "parse_loop k p b t = Some (Inr (n, p', b')) \<Longrightarrow> t \<le> n"
proof (induction k p b t rule: parse_loop.induct)
  case (2 k p b t)
  then show ?case by (fastforce split: if_splits sum.splits prod.splits)
qed simp

lemma parse_request_line_not_done: "state p \<noteq> DONE \<Longrightarrow> parse_request_line p view = (n, p') \<Longrightarrow> state p' \<noteq> DONE"
  by (auto simp: parse_request_line_def Let_def split: option.splits if_splits)

lemma parse_reset_done:
  assumes "parse HttpParser_reset b = Some (Inr (n, p', b'))" and "is_done p'"
  shows "0 < n"
proof -
  let ?mem = "case peek_data b of Some mem \<Rightarrow> mem | None \<Rightarrow> []"
  obtain m q where q: "parse_request_line HttpParser_reset (take (peek_size b) ?mem) = (m, q)" by fastforce
  then have "state q \<noteq> DONE"
    using parse_request_line_not_done [OF _ q] by (simp add: HttpParser_reset_def)
  moreover have "parse_switch HttpParser_reset ?mem (peek_size b) = Inr (m, q)"
    using q by (simp add: parse_switch_def HttpParser_reset_def)
  moreover have "state HttpParser_reset = START" by (simp add: HttpParser_reset_def)
  ultimately show ?thesis
    using assms parse_loop_total [of "buf_size b" q "retrieve b m" m n p' b']
    by (auto simp: parse_def is_done_def split: if_splits)
qed

lemma parse_cases:
  assumes "buf_ok b"
  obtains e where "parse p b = Some (Inl e)"
  | n p' b' where "parse p b = Some (Inr (n, p', b'))" "buf_ok b'" "buf_size b = buf_size b' + n"
proof -
  have "parse p b \<noteq> None"
    using parse_loop_returns [OF assms, of "Suc (buf_size b)" p 0] by (simp add: parse_def del: parse_loop.simps)
  then consider e where "parse p b = Some (Inl e)" | n p' b' where "parse p b = Some (Inr (n, p', b'))"
    by (cases "parse p b") (auto, metis sum.exhaust prod_cases3)
  then show thesis
  proof cases
    case 2
    from parse_loop_consumes [OF assms this [unfolded parse_def]]
    have "buf_ok b' \<and> buf_size b = buf_size b' + n"
      using assms by (auto simp: buf_size_content)
    with 2 that(2) show thesis by blast
  qed (rule that(1))
qed

definition served :: "'h http_server \<Rightarrow> srv_fault + 'h http_server \<Rightarrow> bool" where
  "served s r \<longleftrightarrow> (\<exists>s'. r = Inr s' \<and> srv_ok s' \<and> srv_frame s s') \<or> (\<exists>e. r = Inl (ParseFault e))"

lemma served_Inr [simp]: "srv_ok s \<Longrightarrow> srv_frame t s \<Longrightarrow> served t (Inr s)"
  and served_fault [simp]: "served t (Inl (ParseFault e))"
  by (simp_all add: served_def)

lemma served_trans: "srv_frame s t \<Longrightarrow> served t r \<Longrightarrow> served s r"
  unfolding served_def by (blast intro: srv_frame_trans)

lemma served_close: "srv_ok s \<Longrightarrow> served s (on_close f s)"
  using on_close_ok [of s f] by (auto simp: served_def same_conns_def)

lemma served_error:
  assumes "srv_ok s"
  shows "served s (sum_bind (send_response env f resp s) (on_close f))"
proof -
  obtain s' where "send_response env f resp s = Inr s'" "srv_ok s'" "srv_frame s s'"
    using send_response_ok [OF assms] unfolding same_conns_def by blast
  then show ?thesis using served_trans [OF _ served_close] by simp
qed

lemma conn_ok_buf: "conn_ok p f c \<Longrightarrow> buf_ok b \<Longrightarrow> conn_ok p f (c\<lparr>conn_parser := q, read_buf := b\<rparr>)"
  by (simp add: conn_ok_def)

definition loop_measure :: "connection \<Rightarrow> nat" where
  "loop_measure c = 2 * buf_size (read_buf c) + (if conn_parser c = HttpParser_reset then 0 else 1)"

lemma message_loop_total:
  "srv_ok s \<Longrightarrow> map_of (connections s) f = Some c \<Longrightarrow> loop_measure c < k \<Longrightarrow> served s (message_loop k env f s)"
proof (induction k arbitrary: s c)
  case (Suc k)
  note c = srv_okD(2) [OF Suc.prems(1,2)]
  then have buf: "buf_ok (read_buf c)" by (simp add: conn_ok_def)
  show ?case
  proof (cases "buf_size (read_buf c) = 0")
    case False
    from buf show ?thesis
    proof (cases rule: parse_cases [where p = "conn_parser c"])
      case (1 e)
      then show ?thesis using Suc.prems False by simp
    next
      case (2 n p b)
      let ?c = "c\<lparr>conn_parser := p, read_buf := b\<rparr>"
      let ?s = "put_conn f ?c s"
      have s: "srv_ok ?s"
        by (intro put_conn_ok conn_ok_buf Suc.prems(1) c 2(2))
      have frame: "srv_frame s ?s" by (rule srv_frame_put [OF Suc.prems(2)])
      have step: "message_loop (Suc k) env f s =
         (if has_error p then sum_bind (send_response env f (not_found ''400 Bad Request'') ?s) (on_close f)
          else if is_done p
          then sum_bind (handle_request env f ?s)
                 (\<lambda>s2. case map_of (connections s2) f of
                         None \<Rightarrow> Inl NullDeref
                       | Some c2 \<Rightarrow> message_loop k env f (put_conn f (c2\<lparr>conn_parser := HttpParser_reset\<rparr>) s2))
          else if n = 0 then Inr ?s else message_loop k env f ?s)"
        using 2(1) Suc.prems(2) False by (simp add: Let_def)
      consider "has_error p" | "\<not> has_error p" "is_done p" | "\<not> has_error p" "\<not> is_done p" by blast
      then show ?thesis
      proof cases
        case 1
        then show ?thesis unfolding step using served_trans [OF frame served_error [OF s]] by simp
      next
        case fin: 2
        obtain s2 where s2: "handle_request env f ?s = Inr s2" "srv_ok s2" "same_conns ?s s2"
          using handle_request_ok [OF s, of f ?c] by auto
        then obtain c2 where c2: "map_of (connections s2) f = Some c2" "read_buf c2 = b"
          unfolding same_conns_def by (metis map_of_put_conn connection.select_convs(3) connection.update_convs(3) connection.surjective)
        let ?c2 = "c2\<lparr>conn_parser := HttpParser_reset\<rparr>"
        have "0 < n \<or> conn_parser c \<noteq> HttpParser_reset"
          using parse_reset_done 2(1) fin(2) by metis
        then have "loop_measure ?c2 < loop_measure c"
          using c2(2) 2(3) by (auto simp: loop_measure_def)
        moreover have "srv_ok (put_conn f ?c2 s2)"
          using srv_okD(2) [OF s2(2) c2(1)] by (intro put_conn_ok s2(2)) (simp add: conn_ok_def)
        ultimately have "served (put_conn f ?c2 s2) (message_loop k env f (put_conn f ?c2 s2))"
          using Suc.IH [of "put_conn f ?c2 s2" ?c2] Suc.prems(3) by simp
        moreover have "srv_frame s (put_conn f ?c2 s2)"
          using frame s2(3) srv_frame_put [OF c2(1)] unfolding same_conns_def by (meson srv_frame_trans)
        ultimately have "served s (message_loop k env f (put_conn f ?c2 s2))" by (rule served_trans [rotated])
        then show ?thesis unfolding step using fin s2(1) c2(1) by simp
      next
        case 3
        have "served ?s (message_loop k env f ?s)" if "n \<noteq> 0"
          using that Suc.IH [OF s, of ?c] Suc.prems(3) 2(3) by (simp add: loop_measure_def split: if_splits)
        then show ?thesis unfolding step using 3 s frame served_trans [OF frame] by simp
      qed
    qed
  qed (use Suc.prems in simp)
qed simp

section \<open>Receiving\<close>

text \<open>The documented behaviour of \<open>recv\<close>: it returns no more than it was asked for, and stores as many bytes as it returns.\<close>

definition recv_ok :: "'h http_env \<Rightarrow> bool" where
  "recv_ok env \<longleftrightarrow>
     (\<forall>f k. fst (fst (http_recv env f k)) \<le> k \<and>
        int (length (snd (http_recv env f k))) = max 0 (fst (fst (http_recv env f k))))"

lemma count_of_writable: "count_to_int (of_nat (writable k)) = int (writable k)"
proof -
  have "writable k \<le> 4096" by (simp add: writable_def kBlockSize_def)
  then have "unat (of_nat (writable k) :: size_t) = writable k" by (simp add: unat_of_nat)
  then show ?thesis using count_to_int_small [of "of_nat (writable k)"] \<open>writable k \<le> 4096\<close> by simp
qed

lemma fst_begin_write: "fst (begin_write b) = writable (wblk (snd (begin_write b)))"
  by (simp add: begin_write_def Let_def)

lemma refresh_timeout_fields:
  assumes "refresh_timeout env c s = (c', s')"
  shows "read_buf c' = read_buf c" "conn_parser c' = conn_parser c" "conn_fd c' = conn_fd c" "conn_channel c' = conn_channel c"
    "closed c' = closed c" "loop_poller (srv_loop s') = loop_poller (srv_loop s)" "connections s' = connections s"
    "wire s' = wire s" "srv_router s' = srv_router s" "static_dir s' = static_dir s" "srv_open s' = srv_open s" "next_addr s' = next_addr s"
  using assms
  by (auto simp: refresh_timeout_def run_after_def with_wheel_def Let_def split: prod.splits if_splits)

lemma refresh_timeout_frame: "refresh_timeout env c s = (c', s') \<Longrightarrow> srv_frame s s'"
  by (auto simp: srv_frame_def refresh_timeout_def run_after_def with_wheel_def Let_def only_erases_def split: prod.splits if_splits)

text \<open>\<open>on_message\<close> on an open connection, with its reads resolved.\<close>

lemma on_message_open:
  assumes "map_of (connections s) f = Some c" and "\<not> closed c"
    and "begin_write (read_buf c) = (w, b)" and "0 < w" and "http_recv env f (int w) = ((n, err), bytes)"
  shows "on_message env f s =
    (let s1 = put_conn f (c\<lparr>read_buf := b\<rparr>) s
     in if n \<le> 0 then on_close f s1
        else let b2 = has_written (poke b (take (nat n) bytes)) (nat n);
                 (c2, s2) = refresh_timeout env (c\<lparr>read_buf := b2\<rparr>) s1
             in message_loop (2 * buf_size b2 + 2) env f (put_conn f c2 s2))"
proof -
  have w: "w = writable (wblk b)"
    using fst_begin_write [of "read_buf c"] assms(3) by simp
  then have "http_recv env f (count_to_int (of_nat w)) = ((n, err), bytes)"
    using assms(5) by (simp add: count_of_writable)
  then show ?thesis
    using assms(1-4) by (simp add: on_message_def socket_read_def io_error_def make_errno_result_def Let_def)
qed

lemma on_message_served:
  assumes "srv_ok s" and "recv_ok env"
  shows "served s (on_message env f s)"
proof (cases "map_of (connections s) f")
  case (Some c)
  obtain w b where b: "begin_write (read_buf c) = (w, b)" by fastforce
  obtain n err bytes where recv: "http_recv env f (int w) = ((n, err), bytes)" by (metis surj_pair)
  note c = srv_okD(2) [OF assms(1) Some]
  then have buf: "buf_ok (read_buf c)" "buf_ok b"
    using begin_write_ok [of "read_buf c"] b by (auto simp: conn_ok_def)
  let ?s1 = "put_conn f (c\<lparr>read_buf := b\<rparr>) s"
  have s1: "srv_ok ?s1"
    using c buf(2) by (intro put_conn_ok assms(1)) (simp add: conn_ok_def)
  have f1: "srv_frame s ?s1" by (rule srv_frame_put [OF Some])
  show ?thesis
  proof (cases "closed c \<or> w = 0 \<or> n \<le> 0")
    case True
    then consider "closed c" | "\<not> closed c" "w = 0" | "\<not> closed c" "0 < w" "n \<le> 0" by auto
    then show ?thesis
    proof cases
      case 3
      then show ?thesis using on_message_open [OF Some _ b _ recv] served_trans [OF f1 served_close [OF s1]] by simp
    qed (use Some assms(1) b served_trans [OF f1 served_close [OF s1]] in \<open>simp_all add: on_message_def\<close>)
  next
    case False
    let ?b2 = "has_written (poke b (take (nat n) bytes)) (nat n)"
    obtain c2 s2 where r: "refresh_timeout env (c\<lparr>read_buf := ?b2\<rparr>) ?s1 = (c2, s2)" by fastforce
    note r' = refresh_timeout_fields [OF r]
    have "n \<le> int w" "length bytes = nat n"
      using assms(2) recv False unfolding recv_ok_def by (metis fst_conv, metis (no_types) False fst_conv snd_conv max.absorb2 nat_int nle_le)
    then have "?b2 = recv_into (read_buf c) (take (nat n) bytes)" "length (take (nat n) bytes) \<le> fst (begin_write (read_buf c))"
      using b False by (simp_all add: recv_into_def)
    then have b2: "buf_ok ?b2" using recv_into_ok(1) [OF buf(1)] by simp
    have "srv_ok s2"
      using s1 r'(6,7,11,12) unfolding srv_ok_def by simp
    then have "srv_ok (put_conn f c2 s2)"
      using c b2 r' by (intro put_conn_ok) (simp_all add: conn_ok_def)
    then have "served (put_conn f c2 s2) (message_loop (2 * buf_size ?b2 + 2) env f (put_conn f c2 s2))"
      by (rule message_loop_total [where c = c2]) (simp_all add: loop_measure_def r'(1))
    moreover have "srv_frame s (put_conn f c2 s2)"
      by (rule srv_frame_trans [OF srv_frame_trans [OF f1 refresh_timeout_frame [OF r]] srv_frame_put]) (simp add: r'(7))
    ultimately have "served s (message_loop (2 * buf_size ?b2 + 2) env f (put_conn f c2 s2))" by (rule served_trans [rotated])
    then show ?thesis
      using on_message_open [OF Some _ b _ recv] False r by (simp add: Let_def)
  qed
qed (use assms in \<open>simp add: on_message_def\<close>)

section \<open>Properties\<close>

text \<open>A readable connection is served without fault: for every server in a consistent state, everything \<open>recv\<close> may deliver and
  every behaviour of \<open>send\<close>, the files and the handlers, \<open>on_message\<close> returns, its parsing loop ends, no channel or connection is used after
  it is freed, and the consistent state is kept; the only faults are those of the chunk decoder.\<close>

lemma message_total:
  assumes "srv_ok s" and "recv_ok env"
  shows "(\<exists>s'. on_message env f s = Inr s' \<and> srv_ok s') \<or> (\<exists>e. on_message env f s = Inl (ParseFault e))"
  using on_message_served [OF assms] by (auto simp: served_def)

text \<open>A server with one fresh connection on descriptor 3 and one route, for the concrete instances.\<close>

definition demo_conn :: connection where
  "demo_conn = \<lparr>conn_fd = 3, conn_channel = 1, read_buf = Buffer_new (replicate kBlockSize NUL), conn_parser = HttpParser_reset,
     timeout_timer = 0, closed = False\<rparr>"

definition demo_poller :: poller where
  "demo_poller = \<lparr>heap = [1 \<mapsto> (Channel_new 3)\<lparr>events := kReadEvent, added_to_loop := True\<rparr>], channels = [(3, 1)], channel_list = [1]\<rparr>"

definition demo_server :: "string http_server" where
  "demo_server = http_get ''/'' ''hello'' ((HttpServer_new
     \<lparr>loop_poller = demo_poller, loop_wheel = TimerWheel_new 10 6000 0, wakeup_fd = 5, wakeup_write_fd = 5, wakeup_dev = Eventfd,
      wakeup_count = 0, wakeup_channel = 0, looping = True, quit_flag = False, event_handling = True,
      calling_pending_tasks = False, thread_id = 1, pending_tasks = []\<rparr> Address_new 2 {3, 5})\<lparr>connections := [(3, demo_conn)]\<rparr>)"

definition demo_env :: "string \<Rightarrow> string http_env" where
  "demo_env bytes = \<lparr>http_now = 0, http_recv = (\<lambda>f k. if int (length bytes) \<le> k then ((int (length bytes), 0), bytes) else ((min k 0, 0), [])),
     http_send = (\<lambda>f raw k. (int (length raw), 0)), http_files = (\<lambda>name. None),
     http_run = (\<lambda>h req resp. resp_set_body h resp), http_iter = (\<lambda>m. [])\<rparr>"

lemma demo_server_simps [simp]:
  "connections demo_server = [(3, demo_conn)]" "loop_poller (srv_loop demo_server) = demo_poller" "wire demo_server f = []"
  "srv_open demo_server = {3, 5}" "next_addr demo_server = 2"
  by (simp_all add: demo_server_def http_get_def HttpServer_new_def)

lemma demo_buffer: "buf_ok (Buffer_new (replicate kBlockSize NUL))" "content (Buffer_new (replicate kBlockSize NUL)) = []"
  "single (Buffer_new (replicate kBlockSize NUL))" "writable (wblk (Buffer_new (replicate kBlockSize NUL))) = kBlockSize"
  by (auto simp: buf_ok_def content_def single_def Buffer_new_def block_reset_def blk_ok_def blk_view_def readable_def writable_def)

lemma demo_srv_ok: "srv_ok demo_server"
  by (auto simp: srv_ok_def conn_ok_def demo_conn_def demo_buffer poller_ok_def demo_poller_def Channel_new_def split: if_splits)

lemma demo_recv_ok: "recv_ok (demo_env bytes)"
  by (auto simp: recv_ok_def demo_env_def)

text \<open>Pipelining works: when a read delivers any number of complete requests in one block, the server writes
  exactly one response per request, in their order, each the serialized answer to the request that was sent, or as much of it as the system takes, and the connection is then
  open and ready for the next request.\<close>

lemma on_message_pipeline:
  assumes "map_of (connections s) f = Some c" and "\<not> closed c" and "idle_conn c" and "sends_some env f"
    and "\<forall>r \<in> set rs. wire_ok_request r" and "rs \<noteq> []"
    and "length (concat (map wire_text rs)) \<le> writable (wblk (read_buf c))"
    and "http_recv env f (int (writable (wblk (read_buf c)))) =
      ((int (length (concat (map wire_text rs))), 0), concat (map wire_text rs))"
  shows "\<exists>s' c'. on_message env f s = Inr s' \<and> wire s' f = wire s f @ sent_replies env f s rs \<and>
    map_of (connections s') f = Some c' \<and> \<not> closed c' \<and> idle_conn c'"
proof -
  let ?bs = "concat (map wire_text rs)" and ?b = "read_buf c"
  have "?bs \<noteq> []"
    using assms(6) by (cases rs) simp_all
  then have "0 < length ?bs" by (rule length_greater_0_conv [THEN iffD2])
  with assms(7) have pos: "0 < length ?bs" "0 < writable (wblk ?b)" by linarith+
  then have begin_w: "begin_write ?b = (writable (wblk ?b), ?b)"
    by (simp add: begin_write_def Let_def)
  let ?b2 = "has_written (poke ?b ?bs) (length ?bs)" and ?s1 = "put_conn f (c\<lparr>read_buf := ?b\<rparr>) s"
  have b2: "?b2 = recv_into ?b ?bs"
    by (simp add: recv_into_def begin_w)
  have idle: "buf_ok ?b" "single ?b" "content ?b = []" "conn_parser c = HttpParser_reset"
    using assms(3) by (simp_all add: idle_conn_def)
  obtain c2 s2 where r: "refresh_timeout env (c\<lparr>read_buf := ?b2\<rparr>) ?s1 = (c2, s2)" by fastforce
  note r' = refresh_timeout_fields [OF r]
  have "on_message env f s = message_loop (2 * buf_size ?b2 + 2) env f (put_conn f c2 s2)"
    using on_message_open [OF assms(1,2) begin_w pos(2) assms(8)] pos(1) r
    by (simp add: Let_def del: length_concat concat_eq_Nil_conv)
  moreover have buf: "buf_ok ?b2" "content ?b2 = ?bs" "single ?b2"
    using recv_into_ok [OF idle(1), of ?bs] recv_into_single [OF idle(2), of ?bs] begin_w assms(7) idle(3) pos(2)
    unfolding b2 by simp_all
  moreover have "length rs \<le> length ?bs"
  proof (induction rs)
    case (Cons r rs)
    then show ?case using wire_text_nonempty [of r] by (cases "wire_text r") (simp_all del: wire_text_nonempty)
  qed simp
  ultimately obtain s' c' where "on_message env f s = Inr s'" "map_of (connections s') f = Some c'" "closed c' = closed c2" "idle_conn c'"
    "wire s' f = wire (put_conn f c2 s2) f @ sent_replies env f (put_conn f c2 s2) rs"
    using message_loop_pipeline [OF assms(4), of "put_conn f c2 s2" c2 rs "2 * buf_size ?b2 + 2"] r' idle assms(5)
    by (auto simp: buf_size_content simp del: length_concat)
  moreover have "answer env (put_conn f c2 s2) = answer env s"
    by (rule answer_cong) (simp_all add: r')
  ultimately show ?thesis
    using r'(5,8) assms(2) by (auto simp: sent_replies_def)
qed



lemma on_loop_frame: "on_loop g s = Inr s' \<Longrightarrow> connections s' = connections s \<and> wire s' = wire s"
  by (cases "g (srv_loop s)") (auto simp: on_loop_def)

lemma on_close_closes:
  assumes "srv_ok s" and "map_of (connections s) f = Some c" and "\<not> closed c"
  shows "\<exists>s' c'. on_close f s = Inr s' \<and> map_of (connections s') f = Some c' \<and> closed c' \<and>
    last (pending_tasks (srv_loop s')) = EraseConnection f \<and> wire s' = wire s"
proof -
  obtain s' where "on_close f s = Inr s'"
    using on_close_ok [OF assms(1)] by blast
  moreover from this have "map_of (connections s') f = Some (c\<lparr>closed := True\<rparr>)"
    "last (pending_tasks (srv_loop s')) = EraseConnection f" "wire s' = wire s"
    using assms(2,3)
    by (auto simp: on_close_def Let_def queue_in_loop_def push_task_def wakeup_def
        split: if_splits dest!: on_loop_frame elim!: sum_bind.elims)
  ultimately show ?thesis by auto
qed

text \<open>Two ways in which the server gives up on a healthy connection. A read that would block, which \<open>Socket::read\<close> reports as an error with
  \<open>EAGAIN\<close> or \<open>EINTR\<close>, closes the connection and schedules its erasure. A write that the system takes only in part is not continued: the client gets
  a prefix of the response, the rest is dropped, and the connection stays as it was.\<close>

lemma partial_io_mishandled:
  assumes "srv_ok s" and "map_of (connections s) f = Some c" and "\<not> closed c"
  shows "(fst (begin_write (read_buf c)) \<noteq> 0 \<and> err \<in> {EAGAIN, EINTR} \<and>
      http_recv env f (int (fst (begin_write (read_buf c)))) = ((- 1, err), []) \<longrightarrow>
      (\<exists>s' c'. on_message env f s = Inr s' \<and> map_of (connections s') f = Some c' \<and> closed c' \<and>
         last (pending_tasks (srv_loop s')) = EraseConnection f)) \<and>
    (0 < n \<and> n < int (length (serialize (http_iter env) resp)) \<and>
      (\<forall>k. http_send env f (serialize (http_iter env) resp) k = (n, 0)) \<longrightarrow>
      (\<exists>s'. send_response env f resp s = Inr s' \<and> connections s' = connections s \<and> srv_loop s' = srv_loop s \<and>
         wire s' f = wire s f @ take (nat n) (serialize (http_iter env) resp)))"
proof (intro conjI impI)
  obtain w b where b: "begin_write (read_buf c) = (w, b)" by fastforce
  assume r: "fst (begin_write (read_buf c)) \<noteq> 0 \<and> err \<in> {EAGAIN, EINTR} \<and>
      http_recv env f (int (fst (begin_write (read_buf c)))) = ((- 1, err), [])"
  then have "0 < w" and recv: "http_recv env f (int w) = ((- 1, err), [])" using b by auto
  let ?s1 = "put_conn f (c\<lparr>read_buf := b\<rparr>) s"
  note c = srv_okD(2) [OF assms(1,2)]
  then have "buf_ok b" using begin_write_ok [of "read_buf c"] b by (auto simp: conn_ok_def)
  with c have s1: "srv_ok ?s1"
    by (intro put_conn_ok assms(1)) (simp add: conn_ok_def)
  have "on_message env f s = on_close f ?s1"
    using on_message_open [OF assms(2,3) b \<open>0 < w\<close> recv] by simp
  then show "\<exists>s' c'. on_message env f s = Inr s' \<and> map_of (connections s') f = Some c' \<and> closed c' \<and>
         last (pending_tasks (srv_loop s')) = EraseConnection f"
    using on_close_closes [OF s1, of f "c\<lparr>read_buf := b\<rparr>"] assms(3) by auto
qed (simp add: send_response_def socket_write_def Let_def)

end
