(* ===== verification/Server_Life.thy ===== *)
theory Server_Life
  imports Http_Server
begin

text \<open>
  The life of an HTTP server (\<open>src/hound/src/http/http_server.cpp\<close>): starting, accepting, serving, closing, erasing and stopping as the steps of a transition
  system, its invariant, and what \<open>stop\<close> releases.
\<close>

section \<open>Channels of the server\<close>

lemma new_channel_ok:
  assumes "srv_ok s" and "f \<in> srv_open s" and "map_of (channels (loop_poller (srv_loop s))) f = None"
  shows "\<exists>p'. new_channel f w s = Inr (next_addr s, s\<lparr>next_addr := next_addr s + 1, srv_loop := (srv_loop s)\<lparr>loop_poller := p'\<rparr>\<rparr>) \<and>
    srv_ok (s\<lparr>next_addr := next_addr s + 1, srv_loop := (srv_loop s)\<lparr>loop_poller := p'\<rparr>\<rparr>) \<and>
    channels p' = AList.update f (next_addr s) (channels (loop_poller (srv_loop s))) \<and>
    keeps_added (loop_poller (srv_loop s)) p' \<and> added p' (next_addr s)"
proof -
  let ?p = "loop_poller (srv_loop s)" and ?a = "next_addr s"
  let ?ch = "(Channel_new f)\<lparr>read_callback := True, close_callback := w, error_callback := w\<rparr>"
  have fresh: "heap ?p ?a = None" by (rule srv_okD(3) [OF assms(1)]) simp
  from open_channel_ok [OF srv_okD(1) [OF assms(1)] fresh, of ?ch] obtain p' where
    p': "enable_reading ?a (?p\<lparr>heap := (heap ?p)(?a \<mapsto> ?ch)\<rparr>) = Inr p'" "poller_ok p'"
      "heap p' = (heap ?p)(?a \<mapsto> ?ch\<lparr>events := events ?ch OR kReadEvent, added_to_loop := True, index := 0\<rparr>)"
      "channels p' = AList.update f ?a (channels ?p)"
    using assms(3) by (auto simp: Channel_new_def)
  let ?s' = "s\<lparr>next_addr := ?a + 1, srv_loop := (srv_loop s)\<lparr>loop_poller := p'\<rparr>\<rparr>"
  have run: "new_channel f w s = Inr (?a, ?s')"
    using p'(1) by (simp add: new_channel_def on_loop_def with_poller_def assert_in_loop_thread_def is_in_loop_thread_def Let_def)
  have "conn_ok p' g d" if "map_of (connections s) g = Some d" for g d
  proof -
    have c: "conn_ok ?p g d" by (rule srv_okD(2) [OF assms(1) that])
    then have "g \<noteq> f" "conn_channel d \<noteq> ?a" using assms(3) fresh by (auto simp: conn_ok_def)
    with c show ?thesis using p'(3,4) by (simp add: conn_ok_def update_conv')
  qed
  then have "srv_ok ?s'"
    using assms(1,2) p'(2-4) by (auto simp: srv_ok_def update_conv' split: if_splits)
  moreover have "keeps_added ?p p'" "added p' ?a"
    using p'(3) fresh by (auto simp: keeps_added_def added_def)
  ultimately show ?thesis
    using run p'(4) by blast
qed

definition registered :: "poller \<Rightarrow> connection \<Rightarrow> bool" where
  "registered p c \<longleftrightarrow> map_of (channels p) (conn_fd c) = Some (conn_channel c) \<and> added p (conn_channel c)"

lemma conn_ok_registered: "conn_ok p f c \<longleftrightarrow> conn_fd c = f \<and> buf_ok (read_buf c) \<and> registered p c"
  by (auto simp: conn_ok_def registered_def added_def)

lemma destroy_connection_ok:
  assumes "poller_ok (loop_poller (srv_loop s))" and "registered (loop_poller (srv_loop s)) c"
  shows "\<exists>p'. destroy_connection c s = Inr (s\<lparr>srv_loop := (srv_loop s)\<lparr>loop_poller := p'\<rparr>, srv_open := srv_open s - {conn_fd c}\<rparr>) \<and> poller_ok p' \<and>
    channels p' = AList.delete (conn_fd c) (channels (loop_poller (srv_loop s))) \<and>
    heap p' = (heap (loop_poller (srv_loop s)))(conn_channel c := None)"
  using destroy_channel_ok [of "srv_loop s" "conn_fd c" "conn_channel c"] assms
  by (fastforce simp: registered_def destroy_connection_def on_loop_def)

lemma registered_delete:
  assumes "poller_ok p" and "registered p c" and "registered p d" and "conn_fd d \<noteq> conn_fd c"
    and "channels p' = AList.delete (conn_fd c) (channels p)" and "heap p' = (heap p)(conn_channel c := None)"
  shows "registered p' d"
proof -
  have "conn_channel d \<noteq> conn_channel c"
    using assms(2-4) channel_inj [OF assms(1)] by (auto simp: registered_def)
  then show ?thesis using assms(3-6) by (simp add: registered_def added_def delete_conv')
qed

lemma erase_connection_ok:
  assumes "srv_ok s" and "map_of (connections s) f = Some c"
  shows "\<exists>p'. erase_connection f s = Inr (s\<lparr>connections := AList.delete f (connections s), srv_loop := (srv_loop s)\<lparr>loop_poller := p'\<rparr>, srv_open := srv_open s - {f}\<rparr>) \<and>
    srv_ok (s\<lparr>connections := AList.delete f (connections s), srv_loop := (srv_loop s)\<lparr>loop_poller := p'\<rparr>, srv_open := srv_open s - {f}\<rparr>) \<and>
    channels p' = AList.delete f (channels (loop_poller (srv_loop s))) \<and>
    heap p' = (heap (loop_poller (srv_loop s)))(conn_channel c := None)"
proof -
  let ?p = "loop_poller (srv_loop s)"
  note p = srv_okD(1) [OF assms(1)]
  have c: "conn_fd c = f" "registered ?p c"
    using srv_okD(2) [OF assms] by (simp_all add: conn_ok_registered)
  from destroy_connection_ok [of "s\<lparr>connections := AList.delete f (connections s)\<rparr>" c] obtain p' where
    p': "destroy_connection c (s\<lparr>connections := AList.delete f (connections s)\<rparr>) =
       Inr (s\<lparr>connections := AList.delete f (connections s), srv_loop := (srv_loop s)\<lparr>loop_poller := p'\<rparr>, srv_open := srv_open s - {f}\<rparr>)"
      "poller_ok p'" "channels p' = AList.delete f (channels ?p)" "heap p' = (heap ?p)(conn_channel c := None)"
    using p c by auto
  have "conn_ok p' g d" if "map_of (AList.delete f (connections s)) g = Some d" for g d
  proof -
    have g: "g \<noteq> f" "map_of (connections s) g = Some d" using that by (auto simp: delete_conv' split: if_splits)
    then show ?thesis
      using srv_okD(2) [OF assms(1) g(2)] registered_delete [OF p c(2), of d p'] p'(3,4) c(1) by (simp add: conn_ok_registered)
  qed
  moreover have "dom (map_of (channels p')) \<subseteq> srv_open s - {f}" "\<forall>b \<ge> next_addr s. heap p' b = None"
    using assms(1) p'(3,4) by (auto simp: srv_ok_def delete_conv' split: if_splits)
  ultimately have "srv_ok (s\<lparr>connections := AList.delete f (connections s), srv_loop := (srv_loop s)\<lparr>loop_poller := p'\<rparr>, srv_open := srv_open s - {f}\<rparr>)"
    using p'(2) by (simp add: srv_ok_def)
  then show ?thesis
    using assms(2) p' by (auto simp: erase_connection_def)
qed

section \<open>Stopping\<close>

lemma stop_connection_ok:
  assumes "poller_ok (loop_poller (srv_loop s))" and "registered (loop_poller (srv_loop s)) c"
  shows "\<exists>l'. stop_connection c s = Inr (s\<lparr>srv_loop := l', srv_open := srv_open s - {conn_fd c}\<rparr>) \<and> wakeup_fd l' = wakeup_fd (srv_loop s) \<and> pending_tasks l' = pending_tasks (srv_loop s) \<and>
    poller_ok (loop_poller l') \<and> channels (loop_poller l') = channels (loop_poller (srv_loop s)) \<and>
    keeps_added (loop_poller (srv_loop s)) (loop_poller l') \<and> (\<forall>b. heap (loop_poller (srv_loop s)) b = None \<longrightarrow> heap (loop_poller l') b = None)"
proof -
  define l where "l = (if timeout_timer c \<noteq> 0 then cancel_timer (timeout_timer c) (srv_loop s) else srv_loop s)"
  have l: "loop_poller l = loop_poller (srv_loop s)" "wakeup_fd l = wakeup_fd (srv_loop s)" "pending_tasks l = pending_tasks (srv_loop s)"
    by (simp_all add: l_def cancel_timer_def)
  from disable_all_ok [OF assms(1), of "conn_fd c" "conn_channel c"] assms(2) obtain p' where
    p': "disable_all (conn_channel c) (loop_poller (srv_loop s)) = Inr p'" "poller_ok p'" "channels p' = channels (loop_poller (srv_loop s))"
      "\<forall>b. heap (loop_poller (srv_loop s)) b = None \<longrightarrow> heap p' b = None" "keeps_added (loop_poller (srv_loop s)) p'"
    by (auto simp: registered_def keeps_added_def added_def)
  have "stop_connection c s = Inr (s\<lparr>srv_loop := l\<lparr>loop_poller := p'\<rparr>, srv_open := srv_open s - {conn_fd c}\<rparr>)"
    using p'(1) by (simp add: stop_connection_def Let_def on_loop_def with_poller_def assert_in_loop_thread_def is_in_loop_thread_def l_def)
  then show ?thesis using p'(2-5) l(2,3) by (intro exI [of _ "l\<lparr>loop_poller := p'\<rparr>"]) simp
qed

lemma registered_keeps: "registered p c \<Longrightarrow> channels p' = channels p \<Longrightarrow> keeps_added p p' \<Longrightarrow> registered p' c"
  by (simp add: registered_def keeps_added_def)

lemma stop_connections_ok:
  assumes "poller_ok (loop_poller (srv_loop s))" and "\<forall>c \<in> set cs. registered (loop_poller (srv_loop s)) c"
  shows "\<exists>l'. for_each stop_connection cs s = Inr (s\<lparr>srv_loop := l', srv_open := srv_open s - conn_fd ` set cs\<rparr>) \<and>
    wakeup_fd l' = wakeup_fd (srv_loop s) \<and> pending_tasks l' = pending_tasks (srv_loop s) \<and> poller_ok (loop_poller l') \<and> channels (loop_poller l') = channels (loop_poller (srv_loop s)) \<and>
    keeps_added (loop_poller (srv_loop s)) (loop_poller l') \<and> (\<forall>b. heap (loop_poller (srv_loop s)) b = None \<longrightarrow> heap (loop_poller l') b = None)"
  using assms
proof (induction cs arbitrary: s)
  case Nil
  then show ?case by (intro exI [of _ "srv_loop s"]) simp
next
  case (Cons c cs)
  from stop_connection_ok [OF Cons.prems(1), of c] Cons.prems(2) obtain l1 where
    l1: "stop_connection c s = Inr (s\<lparr>srv_loop := l1, srv_open := srv_open s - {conn_fd c}\<rparr>)" "wakeup_fd l1 = wakeup_fd (srv_loop s)"
      "pending_tasks l1 = pending_tasks (srv_loop s)" "poller_ok (loop_poller l1)" "channels (loop_poller l1) = channels (loop_poller (srv_loop s))"
      "keeps_added (loop_poller (srv_loop s)) (loop_poller l1)"
      "\<forall>b. heap (loop_poller (srv_loop s)) b = None \<longrightarrow> heap (loop_poller l1) b = None"
    by auto
  let ?s1 = "s\<lparr>srv_loop := l1, srv_open := srv_open s - {conn_fd c}\<rparr>"
  have "\<forall>d \<in> set cs. registered (loop_poller l1) d"
    using Cons.prems(2) l1(5,6) registered_keeps by auto
  from Cons.IH [of ?s1] this l1(4) obtain l2 where
    l2: "for_each stop_connection cs ?s1 = Inr (?s1\<lparr>srv_loop := l2, srv_open := srv_open ?s1 - conn_fd ` set cs\<rparr>)" "wakeup_fd l2 = wakeup_fd l1"
      "pending_tasks l2 = pending_tasks l1" "poller_ok (loop_poller l2)" "channels (loop_poller l2) = channels (loop_poller l1)" "keeps_added (loop_poller l1) (loop_poller l2)"
      "\<forall>b. heap (loop_poller l1) b = None \<longrightarrow> heap (loop_poller l2) b = None"
    by auto
  have "srv_open s - {conn_fd c} - conn_fd ` set cs = srv_open s - conn_fd ` set (c # cs)" by auto
  then show ?case
    using l1 l2 keeps_added_trans [OF l1(6) l2(6)] by (intro exI [of _ l2]) simp
qed

lemma destroy_connections_ok:
  assumes "poller_ok (loop_poller (srv_loop s))" and "\<forall>c \<in> set cs. registered (loop_poller (srv_loop s)) c" and "distinct (map conn_fd cs)"
  shows "\<exists>p'. for_each destroy_connection cs s =
      Inr (s\<lparr>srv_loop := (srv_loop s)\<lparr>loop_poller := p'\<rparr>, srv_open := srv_open s - conn_fd ` set cs\<rparr>) \<and> poller_ok p' \<and>
    map_of (channels p') = (map_of (channels (loop_poller (srv_loop s)))) |` (- conn_fd ` set cs) \<and>
    (\<forall>b. heap p' b = (if b \<in> conn_channel ` set cs then None else heap (loop_poller (srv_loop s)) b))"
  using assms
proof (induction cs arbitrary: s)
  case Nil
  then show ?case by (intro exI [of _ "loop_poller (srv_loop s)"]) simp
next
  case (Cons c cs)
  let ?p = "loop_poller (srv_loop s)"
  have c: "registered ?p c" using Cons.prems(2) by simp
  from destroy_connection_ok [OF Cons.prems(1) c] obtain p1 where
    p1: "destroy_connection c s = Inr (s\<lparr>srv_loop := (srv_loop s)\<lparr>loop_poller := p1\<rparr>, srv_open := srv_open s - {conn_fd c}\<rparr>)"
      "poller_ok p1" "channels p1 = AList.delete (conn_fd c) (channels ?p)" "heap p1 = (heap ?p)(conn_channel c := None)"
    by blast
  let ?s1 = "s\<lparr>srv_loop := (srv_loop s)\<lparr>loop_poller := p1\<rparr>, srv_open := srv_open s - {conn_fd c}\<rparr>"
  have "registered p1 d" if "d \<in> set cs" for d
    using that Cons.prems(2,3) by (intro registered_delete [OF Cons.prems(1) c _ _ p1(3,4)]) (auto simp: image_iff)
  then have "\<forall>d \<in> set cs. registered p1 d" ..
  from Cons.IH [of ?s1] this p1(2) Cons.prems(3) obtain p2 where
    p2: "for_each destroy_connection cs ?s1 =
      Inr (?s1\<lparr>srv_loop := (srv_loop ?s1)\<lparr>loop_poller := p2\<rparr>, srv_open := srv_open ?s1 - conn_fd ` set cs\<rparr>)" "poller_ok p2"
      "map_of (channels p2) = (map_of (channels p1)) |` (- conn_fd ` set cs)"
      "\<forall>b. heap p2 b = (if b \<in> conn_channel ` set cs then None else heap p1 b)"
    by auto
  have "srv_open s - {conn_fd c} - conn_fd ` set cs = srv_open s - conn_fd ` set (c # cs)" by auto
  moreover have "map_of (channels p2) = (map_of (channels ?p)) |` (- conn_fd ` set (c # cs))"
    using p2(3) p1(3) by (auto simp: restrict_map_def delete_conv' fun_eq_iff)
  moreover have "\<forall>b. heap p2 b = (if b \<in> conn_channel ` set (c # cs) then None else heap ?p b)"
    using p2(4) p1(4) by auto
  ultimately show ?case
    using p1(1) p2(1,2) by (intro exI [of _ p2]) simp
qed

section \<open>The invariant of the whole server\<close>

text \<open>The poller watches exactly the wakeup descriptor, the listening socket of a running server, and one descriptor per connection.\<close>

definition conn_fds :: "'h http_server \<Rightarrow> int set" where
  "conn_fds s = set (map fst (connections s))"

definition watched :: "'h http_server \<Rightarrow> int set" where
  "watched s = insert (wakeup_fd (srv_loop s)) (conn_fds s \<union> (if running s then {listen_fd s} else {}))"

definition listening :: "'h http_server \<Rightarrow> bool" where
  "listening s \<longleftrightarrow> (\<exists>a. listen_channel s = Some a \<and> map_of (channels (loop_poller (srv_loop s))) (listen_fd s) = Some a \<and>
     added (loop_poller (srv_loop s)) a) \<and> listen_fd s \<noteq> wakeup_fd (srv_loop s) \<and> listen_fd s \<notin> conn_fds s"

definition life_ok :: "'h http_server \<Rightarrow> bool" where
  "life_ok s \<longleftrightarrow> srv_ok s \<and> distinct (map fst (connections s)) \<and> dom (map_of (channels (loop_poller (srv_loop s)))) = watched s \<and>
     wakeup_fd (srv_loop s) \<notin> conn_fds s \<and> (if running s then listening s else connections s = [])"

lemma life_okD: "life_ok s \<Longrightarrow> srv_ok s"
  by (simp add: life_ok_def)

lemma life_okI:
  assumes "srv_ok s" and "distinct (map fst (connections s))" and "dom (map_of (channels (loop_poller (srv_loop s)))) = watched s"
    and "wakeup_fd (srv_loop s) \<notin> conn_fds s" and "if running s then listening s else connections s = []"
  shows "life_ok s"
  using assms by (simp add: life_ok_def)

lemma life_ok_frame:
  assumes "life_ok s" and "srv_ok s'" and "srv_frame s s'"
  shows "life_ok s'"
proof -
  have "map fst (connections s') = map fst (connections s)" using assms(3) by (simp add: srv_frame_def)
  then have "conn_fds s' = conn_fds s" "connections s' = [] \<longleftrightarrow> connections s = []"
    by (simp only: conn_fds_def, metis Nil_is_map_conv)
  moreover from this(1) have "listening s'" if "listening s"
    using that assms(3) by (auto simp: listening_def srv_frame_def keeps_added_def)
  ultimately show ?thesis
    using assms by (auto simp: life_ok_def srv_frame_def watched_def split: if_splits)
qed

lemma erase_life:
  assumes "life_ok s"
  shows "\<exists>s'. erase_connection f s = Inr s' \<and> life_ok s'"
proof (cases "map_of (connections s) f")
  case (Some c)
  let ?p = "loop_poller (srv_loop s)"
  note s = life_okD [OF assms]
  from erase_connection_ok [OF s Some] obtain p' where
    p': "erase_connection f s = Inr (s\<lparr>connections := AList.delete f (connections s), srv_loop := (srv_loop s)\<lparr>loop_poller := p'\<rparr>, srv_open := srv_open s - {f}\<rparr>)"
      "srv_ok (s\<lparr>connections := AList.delete f (connections s), srv_loop := (srv_loop s)\<lparr>loop_poller := p'\<rparr>, srv_open := srv_open s - {f}\<rparr>)"
      "channels p' = AList.delete f (channels ?p)" "heap p' = (heap ?p)(conn_channel c := None)"
    by blast
  have key: "f \<in> conn_fds s" using map_of_SomeD [OF Some] by (force simp: conn_fds_def)
  let ?s' = "s\<lparr>connections := AList.delete f (connections s), srv_loop := (srv_loop s)\<lparr>loop_poller := p'\<rparr>, srv_open := srv_open s - {f}\<rparr>"
  have keys: "conn_fds ?s' = conn_fds s - {f}"
    by (simp add: conn_fds_def delete_keys del: set_map)
  have kept: "added p' a" if "map_of (channels ?p) g = Some a" "added ?p a" "g \<noteq> f" for g a
  proof -
    have "a \<noteq> conn_channel c"
      using channel_inj [OF srv_okD(1) [OF s] that(1), of f] srv_okD(2) [OF s Some] that(3) by (auto simp: conn_ok_def)
    with that(2) show ?thesis using p'(4) by (simp add: added_def)
  qed
  have "listening ?s'" if l: "listening s"
  proof -
    obtain a where a: "listen_channel s = Some a" "map_of (channels ?p) (listen_fd s) = Some a" "added ?p a" and
      new: "listen_fd s \<noteq> wakeup_fd (srv_loop s)" "listen_fd s \<notin> conn_fds s" using l by (auto simp: listening_def)
    have "listen_fd s \<noteq> f" using new(2) key by blast
    with a new show ?thesis using kept [OF a(2,3)] p'(3) keys by (simp add: listening_def)
  qed
  moreover have "dom (map_of (channels p')) = watched s - {f}"
    using assms p'(3) by (simp add: life_ok_def delete_conv')
  moreover have "f \<noteq> wakeup_fd (srv_loop s)" "running s \<Longrightarrow> f \<noteq> listen_fd s"
    using assms key by (auto simp: life_ok_def listening_def)
  then have "watched s - {f} = watched ?s'"
    using keys by (auto simp: watched_def)
  ultimately have "life_ok ?s'"
    using assms p'(2) keys by (auto simp: life_ok_def distinct_delete split: if_splits)
  with p'(1) show ?thesis by blast
qed (use assms in \<open>simp add: erase_connection_def\<close>)

lemma conn_fds_put [simp]: "conn_fds (put_conn f c s) = insert f (conn_fds s)"
  by (auto simp: conn_fds_def put_conn_def update_keys simp del: set_map)

lemma conn_fds_cong: "connections s' = connections s \<Longrightarrow> conn_fds s' = conn_fds s"
  by (simp add: conn_fds_def)

text \<open>A new channel extends what is watched, and a listening server goes on listening.\<close>

lemma new_channel_life:
  assumes "life_ok s" and "f \<notin> srv_open s"
  shows "\<exists>p'. new_channel f w (s\<lparr>srv_open := insert f (srv_open s)\<rparr>) =
      Inr (next_addr s, s\<lparr>srv_open := insert f (srv_open s), next_addr := next_addr s + 1, srv_loop := (srv_loop s)\<lparr>loop_poller := p'\<rparr>\<rparr>) \<and>
    srv_ok (s\<lparr>srv_open := insert f (srv_open s), next_addr := next_addr s + 1, srv_loop := (srv_loop s)\<lparr>loop_poller := p'\<rparr>\<rparr>) \<and>
    map_of (channels p') = (map_of (channels (loop_poller (srv_loop s))))(f \<mapsto> next_addr s) \<and>
    keeps_added (loop_poller (srv_loop s)) p' \<and> added p' (next_addr s) \<and> f \<notin> watched s"
proof -
  let ?s = "s\<lparr>srv_open := insert f (srv_open s)\<rparr>"
  have "f \<notin> dom (map_of (channels (loop_poller (srv_loop s))))"
    using assms by (auto simp: life_ok_def srv_ok_def)
  moreover from this have "f \<notin> watched s" using assms(1) by (simp add: life_ok_def)
  moreover have "srv_ok ?s" using assms(1) by (auto simp: life_ok_def srv_ok_def)
  ultimately show ?thesis
    using new_channel_ok [of ?s f w] by (auto simp: update_conv' domIff)
qed

lemma refresh_timeout_pending: "refresh_timeout env c s = (c', s') \<Longrightarrow> pending_tasks (srv_loop s') = pending_tasks (srv_loop s)"
  by (auto simp: refresh_timeout_def cancel_timer_def run_after_def with_wheel_def Let_def split: prod.splits if_splits)

lemma accept_life:
  assumes "life_ok s" and "running s" and "f \<notin> srv_open s" and "length junk = kBlockSize"
  shows "\<exists>s'. on_accept env junk f s = Inr s' \<and> life_ok s' \<and> pending_tasks (srv_loop s') = pending_tasks (srv_loop s) \<and>
    running s' \<and> (f \<noteq> kInvalidFd \<longrightarrow> srv_open s' = insert f (srv_open s) \<and> (\<exists>c. map_of (connections s') f = Some c \<and> \<not> closed c))"
proof (cases "f = kInvalidFd")
  case False
  let ?p = "loop_poller (srv_loop s)"
  from new_channel_life [OF assms(1,3), of True] obtain p' where
    p': "new_channel f True (s\<lparr>srv_open := insert f (srv_open s)\<rparr>) =
        Inr (next_addr s, s\<lparr>srv_open := insert f (srv_open s), next_addr := next_addr s + 1, srv_loop := (srv_loop s)\<lparr>loop_poller := p'\<rparr>\<rparr>)"
      "srv_ok (s\<lparr>srv_open := insert f (srv_open s), next_addr := next_addr s + 1, srv_loop := (srv_loop s)\<lparr>loop_poller := p'\<rparr>\<rparr>)"
      "map_of (channels p') = (map_of (channels ?p))(f \<mapsto> next_addr s)" "keeps_added ?p p'" "added p' (next_addr s)" "f \<notin> watched s"
    by blast
  let ?s1 = "s\<lparr>srv_open := insert f (srv_open s), next_addr := next_addr s + 1, srv_loop := (srv_loop s)\<lparr>loop_poller := p'\<rparr>\<rparr>"
  let ?c = "\<lparr>conn_fd = f, conn_channel = next_addr s, read_buf = Buffer_new junk, conn_parser = HttpParser_reset, timeout_timer = 0, closed = False\<rparr>"
  obtain c2 s2 where r: "refresh_timeout env ?c ?s1 = (c2, s2)" by fastforce
  note r' = refresh_timeout_fields [OF r] and r_frame = refresh_timeout_frame [OF r, unfolded srv_frame_def]
  have "srv_ok s2" using p'(2) r'(6,7,11,12) unfolding srv_ok_def by simp
  moreover have "conn_ok (loop_poller (srv_loop s2)) f c2"
    using p'(3,5) r' Buffer_new_ok(1) [OF assms(4)] by (simp add: conn_ok_registered registered_def)
  ultimately have ok: "srv_ok (put_conn f c2 s2)" by (rule put_conn_ok)
  have fds: "conn_fds s2 = conn_fds s" using r'(7) by (simp add: conn_fds_def)
  let ?s' = "put_conn f c2 s2"
  have same: "running ?s' = running s" "listen_fd ?s' = listen_fd s" "listen_channel ?s' = listen_channel s"
    "wakeup_fd (srv_loop ?s') = wakeup_fd (srv_loop s)" "loop_poller (srv_loop ?s') = p'"
    using r_frame r'(6) by (simp_all add: put_conn_def)
  have "life_ok ?s'"
  proof (rule life_okI [OF ok])
    show "distinct (map fst (connections ?s'))"
      using assms(1) r'(7) by (simp add: life_ok_def put_conn_def distinct_update)
    show "dom (map_of (channels (loop_poller (srv_loop ?s')))) = watched ?s'"
      using assms(1) p'(3) same fds by (auto simp: life_ok_def watched_def)
    show "wakeup_fd (srv_loop ?s') \<notin> conn_fds ?s'"
      using assms(1) p'(6) same fds by (auto simp: life_ok_def watched_def)
    have "listening s" using assms(1,2) by (simp add: life_ok_def)
    then show "if running ?s' then listening ?s' else connections ?s' = []"
      using assms(2) same fds p'(3,4,6) by (auto simp: listening_def watched_def keeps_added_def)
  qed
  moreover have "pending_tasks (srv_loop ?s') = pending_tasks (srv_loop s)"
    using refresh_timeout_pending [OF r] by simp
  ultimately show ?thesis using False p'(1) r r'(5,11) same(1) assms(2) by (simp add: on_accept_def Let_def)
qed (use assms(1,2) in \<open>simp add: on_accept_def\<close>)

lemma start_life:
  assumes "life_ok s" and "f \<notin> srv_open s" and "f \<noteq> kInvalidFd"
  shows "\<exists>s'. srv_start f True True s = Inr s' \<and> life_ok s' \<and> running s' \<and> pending_tasks (srv_loop s') = pending_tasks (srv_loop s) \<and>
    (\<not> running s \<longrightarrow> srv_open s' = insert f (srv_open s))"
proof (cases "running s")
  case False
  let ?p = "loop_poller (srv_loop s)"
  have "life_ok (s\<lparr>listen_fd := f\<rparr>)"
    using assms(1) False unfolding life_ok_def srv_ok_def watched_def conn_fds_def by auto
  from new_channel_life [OF this, of f False] assms(2) obtain p' where
    p': "new_channel f False (s\<lparr>listen_fd := f, srv_open := insert f (srv_open s)\<rparr>) =
        Inr (next_addr s, s\<lparr>listen_fd := f, srv_open := insert f (srv_open s), next_addr := next_addr s + 1, srv_loop := (srv_loop s)\<lparr>loop_poller := p'\<rparr>\<rparr>)"
      "srv_ok (s\<lparr>listen_fd := f, srv_open := insert f (srv_open s), next_addr := next_addr s + 1, srv_loop := (srv_loop s)\<lparr>loop_poller := p'\<rparr>\<rparr>)"
      "map_of (channels p') = (map_of (channels ?p))(f \<mapsto> next_addr s)" "added p' (next_addr s)" "f \<notin> watched s"
    using False by (auto simp: watched_def conn_fds_def)
  let ?s' = "s\<lparr>listen_fd := f, srv_open := insert f (srv_open s), next_addr := next_addr s + 1, srv_loop := (srv_loop s)\<lparr>loop_poller := p'\<rparr>,
    listen_channel := Some (next_addr s), running := True\<rparr>"
  have "life_ok ?s'"
    using assms(1) False p'(2-5) by (auto simp: life_ok_def srv_ok_def watched_def listening_def conn_fds_def)
  moreover have "srv_start f True True s = Inr ?s'"
    using False assms(3) p'(1) by (simp add: srv_start_def)
  ultimately show ?thesis using False by simp
qed (use assms(1) in \<open>simp add: srv_start_def\<close>)

text \<open>\<open>stop\<close> closes every descriptor of the server and leaves only the wakeup descriptor watched.\<close>

lemma stop_listener:
  fixes s :: "'h http_server"
  assumes "poller_ok (loop_poller (srv_loop s))" and "map_of (channels (loop_poller (srv_loop s))) f = Some a" and "added (loop_poller (srv_loop s)) a"
  shows "\<exists>p'. (\<forall>k :: 'h http_server \<Rightarrow> srv_fault + 'h http_server.
      sum_bind (on_loop (with_poller (self_of s) (disable_all a)) s) (\<lambda>s3. sum_bind (on_loop (Channel_destroy (self_of s3) False a) s3) k) =
        k (s\<lparr>srv_loop := (srv_loop s)\<lparr>loop_poller := p'\<rparr>\<rparr>)) \<and> poller_ok p' \<and>
    channels p' = AList.delete f (channels (loop_poller (srv_loop s))) \<and> (\<forall>b. heap (loop_poller (srv_loop s)) b = None \<longrightarrow> heap p' b = None)"
proof -
  let ?l = "srv_loop s"
  from disable_all_ok [OF assms(1,2)] assms(3) obtain p1 where
    p1: "disable_all a (loop_poller ?l) = Inr p1" "poller_ok p1" "channels p1 = channels (loop_poller ?l)" "added p1 a"
      "\<forall>b. heap (loop_poller ?l) b = None \<longrightarrow> heap p1 b = None"
    by (auto simp: added_def)
  from destroy_channel_ok [of "?l\<lparr>loop_poller := p1\<rparr>" f a] p1(2-4) assms(2) obtain p' where
    "Channel_destroy (self_of s) False a (?l\<lparr>loop_poller := p1\<rparr>) = Inr (?l\<lparr>loop_poller := p'\<rparr>)" "poller_ok p'"
      "channels p' = AList.delete f (channels (loop_poller ?l))" "heap p' = (heap p1)(a := None)"
    by auto
  then show ?thesis
    using p1(1,5) by (intro exI [of _ p']) (simp add: on_loop_def with_poller_def assert_in_loop_thread_def is_in_loop_thread_def)
qed

lemma life_conns:
  assumes "life_ok s"
  shows "\<forall>c \<in> set (map snd (connections s)). registered (loop_poller (srv_loop s)) c" and "map conn_fd (map snd (connections s)) = map fst (connections s)"
proof -
  have ok: "conn_ok (loop_poller (srv_loop s)) f c" if "(f, c) \<in> set (connections s)" for f c
    using that assms srv_okD(2) [OF life_okD [OF assms]] by (simp add: life_ok_def)
  then show "\<forall>c \<in> set (map snd (connections s)). registered (loop_poller (srv_loop s)) c"
    by (auto simp: conn_ok_registered)
  show "map conn_fd (map snd (connections s)) = map fst (connections s)"
    using ok by (auto simp: conn_ok_registered)
qed

lemma stop_life:
  fixes s :: "'h http_server"
  assumes "life_ok s"
  shows "\<exists>s'. srv_stop s = Inr s' \<and> life_ok s' \<and> \<not> running s' \<and> wakeup_fd (srv_loop s') = wakeup_fd (srv_loop s) \<and>
    pending_tasks (srv_loop s') = pending_tasks (srv_loop s) \<and>
    (running s \<longrightarrow> srv_open s' = srv_open s - conn_fds s - {listen_fd s} \<and> listen_channel s' = None \<and> listen_fd s' = kInvalidFd)"
proof (cases "running s")
  case True
  let ?cs = "map snd (connections s)" and ?p = "loop_poller (srv_loop s)" and ?s0 = "s\<lparr>running := False\<rparr>"
  note p = srv_okD(1) [OF life_okD [OF assms]] and conns = life_conns [OF assms]
  have keys: "conn_fd ` set ?cs = conn_fds s" using conns(2) by (metis conn_fds_def set_map)
  obtain a where a: "listen_channel s = Some a" "map_of (channels ?p) (listen_fd s) = Some a" "added ?p a"
    "listen_fd s \<noteq> wakeup_fd (srv_loop s)" "listen_fd s \<notin> conn_fds s"
    using assms True by (auto simp: life_ok_def listening_def)
  from stop_connections_ok [of ?s0 ?cs] p conns(1) obtain l1 where
    l1: "for_each stop_connection ?cs ?s0 = Inr (?s0\<lparr>srv_loop := l1, srv_open := srv_open s - conn_fds s\<rparr>)" "wakeup_fd l1 = wakeup_fd (srv_loop s)"
      "pending_tasks l1 = pending_tasks (srv_loop s)" "poller_ok (loop_poller l1)" "channels (loop_poller l1) = channels ?p" "keeps_added ?p (loop_poller l1)"
      "\<forall>b. heap ?p b = None \<longrightarrow> heap (loop_poller l1) b = None"
    unfolding keys by auto
  let ?s1 = "?s0\<lparr>srv_loop := l1, srv_open := srv_open s - conn_fds s, connections := []\<rparr>"
  have "\<forall>c \<in> set ?cs. registered (loop_poller l1) c"
    using conns(1) l1(5,6) registered_keeps by blast
  moreover have "distinct (map conn_fd ?cs)" unfolding conns(2) using assms by (simp add: life_ok_def)
  ultimately obtain p2 where
    p2: "for_each destroy_connection ?cs ?s1 = Inr (?s1\<lparr>srv_loop := l1\<lparr>loop_poller := p2\<rparr>, srv_open := srv_open s - conn_fds s - conn_fds s\<rparr>)" "poller_ok p2"
      "map_of (channels p2) = (map_of (channels ?p)) |` (- conn_fds s)" "\<forall>b. heap p2 b = (if b \<in> conn_channel ` set ?cs then None else heap (loop_poller l1) b)"
    using destroy_connections_ok [of ?s1 ?cs] l1(4,5) unfolding keys by auto
  let ?s2 = "?s1\<lparr>srv_loop := l1\<lparr>loop_poller := p2\<rparr>, srv_open := srv_open s - conn_fds s\<rparr>"
  have "a \<notin> conn_channel ` set ?cs"
    using conns(1) channel_inj [OF p a(2)] a(5) keys by (fastforce simp: registered_def)
  then have "added p2 a" using p2(4) a(3) l1(6) by (auto simp: keeps_added_def added_def)
  then have "poller_ok (loop_poller (srv_loop ?s2))" "map_of (channels (loop_poller (srv_loop ?s2))) (listen_fd s) = Some a"
    "added (loop_poller (srv_loop ?s2)) a"
    using p2(2,3) a(2,5) by simp_all
  from stop_listener [OF this] obtain p3 where
    p3: "\<forall>k :: 'h http_server \<Rightarrow> srv_fault + 'h http_server. sum_bind (on_loop (with_poller (self_of ?s2) (disable_all a)) ?s2) (\<lambda>s3. sum_bind (on_loop (Channel_destroy (self_of s3) False a) s3) k) =
        k (?s2\<lparr>srv_loop := (srv_loop ?s2)\<lparr>loop_poller := p3\<rparr>\<rparr>)" "poller_ok p3"
      "channels p3 = AList.delete (listen_fd s) (channels (loop_poller (srv_loop ?s2)))"
      "\<forall>b. heap (loop_poller (srv_loop ?s2)) b = None \<longrightarrow> heap p3 b = None"
    by blast
  let ?s' = "?s2\<lparr>srv_loop := l1\<lparr>loop_poller := p3\<rparr>, listen_channel := None, srv_open := srv_open s - conn_fds s - {listen_fd s}, listen_fd := kInvalidFd\<rparr>"
  have run: "srv_stop s = Inr ?s'"
    using True l1(1) p2(1) p3(1) a(1) by (simp add: srv_stop_def Let_def)
  have "map_of (channels p3) = (map_of (channels ?p)) |` (- insert (listen_fd s) (conn_fds s))"
    using p3(3) p2(3) by (auto simp: delete_conv' restrict_map_def fun_eq_iff)
  then have dom: "dom (map_of (channels p3)) = {wakeup_fd (srv_loop s)}"
    using assms True a(4) by (auto simp: life_ok_def watched_def)
  have "wakeup_fd (srv_loop s) \<in> srv_open s - conn_fds s - {listen_fd s}"
    using assms a(4) by (auto simp: life_ok_def srv_ok_def watched_def)
  moreover have "\<forall>b \<ge> next_addr s. heap p3 b = None"
    using srv_okD(3) [OF life_okD [OF assms]] l1(7) p2(4) p3(4) by simp
  ultimately have "life_ok ?s'"
    using p3(2) dom l1(2) by (simp add: life_ok_def srv_ok_def watched_def conn_fds_def)
  with run show ?thesis using l1(2,3) by simp
qed (use assms in \<open>simp add: srv_stop_def\<close>)

section \<open>Events\<close>

text \<open>Events of a server: it is started on a new listening descriptor or stopped, a client is accepted, a connection becomes readable, its peer hangs up or its
  descriptor reports an error, and a closure of the server runs: the deferred erasure of any descriptor, or the timeout of a connection that still exists. The kernel gives \<open>accept\<close> and \<open>socket\<close> descriptors that are not in use. A failing
  \<open>start\<close> aborts the program and is no event.\<close>

datatype 'h srv_event =
    Start int
  | Stop
  | Accepted "'h http_env" string int
  | Readable "'h http_env" int
  | HungUp int
  | TaskRun http_task

fun handle_srv_event :: "'h srv_event \<Rightarrow> 'h http_server \<Rightarrow> srv_fault + 'h http_server" where
  "handle_srv_event (Start f) s = srv_start f True True s"
| "handle_srv_event Stop s = srv_stop s"
| "handle_srv_event (Accepted env junk f) s = on_accept env junk f s"
| "handle_srv_event (Readable env f) s = on_message env f s"
| "handle_srv_event (HungUp f) s = on_close f s"
| "handle_srv_event (TaskRun t) s = run_http_task t s"

fun event_ok :: "'h http_server \<Rightarrow> 'h srv_event \<Rightarrow> bool" where
  "event_ok s (Start f) \<longleftrightarrow> f \<notin> srv_open s \<and> f \<noteq> kInvalidFd"
| "event_ok s Stop \<longleftrightarrow> True"
| "event_ok s (Accepted env junk f) \<longleftrightarrow> running s \<and> f \<notin> srv_open s \<and> length junk = kBlockSize"
| "event_ok s (Readable env f) \<longleftrightarrow> recv_ok env"
| "event_ok s (HungUp f) \<longleftrightarrow> True"
| "event_ok s (TaskRun t) \<longleftrightarrow>
     (case t of EraseConnection f \<Rightarrow> True | ConnectionTimeout a \<Rightarrow> heap (loop_poller (srv_loop s)) a \<noteq> None)"

inductive srv_step :: "srv_fault + 'h http_server \<Rightarrow> srv_fault + 'h http_server \<Rightarrow> bool" where
  "event_ok s ev \<Longrightarrow> srv_step (Inr s) (handle_srv_event ev s)"

text \<open>A server after its constructor and the registration of routes, on a new event loop.\<close>

definition constructed :: "srv_fault + 'h http_server \<Rightarrow> bool" where
  "constructed r \<longleftrightarrow>
     (\<exists>self kind rd wr now l a fds table dir. EventLoop_new self kind (Inr (rd, wr)) now = Inr l \<and> rd \<in> fds \<and>
        r = Inr ((HttpServer_new l a 1 fds)\<lparr>srv_router := table, static_dir := dir\<rparr>))"

definition alive :: "srv_fault + 'h http_server \<Rightarrow> bool" where
  "alive r \<longleftrightarrow> (\<exists>s. r = Inr s \<and> life_ok s) \<or> (\<exists>e. r = Inl (ParseFault e))"

lemma constructed_life:
  assumes "EventLoop_new self kind (Inr (rd, wr)) now = Inr l" and "rd \<in> fds"
  shows "life_ok ((HttpServer_new l a 1 fds)\<lparr>srv_router := table, static_dir := dir\<rparr>)"
  using EventLoop_new_poller [OF assms(1)] new_loop_wakeup_fd [OF assms(1)] wakeup_poller assms(2)
  by (simp add: life_ok_def srv_ok_def HttpServer_new_def watched_def conn_fds_def)

lemma served_alive: "life_ok s \<Longrightarrow> served s r \<Longrightarrow> alive r"
  using life_ok_frame unfolding served_def alive_def by blast

lemma task_alive: "life_ok s \<Longrightarrow> event_ok s (TaskRun t) \<Longrightarrow> alive (run_http_task t s)"
  using erase_life served_alive [OF _ served_close [OF life_okD]]
  by (cases t) (fastforce simp: run_http_task_def alive_def)+

lemma srv_step_alive:
  assumes "alive r" and "srv_step r r'"
  shows "alive r'"
  using assms(2)
proof cases
  case (1 s ev)
  then have s: "life_ok s" using assms(1) by (simp add: alive_def)
  show ?thesis
  proof (cases ev)
    case (Start f)
    then show ?thesis using 1 start_life [OF s, of f] by (auto simp: alive_def)
  next
    case Stop
    then show ?thesis using 1 stop_life [OF s] by (auto simp: alive_def)
  next
    case (Accepted env junk f)
    then show ?thesis using 1 accept_life [OF s, of f junk env] by (auto simp: alive_def)
  next
    case (Readable env f)
    then show ?thesis using 1 served_alive [OF s on_message_served [OF life_okD [OF s]]] by simp
  next
    case (HungUp f)
    then show ?thesis using 1 served_alive [OF s served_close [OF life_okD [OF s]]] by simp
  qed (use 1 s in \<open>simp add: task_alive\<close>)
qed

interpretation server_system: step_system constructed srv_step alive
proof
  show "alive r" if "constructed r" for r :: "srv_fault + 'h http_server"
    using that constructed_life unfolding constructed_def alive_def by blast
qed (rule srv_step_alive)

lemma reached_life: "constructed r \<Longrightarrow> srv_step\<^sup>*\<^sup>* r (Inr s) \<Longrightarrow> life_ok s"
  using server_system.inv_reached [of r "Inr s"] by (simp add: alive_def)

section \<open>Properties\<close>

text \<open>A concrete run: a server on descriptor 4 whose loop is woken through descriptor 3 accepts a client on descriptor 7.\<close>

lemma demo_run:
  "\<exists>s0 s s1 c. constructed (Inr s0) \<and> srv_start 4 True True s0 = Inr s \<and> on_accept (demo_env []) (replicate kBlockSize NUL) 7 s = Inr s1 \<and>
     srv_step\<^sup>*\<^sup>* (Inr s0) (Inr s1) \<and> life_ok s1 \<and> running s1 \<and> srv_open s1 = {7, 4, 3} \<and> map_of (connections s1) 7 = Some c \<and> \<not> closed c"
proof -
  let ?env = "demo_env []" and ?junk = "replicate kBlockSize NUL"
  obtain l :: "http_task event_loop" where l: "EventLoop_new 1 Eventfd (Inr (3, 3)) 0 = Inr l"
    using EventLoop_new_works by blast
  define s0 :: "string http_server" where "s0 = (HttpServer_new l Address_new 1 {3})\<lparr>srv_router := Router_new, static_dir := []\<rparr>"
  have start: "constructed (Inr s0)" "life_ok s0"
    unfolding constructed_def s0_def using l constructed_life [OF l] by blast+
  have s0: "srv_open s0 = {3}" "\<not> running s0" by (simp_all add: s0_def HttpServer_new_def)
  obtain s where s: "srv_start 4 True True s0 = Inr s" "life_ok s" "running s" "srv_open s = {4, 3}"
    using start_life [OF start(2), of 4] s0 by (auto simp: kInvalidFd_def)
  obtain s1 c where s1: "on_accept ?env ?junk 7 s = Inr s1" "life_ok s1" "running s1" "srv_open s1 = {7, 4, 3}"
    "map_of (connections s1) 7 = Some c" "\<not> closed c"
    using accept_life [OF s(2,3), of 7 ?junk ?env] s(4) by (auto simp: kInvalidFd_def)
  have "srv_step (Inr s0) (Inr s)" "srv_step (Inr s) (Inr s1)"
    using srv_step.intros [of s0 "Start 4"] srv_step.intros [of s "Accepted ?env ?junk 7"] s0(1) s(1,3,4) s1(1) by (simp_all add: kInvalidFd_def)
  then have "srv_step\<^sup>*\<^sup>* (Inr s0) (Inr s1)" by simp
  with start(1) s(1) s1 show ?thesis by blast
qed

text \<open>C9. The server is safe for its whole life. From a constructed server, through any sequence of starts and stops, accepted clients, readable
  connections, hang-ups, deferred tasks and timeouts of connections that still exist, and whatever the clients send, the handlers only ever fail with a fault of the chunk decoder. In
  every state in between, the poller watches exactly the wakeup descriptor, the listening socket of a running server and one open descriptor per connection, and each
  connection is keyed by its own descriptor, with a live channel that is registered for it and shared with no other.\<close>

theorem server_lifecycle:
  assumes "constructed r" and "srv_step\<^sup>*\<^sup>* r r'"
  shows "(\<exists>e. r' = Inl (ParseFault e)) \<or>
    (\<exists>s. r' = Inr s \<and>
       dom (map_of (channels (loop_poller (srv_loop s)))) =
         insert (wakeup_fd (srv_loop s)) (fst ` set (connections s) \<union> (if running s then {listen_fd s} else {})) \<and>
       dom (map_of (channels (loop_poller (srv_loop s)))) \<subseteq> srv_open s \<and> (\<not> running s \<longrightarrow> connections s = []) \<and>
       (\<forall>f c. map_of (connections s) f = Some c \<longrightarrow> conn_fd c = f \<and>
          map_of (channels (loop_poller (srv_loop s))) f = Some (conn_channel c) \<and>
          (\<exists>ch. heap (loop_poller (srv_loop s)) (conn_channel c) = Some ch \<and> fd ch = f) \<and>
          (\<forall>g d. map_of (connections s) g = Some d \<and> conn_channel d = conn_channel c \<longrightarrow> g = f)))"
proof -
  have "alive r'" by (rule server_system.inv_reached [OF assms])
  then consider e where "r' = Inl (ParseFault e)" | s where "r' = Inr s" "life_ok s" unfolding alive_def by blast
  then show ?thesis
  proof cases
    case (2 s)
    let ?p = "loop_poller (srv_loop s)"
    note s = life_okD [OF 2(2)]
    have reg: "conn_fd c = f \<and> map_of (channels ?p) f = Some (conn_channel c)" if "map_of (connections s) f = Some c" for f c
      using srv_okD(2) [OF s that] by (auto simp: conn_ok_def)
    have "(\<exists>ch. heap ?p (conn_channel c) = Some ch \<and> fd ch = f)" if "map_of (connections s) f = Some c" for f c
      using poller_okD(2) [OF srv_okD(1) [OF s]] reg [OF that] by blast
    moreover have "g = f" if "map_of (connections s) f = Some c" "map_of (connections s) g = Some d" "conn_channel d = conn_channel c" for f g c d
      using channel_inj [OF srv_okD(1) [OF s]] reg [OF that(1)] reg [OF that(2)] that(3) by metis
    moreover have "dom (map_of (channels ?p)) = insert (wakeup_fd (srv_loop s)) (fst ` set (connections s) \<union> (if running s then {listen_fd s} else {}))"
      "dom (map_of (channels ?p)) \<subseteq> srv_open s" "\<not> running s \<longrightarrow> connections s = []"
      using 2(2) s unfolding life_ok_def srv_ok_def watched_def conn_fds_def set_map by (blast, blast, metis)
    ultimately show ?thesis using 2(1) reg by blast
  qed simp
qed

theorem server_lifecycle_witness:
  "\<exists>s0 s s1 c. constructed (Inr s0) \<and> srv_start 4 True True s0 = Inr s \<and> on_accept (demo_env []) (replicate kBlockSize NUL) 7 s = Inr s1 \<and>
     map_of (connections s1) 7 = Some c \<and> conn_fd c = 7 \<and> 7 \<in> dom (map_of (channels (loop_poller (srv_loop s1))))"
proof -
  obtain s0 s s1 c where run: "constructed (Inr s0)" "srv_start 4 True True s0 = Inr s" "on_accept (demo_env []) (replicate kBlockSize NUL) 7 s = Inr s1"
    "srv_step\<^sup>*\<^sup>* (Inr s0) (Inr s1)" "map_of (connections s1) 7 = Some c"
    using demo_run by blast
  from server_lifecycle [OF run(1,4)] obtain s' where "s1 = s'"
    "\<forall>f c. map_of (connections s') f = Some c \<longrightarrow> conn_fd c = f \<and> map_of (channels (loop_poller (srv_loop s'))) f = Some (conn_channel c)" by blast
  with run show ?thesis by blast
qed

text \<open>\<open>stop\<close> releases what the server holds. In every reachable state of a running server it returns; then every connection's descriptor and the
  listening descriptor are closed and nothing else is, no connection is left, only the wakeup descriptor is watched, and the server can be started
  again on any free descriptor.\<close>

lemma stop_releases:
  assumes "constructed r" and "srv_step\<^sup>*\<^sup>* r (Inr s)" and "running s" and "f \<notin> srv_open s" and "f \<noteq> kInvalidFd"
  shows "\<exists>s' s''. srv_stop s = Inr s' \<and> \<not> running s' \<and> connections s' = [] \<and> listen_channel s' = None \<and>
    srv_open s' = srv_open s - fst ` set (connections s) - {listen_fd s} \<and>
    dom (map_of (channels (loop_poller (srv_loop s')))) = {wakeup_fd (srv_loop s)} \<and> srv_start f True True s' = Inr s'' \<and> running s''"
proof -
  from stop_life [OF reached_life [OF assms(1,2)]] obtain s' where s': "srv_stop s = Inr s'" "life_ok s'" "\<not> running s'"
    "wakeup_fd (srv_loop s') = wakeup_fd (srv_loop s)" "srv_open s' = srv_open s - conn_fds s - {listen_fd s}" "listen_channel s' = None"
    using assms(3) by blast
  then have "connections s' = []" by (simp add: life_ok_def)
  moreover have "dom (map_of (channels (loop_poller (srv_loop s')))) = {wakeup_fd (srv_loop s)}"
    using s'(2-4) \<open>connections s' = []\<close> by (simp add: life_ok_def watched_def conn_fds_def)
  moreover obtain s'' where "srv_start f True True s' = Inr s''" "running s''"
    using start_life [OF s'(2) _ assms(5)] assms(4) s'(5) by auto
  ultimately show ?thesis using s' by (simp add: conn_fds_def)
qed

lemma on_close_queues:
  assumes "on_close f s = Inr s'" and "map_of (connections s) f = Some c" and "\<not> closed c"
  shows "EraseConnection f \<in> set (pending_tasks (srv_loop s'))"
  using assms by (auto simp: on_close_def Let_def queue_in_loop_def push_task_def wakeup_def split: if_splits elim!: sum_bind.elims)

text \<open>The deferred erasure of a connection outlives \<open>stop\<close>. When a connection was closed before the server was stopped and restarted, and a new client
  gets the same descriptor, the old task is still pending, and running it erases the new client's connection, without cancelling its timer: the timeout, were it to fire,
  would read the connection that has been destroyed.\<close>

lemma stale_erasure:
  assumes "life_ok s" and "running s" and "map_of (connections s) f = Some c" and "\<not> closed c" and "f \<noteq> kInvalidFd" and "g \<noteq> f" and "g \<notin> srv_open s"
    and "g \<noteq> kInvalidFd" and "length junk = kBlockSize"
  shows "\<exists>s1 s2 s3 s4 s5. on_close f s = Inr s1 \<and> srv_stop s1 = Inr s2 \<and> srv_start g True True s2 = Inr s3 \<and> on_accept env junk f s3 = Inr s4 \<and>
    f \<in> fst ` set (connections s4) \<and> EraseConnection f \<in> set (pending_tasks (srv_loop s4)) \<and>
    run_http_task (EraseConnection f) s4 = Inr s5 \<and> f \<notin> fst ` set (connections s5) \<and> loop_wheel (srv_loop s5) = loop_wheel (srv_loop s4) \<and>
    (\<exists>d. map_of (connections s4) f = Some d \<and> run_http_task (ConnectionTimeout (conn_channel d)) s5 = Inl (LoopFault (PollFault UseAfterFree)))"
proof -
  obtain s1 where s1: "on_close f s = Inr s1" "srv_ok s1" "srv_frame s s1"
    using on_close_ok [OF life_okD [OF assms(1)]] unfolding same_conns_def by blast
  note l1 = life_ok_frame [OF assms(1) s1(2,3)]
  have "map fst (connections s1) = map fst (connections s)" "running s1" "srv_open s1 = srv_open s"
    using s1(3) assms(2) by (simp_all add: srv_frame_def)
  moreover have "f \<in> set (map fst (connections s))" using map_of_SomeD [OF assms(3)] by force
  ultimately have f: "f \<in> conn_fds s1" "running s1" "g \<notin> srv_open s1" using assms(7) by (simp_all add: conn_fds_def del: set_map)
  obtain s2 where s2: "srv_stop s1 = Inr s2" "life_ok s2" "\<not> running s2" "pending_tasks (srv_loop s2) = pending_tasks (srv_loop s1)"
    "srv_open s2 = srv_open s1 - conn_fds s1 - {listen_fd s1}"
    using stop_life [OF l1] f(2) by blast
  then obtain s3 where s3: "srv_start g True True s2 = Inr s3" "life_ok s3" "running s3" "pending_tasks (srv_loop s3) = pending_tasks (srv_loop s2)"
    "srv_open s3 = insert g (srv_open s2)"
    using start_life [OF s2(2) _ assms(8)] f(3) by auto
  have "f \<notin> srv_open s3" using s3(5) s2(5) f(1) assms(6) by auto
  then obtain s4 where s4: "on_accept env junk f s3 = Inr s4" "life_ok s4" "pending_tasks (srv_loop s4) = pending_tasks (srv_loop s3)"
    "\<exists>d. map_of (connections s4) f = Some d"
    using accept_life [OF s3(2,3) _ assms(9)] assms(5) by blast
  from s4(4) obtain d where d: "map_of (connections s4) f = Some d" by blast
  then have "f \<in> fst ` set (connections s4)" using map_of_SomeD by force
  obtain s5 where s5: "erase_connection f s4 = Inr s5" "connections s5 = AList.delete f (connections s4)"
      "loop_wheel (srv_loop s5) = loop_wheel (srv_loop s4)" "heap (loop_poller (srv_loop s5)) (conn_channel d) = None"
    using erase_connection_ok [OF life_okD [OF s4(2)] d] by auto
  have "EraseConnection f \<in> set (pending_tasks (srv_loop s1))" by (rule on_close_queues [OF s1(1) assms(3,4)])
  with s1(1) s2(1,4) s3(1,4) s4(1,3) s5 \<open>f \<in> fst ` set (connections s4)\<close> show ?thesis
    using d by (simp add: run_http_task_def delete_notin_dom)
qed

end
