(* ===== verification/Server_Loop.thy ===== *)
theory Server_Loop
  imports Server_Life
begin

text \<open>
  The HTTP server inside \<open>EventLoop::loop\<close> (\<open>src/hound/src/reactor/event_loop.cpp\<close>): one pass of the loop polls, calls the callbacks the server has put on its channels
  (\<open>src/hound/src/http/http_server.cpp\<close>), advances the timer wheel and runs the deferred tasks. A channel that a callback destroys while it is still to be
  dispatched, or while its own callbacks run, would be a use after free.
\<close>

section \<open>One pass of the loop\<close>

text \<open>What the system and the user's code do in one pass: \<open>select\<close>, the time \<open>poll\<close> returns, the descriptor \<open>accept\<close> gives when the open ones are known, the fresh memory of a buffer,
  the callbacks of the wheel, and the environment of the handlers.\<close>

record 'h turn_env =
  turn_select :: select_call
  turn_time :: timestamp
  turn_accept :: "int set \<Rightarrow> int"
  turn_junk :: string
  turn_timer :: "http_task \<Rightarrow> http_task timer_wheel \<Rightarrow> http_task timer_wheel"
  turn_fuel :: nat
  turn_http :: "'h http_env"

text \<open>The callbacks of the channel at \<open>a\<close>, created for the descriptor \<open>f\<close>: the listening channel and the wakeup channel have only a read callback.\<close>

definition srv_callback :: "'h turn_env \<Rightarrow> addr \<Rightarrow> int \<Rightarrow> channel_call \<Rightarrow> 'h http_server \<Rightarrow> srv_fault + 'h http_server" where
  "srv_callback t a f call s =
     (if listen_channel s = Some a
      then (case call of ReadCall tm \<Rightarrow> on_accept (turn_http t) (turn_junk t) (turn_accept t (srv_open s)) s | _ \<Rightarrow> Inr s)
      else if f = wakeup_fd (srv_loop s)
      then (case call of ReadCall tm \<Rightarrow> Inr (s\<lparr>srv_loop := handle_wakeup_read (srv_loop s)\<rparr>) | _ \<Rightarrow> Inr s)
      else (case call of
              ReadCall tm \<Rightarrow> on_message (turn_http t) f s
            | CloseCall \<Rightarrow> on_close f s
            | ErrorCall \<Rightarrow> on_close f s
            | WriteCall \<Rightarrow> Inr s))"

definition channel_live :: "addr \<Rightarrow> 'h http_server \<Rightarrow> srv_fault + 'h http_server" where
  "channel_live a s = (case heap (loop_poller (srv_loop s)) a of None \<Rightarrow> Inl (LoopFault (PollFault UseAfterFree)) | Some ch \<Rightarrow> Inr s)"

text \<open>\<open>handle_event\<close> goes on reading its channel after each callback.\<close>

fun srv_calls :: "'h turn_env \<Rightarrow> addr \<Rightarrow> int \<Rightarrow> channel_call list \<Rightarrow> 'h http_server \<Rightarrow> srv_fault + 'h http_server" where
  "srv_calls t a f [] s = Inr s"
| "srv_calls t a f (c # cs) s = sum_bind (sum_bind (srv_callback t a f c s) (channel_live a)) (srv_calls t a f cs)"

fun srv_dispatch :: "'h turn_env \<Rightarrow> addr list \<Rightarrow> 'h http_server \<Rightarrow> srv_fault + 'h http_server" where
  "srv_dispatch t [] s = Inr s"
| "srv_dispatch t (a # as) s =
     (case heap (loop_poller (srv_loop s)) a of
        None \<Rightarrow> Inl (LoopFault (PollFault UseAfterFree))
      | Some ch \<Rightarrow> sum_bind (srv_calls t a (fd ch) (handle_event (turn_time t) ch) s) (srv_dispatch t as))"

definition srv_pending :: "'h http_server \<Rightarrow> srv_fault + 'h http_server" where
  "srv_pending s =
     (let (tasks, l1) = swap_tasks ((srv_loop s)\<lparr>calling_pending_tasks := True\<rparr>)
      in sum_bind (for_each run_http_task tasks (s\<lparr>srv_loop := l1\<rparr>))
           (\<lambda>s1. Inr (s1\<lparr>srv_loop := (srv_loop s1)\<lparr>calling_pending_tasks := False\<rparr>\<rparr>)))"

definition srv_tick :: "'h turn_env \<Rightarrow> 'h http_server \<Rightarrow> srv_fault + 'h http_server" where
  "srv_tick t s =
     (case tick (turn_fuel t) (turn_timer t) (turn_time t) (loop_wheel (srv_loop s)) of
        None \<Rightarrow> Inl Diverges
      | Some (Inl e) \<Rightarrow> Inl (LoopFault (WheelFault e))
      | Some (Inr (w, fired)) \<Rightarrow> Inr (s\<lparr>srv_loop := (srv_loop s)\<lparr>loop_wheel := w\<rparr>\<rparr>))"

definition srv_iteration :: "'h turn_env \<Rightarrow> 'h http_server \<Rightarrow> srv_fault + 'h http_server" where
  "srv_iteration t s =
     (case poll (turn_select t) (to_int32 (next_timeout_ms (loop_wheel (srv_loop s)))) (loop_poller (srv_loop s)) [] of
        Inl e \<Rightarrow> Inl (LoopFault (PollFault e))
      | Inr (p, active) \<Rightarrow>
          sum_bind (srv_dispatch t active (s\<lparr>srv_loop := (srv_loop s)\<lparr>loop_poller := p, event_handling := True\<rparr>\<rparr>))
            (\<lambda>s1. sum_bind (srv_tick t (s1\<lparr>srv_loop := (srv_loop s1)\<lparr>event_handling := False\<rparr>\<rparr>)) srv_pending))"

section \<open>Polling\<close>

text \<open>Whatever \<open>select\<close> answers, \<open>poll\<close> changes nothing but the event masks of channels, and reports registered channels.\<close>

definition remasked :: "(addr \<rightharpoonup> channel) \<Rightarrow> (addr \<rightharpoonup> channel) \<Rightarrow> bool" where
  "remasked h h' \<longleftrightarrow> (\<forall>b. (h b = None \<longrightarrow> h' b = None) \<and> (\<forall>ch. h b = Some ch \<longrightarrow> (\<exists>r. h' b = Some (ch\<lparr>revents := r\<rparr>))))"

lemma revents_self: "\<exists>r. ch = ch\<lparr>revents := r\<rparr>" for ch :: channel
  by (intro exI [of _ "revents ch"]) simp

lemma remasked_refl [simp]: "remasked h h"
  using revents_self by (auto simp: remasked_def)

lemma remasked_trans: "remasked h h1 \<Longrightarrow> remasked h1 h2 \<Longrightarrow> remasked h h2"
  unfolding remasked_def by fastforce

lemma remasked_upd: "h a = Some ch \<Longrightarrow> remasked h (h(a \<mapsto> ch\<lparr>revents := r\<rparr>))"
  using revents_self by (auto simp: remasked_def)

lemma active_loop_safe:
  assumes "\<forall>a \<in> set as. h a \<noteq> None"
  shows "\<exists>h' act'. active_loop as s n h act = Inr (h', act @ act') \<and> set act' \<subseteq> set as \<and> remasked h h'"
  using assms
proof (induction as arbitrary: n h act)
  case (Cons a as)
  then obtain ch where ch: "h a = Some ch" by auto
  let ?h = "h(a \<mapsto> ch\<lparr>revents := ready_mask s (fd ch)\<rparr>)"
  show ?case
  proof (cases "ready_mask s (fd ch) = kNoneEvent")
    case True
    then show ?thesis using Cons.IH [of h n act] Cons.prems ch by auto
  next
    case False
    then have step: "active_loop (a # as) s n h act =
        (if n - 1 \<le> 0 then Inr (?h, act @ [a]) else active_loop as s (n - 1) ?h (act @ [a]))"
      using ch by (simp add: Let_def)
    have "\<forall>b \<in> set as. ?h b \<noteq> None" using Cons.prems by simp
    from Cons.IH [OF this, of "n - 1" "act @ [a]"] obtain h' act' where IH: "active_loop as s (n - 1) ?h (act @ [a]) = Inr (h', (act @ [a]) @ act')" "set act' \<subseteq> set as" "remasked ?h h'"
      by blast
    note upd = remasked_upd [of h a ch "ready_mask s (fd ch)", OF ch]
    show ?thesis unfolding step using IH(1,2) upd remasked_trans [OF upd IH(3)] by auto
  qed
qed simp

definition fds_in_range :: "poller \<Rightarrow> bool" where
  "fds_in_range p \<longleftrightarrow> (\<forall>f \<in> dom (map_of (channels p)). 0 \<le> f \<and> f < FD_SETSIZE)"

lemma rebuild_loop_safe:
  "\<forall>fa \<in> set fas. \<exists>ch. h (snd fa) = Some ch \<and> 0 \<le> fd ch \<and> fd ch < FD_SETSIZE \<Longrightarrow> \<exists>r. rebuild_loop h fas s m = Inr r"
proof (induction h fas s m rule: rebuild_loop.induct)
  case (2 h fa rest s m)
  then obtain ch where "h (snd fa) = Some ch" "\<not> (fd ch < 0 \<or> FD_SETSIZE \<le> fd ch)" by auto
  then show ?case using "2.IH" [OF _ _ refl refl refl] "2.prems" by (simp add: Let_def)
qed simp

lemma poll_safe:
  assumes "poller_ok p" and "fds_in_range p"
  shows "\<exists>h active. poll select ms p [] = Inr (p\<lparr>heap := h\<rparr>, active) \<and> set active \<subseteq> set (channel_list p) \<and> remasked (heap p) h"
proof -
  have live: "\<forall>a \<in> set (channel_list p). heap p a \<noteq> None" using poller_okD(1) [OF assms(1)] by fastforce
  have "\<exists>ch. heap p (snd fa) = Some ch \<and> 0 \<le> fd ch \<and> fd ch < FD_SETSIZE" if "fa \<in> set (channels p)" for fa
    using poller_ok_heap [OF assms(1) that] that assms(2) by (cases fa) (force simp: fds_in_range_def dom_map_of_conv_image_fst)
  then obtain s m where "rebuild_fds p = Inr (s, m)"
    using rebuild_loop_safe [of "channels p" "heap p" "\<lparr>read_fds = {}, write_fds = {}, except_fds = {}\<rparr>" 0] by (auto simp: rebuild_fds_def)
  moreover obtain n s' where "select m s (if ms \<ge> 0 then Some (ms sdiv 1000, (ms smod 1000) * 1000) else None) = (n, s')" by fastforce
  ultimately show ?thesis
    using active_loop_safe [OF live, of s' n "[]"] by (cases "n \<le> 0") (auto simp: poll_def Let_def intro: exI [of _ "heap p"])
qed

lemma remasked_poller:
  assumes "poller_ok p" and "remasked (heap p) h"
  shows "poller_ok (p\<lparr>heap := h\<rparr>)" "keeps_added p (p\<lparr>heap := h\<rparr>)" "heap p a = None \<Longrightarrow> h a = None" "keeps_callbacks p (p\<lparr>heap := h\<rparr>)"
proof -
  show "keeps_callbacks p (p\<lparr>heap := h\<rparr>)" using assms(2) by (fastforce simp: remasked_def keeps_callbacks_def callbacks_def)
  show "poller_ok (p\<lparr>heap := h\<rparr>)" using assms(2) by (intro poller_ok_mono [OF assms(1)]) (force simp: remasked_def)+
  show "keeps_added p (p\<lparr>heap := h\<rparr>)" using assms(2) by (fastforce simp: remasked_def keeps_added_def added_def)
qed (use assms(2) in \<open>simp add: remasked_def\<close>)

section \<open>The invariant of the loop\<close>

text \<open>A started server whose registered channels are all live, with descriptors \<open>select\<close> can watch, and whose connections have the callbacks \<open>on_accept\<close> sets.\<close>

definition all_added :: "poller \<Rightarrow> bool" where
  "all_added p \<longleftrightarrow> (\<forall>f a. map_of (channels p) f = Some a \<longrightarrow> added p a)"

definition wired :: "poller \<Rightarrow> int \<Rightarrow> bool" where
  "wired p f \<longleftrightarrow> (\<exists>a ch. map_of (channels p) f = Some a \<and> heap p a = Some ch \<and> callbacks ch = (True, False, True, True, Untied))"

definition loop_ok :: "'h http_server \<Rightarrow> bool" where
  "loop_ok s \<longleftrightarrow> life_ok s \<and> running s \<and> all_added (loop_poller (srv_loop s)) \<and> fds_in_range (loop_poller (srv_loop s)) \<and>
     (\<forall>f \<in> conn_fds s. wired (loop_poller (srv_loop s)) f) \<and> only_erases s"

lemma loop_okD:
  "loop_ok s \<Longrightarrow> life_ok s" "loop_ok s \<Longrightarrow> running s" "loop_ok s \<Longrightarrow> all_added (loop_poller (srv_loop s))" "loop_ok s \<Longrightarrow> fds_in_range (loop_poller (srv_loop s))"
  "loop_ok s \<Longrightarrow> f \<in> conn_fds s \<Longrightarrow> wired (loop_poller (srv_loop s)) f" "loop_ok s \<Longrightarrow> only_erases s"
  by (simp_all add: loop_ok_def)

lemma wired_keeps: "wired p f \<Longrightarrow> map_of (channels p') f = map_of (channels p) f \<Longrightarrow> keeps_callbacks p p' \<Longrightarrow> wired p' f"
  unfolding wired_def keeps_callbacks_def by metis

text \<open>What the callbacks keep: registered channels stay registered and live.\<close>

definition keeps_registered :: "'h http_server \<Rightarrow> 'h http_server \<Rightarrow> bool" where
  "keeps_registered s s' \<longleftrightarrow>
     (\<forall>f a. map_of (channels (loop_poller (srv_loop s))) f = Some a \<longrightarrow> map_of (channels (loop_poller (srv_loop s'))) f = Some a)"

lemma keeps_registered_refl [simp]: "keeps_registered s s"
  by (simp add: keeps_registered_def)

lemma keeps_registered_trans: "keeps_registered s t \<Longrightarrow> keeps_registered t u \<Longrightarrow> keeps_registered s u"
  by (simp add: keeps_registered_def)

definition turned :: "'h http_server \<Rightarrow> srv_fault + 'h http_server \<Rightarrow> bool" where
  "turned s r \<longleftrightarrow> (\<exists>s'. r = Inr s' \<and> loop_ok s' \<and> keeps_registered s s') \<or> (\<exists>e. r = Inl (ParseFault e))"

lemma turned_Inr [simp]: "loop_ok s' \<Longrightarrow> keeps_registered s s' \<Longrightarrow> turned s (Inr s')"
  and turned_fault [simp]: "turned s (Inl (ParseFault e))"
  by (simp_all add: turned_def)

lemma turned_bind:
  assumes "turned s r" and "\<And>s'. loop_ok s' \<Longrightarrow> keeps_registered s s' \<Longrightarrow> turned s' (g s')"
  shows "turned s (sum_bind r g)"
  using assms unfolding turned_def by (metis keeps_registered_trans sum_bind.simps)

lemma loop_ok_frame:
  assumes "loop_ok s" and "srv_ok s'" and "srv_frame s s'"
  shows "loop_ok s'" "keeps_registered s s'"
proof -
  have f: "channels (loop_poller (srv_loop s')) = channels (loop_poller (srv_loop s))" "keeps_added (loop_poller (srv_loop s)) (loop_poller (srv_loop s'))"
    "running s' = running s" "keeps_callbacks (loop_poller (srv_loop s)) (loop_poller (srv_loop s'))" "map fst (connections s') = map fst (connections s)"
    "only_erases s \<longrightarrow> only_erases s'"
    using assms(3) by (simp_all add: srv_frame_def)
  then have "conn_fds s' = conn_fds s" by (simp only: conn_fds_def)
  with f show "loop_ok s'"
    using assms(1) life_ok_frame [OF loop_okD(1) [OF assms(1)] assms(2,3)] wired_keeps [OF loop_okD(5) [OF assms(1)]]
    by (simp add: loop_ok_def all_added_def keeps_added_def fds_in_range_def)
  show "keeps_registered s s'" using f(1) by (simp add: keeps_registered_def)
qed

lemma served_turned: "loop_ok s \<Longrightarrow> served s r \<Longrightarrow> turned s r"
  using loop_ok_frame unfolding served_def turned_def by blast

section \<open>Callbacks\<close>

text \<open>A descriptor the system can give: none, or one that is not open and that \<open>select\<close> can watch.\<close>

definition turn_ok :: "'h turn_env \<Rightarrow> bool" where
  "turn_ok t \<longleftrightarrow> recv_ok (turn_http t) \<and> length (turn_junk t) = kBlockSize \<and>
     (\<forall>fds. turn_accept t fds = kInvalidFd \<or> turn_accept t fds \<notin> fds \<and> 0 \<le> turn_accept t fds \<and> turn_accept t fds < FD_SETSIZE)"

lemma new_channel_wired:
  assumes "poller_ok (loop_poller (srv_loop s))" and "heap (loop_poller (srv_loop s)) (next_addr s) = None"
    and "map_of (channels (loop_poller (srv_loop s))) f = None" and "new_channel f w s = Inr (a, s')"
  shows "keeps_callbacks (loop_poller (srv_loop s)) (loop_poller (srv_loop s'))"
    "\<exists>ch. heap (loop_poller (srv_loop s')) (next_addr s) = Some ch \<and> callbacks ch = (True, False, w, w, Untied)"
proof -
  let ?p = "loop_poller (srv_loop s)" and ?a = "next_addr s"
  let ?ch = "(Channel_new f)\<lparr>read_callback := True, close_callback := w, error_callback := w\<rparr>"
  obtain p' where p': "enable_reading ?a (?p\<lparr>heap := (heap ?p)(?a \<mapsto> ?ch)\<rparr>) = Inr p'"
      "heap p' = (heap ?p)(?a \<mapsto> ?ch\<lparr>events := events ?ch OR kReadEvent, added_to_loop := True, index := 0\<rparr>)"
    using open_channel_ok [OF assms(1,2), of ?ch] assms(3) by (auto simp: Channel_new_def)
  have "loop_poller (srv_loop s') = p'"
    using assms(4) p'(1) by (auto simp: new_channel_def on_loop_def with_poller_def assert_in_loop_thread_def is_in_loop_thread_def Let_def)
  with p'(2) assms(2) show "keeps_callbacks ?p (loop_poller (srv_loop s'))"
    "\<exists>ch. heap (loop_poller (srv_loop s')) ?a = Some ch \<and> callbacks ch = (True, False, w, w, Untied)"
    by (auto simp: keeps_callbacks_def callbacks_def Channel_new_def)
qed

text \<open>The channels after an accepted connection, and after \<open>start\<close>.\<close>

lemma accept_channels:
  assumes "life_ok s" and "f \<notin> srv_open s" and "f \<noteq> kInvalidFd" and "on_accept env junk f s = Inr s'"
  shows "map_of (channels (loop_poller (srv_loop s'))) = (map_of (channels (loop_poller (srv_loop s))))(f \<mapsto> next_addr s)"
    "keeps_added (loop_poller (srv_loop s)) (loop_poller (srv_loop s'))" "added (loop_poller (srv_loop s')) (next_addr s)"
    "keeps_callbacks (loop_poller (srv_loop s)) (loop_poller (srv_loop s'))" "wired (loop_poller (srv_loop s')) f" "conn_fds s' = insert f (conn_fds s)"
proof -
  let ?s0 = "s\<lparr>srv_open := insert f (srv_open s)\<rparr>"
  obtain p' where p': "new_channel f True ?s0 = Inr (next_addr s, ?s0\<lparr>next_addr := next_addr s + 1, srv_loop := (srv_loop s)\<lparr>loop_poller := p'\<rparr>\<rparr>)"
      "map_of (channels p') = (map_of (channels (loop_poller (srv_loop s))))(f \<mapsto> next_addr s)" "keeps_added (loop_poller (srv_loop s)) p'" "added p' (next_addr s)" "f \<notin> watched s"
    using new_channel_life [OF assms(1,2), of True] by auto
  have none: "map_of (channels (loop_poller (srv_loop s))) f = None"
    using assms(1) p'(5) by (auto simp: life_ok_def)
  note ok = life_okD [OF assms(1)]
  note w = new_channel_wired [of ?s0, OF _ _ _ p'(1), simplified, OF srv_okD(1) [OF ok] srv_okD(3) [OF ok] none, simplified]
  let ?s1 = "?s0\<lparr>next_addr := next_addr s + 1, srv_loop := (srv_loop s)\<lparr>loop_poller := p'\<rparr>\<rparr>"
  let ?c = "\<lparr>conn_fd = f, conn_channel = next_addr s, read_buf = Buffer_new junk, conn_parser = HttpParser_reset, timeout_timer = 0, closed = False\<rparr>"
  obtain c2 s2 where r: "refresh_timeout env ?c ?s1 = (c2, s2)" by fastforce
  have s': "s' = put_conn f c2 s2" using assms(3,4) p'(1) r by (simp add: on_accept_def Let_def)
  then have poller: "loop_poller (srv_loop s') = p'" using refresh_timeout_fields [OF r] by simp
  show "conn_fds s' = insert f (conn_fds s)"
    using s' refresh_timeout_fields(7) [OF r] by (simp add: conn_fds_cong [of s2 s])
  show "map_of (channels (loop_poller (srv_loop s'))) = (map_of (channels (loop_poller (srv_loop s))))(f \<mapsto> next_addr s)"
    "keeps_added (loop_poller (srv_loop s)) (loop_poller (srv_loop s'))" "added (loop_poller (srv_loop s')) (next_addr s)"
    "keeps_callbacks (loop_poller (srv_loop s)) (loop_poller (srv_loop s'))" "wired (loop_poller (srv_loop s')) f"
    using poller p'(2-4) w by (simp_all add: wired_def)
qed

lemma accept_turned:
  assumes "loop_ok s" and "turn_ok t"
  shows "turned s (on_accept (turn_http t) (turn_junk t) (turn_accept t (srv_open s)) s)"
proof (cases "turn_accept t (srv_open s) = kInvalidFd")
  case True
  then show ?thesis using assms(1) by (simp add: on_accept_def)
next
  case False
  let ?f = "turn_accept t (srv_open s)" and ?p = "loop_poller (srv_loop s)"
  have f: "?f \<notin> srv_open s" "0 \<le> ?f" "?f < FD_SETSIZE" "length (turn_junk t) = kBlockSize"
    using assms(2) False unfolding turn_ok_def by blast+
  obtain s' where s': "on_accept (turn_http t) (turn_junk t) ?f s = Inr s'" "life_ok s'" "running s'" "pending_tasks (srv_loop s') = pending_tasks (srv_loop s)"
    using accept_life [OF loop_okD(1,2) [OF assms(1)] f(1,4)] by blast
  note ch = accept_channels [OF loop_okD(1) [OF assms(1)] f(1) False s'(1)]
  have "all_added (loop_poller (srv_loop s'))" "fds_in_range (loop_poller (srv_loop s'))"
    using loop_okD(3,4) [OF assms(1)] ch f(2,3) by (auto simp: all_added_def keeps_added_def fds_in_range_def split: if_splits)
  moreover have none: "map_of (channels ?p) ?f = None"
    using srv_okD(4) [OF life_okD [OF loop_okD(1) [OF assms(1)]]] f(1) by (metis not_None_eq)
  then have "keeps_registered s s'" using ch(1) by (auto simp: keeps_registered_def)
  moreover have "wired (loop_poller (srv_loop s')) g" if "g \<in> conn_fds s'" for g
    using that ch(1,4-6) wired_keeps [OF loop_okD(5) [OF assms(1)], of g] by (cases "g = ?f") simp_all
  moreover have "only_erases s'" using loop_okD(6) [OF assms(1)] s'(4) by (simp add: only_erases_def)
  ultimately show ?thesis using s' by (simp add: loop_ok_def)
qed

lemma callback_turned:
  assumes "loop_ok s" and "turn_ok t"
  shows "turned s (srv_callback t a f c s)"
proof -
  note ok = life_okD [OF loop_okD(1) [OF assms(1)]]
  have "turned s (Inr s)" using assms(1) by simp
  moreover have "turned s (Inr (s\<lparr>srv_loop := handle_wakeup_read (srv_loop s)\<rparr>))"
    using ok by (intro served_turned [OF assms(1)]) (simp add: served_def srv_frame_def srv_ok_def handle_wakeup_read_def only_erases_def)
  moreover have "turned s (on_message (turn_http t) f s)"
    using assms(2) by (intro served_turned [OF assms(1)] on_message_served [OF ok]) (simp add: turn_ok_def)
  moreover have "turned s (on_close f s)"
    by (rule served_turned [OF assms(1) served_close [OF ok]])
  ultimately show ?thesis
    using accept_turned [OF assms] unfolding srv_callback_def by (simp split: channel_call.splits)
qed

text \<open>A registered channel is live, so the calls and the dispatch never meet a freed one.\<close>

lemma registered_live:
  assumes "loop_ok s" and "map_of (channels (loop_poller (srv_loop s))) f = Some a"
  obtains ch where "heap (loop_poller (srv_loop s)) a = Some ch" "fd ch = f"
  using poller_okD(2) [OF srv_okD(1) [OF life_okD [OF loop_okD(1) [OF assms(1)]]] assms(2)] by blast

lemma calls_turned:
  assumes "turn_ok t" and "loop_ok s" and "map_of (channels (loop_poller (srv_loop s))) g = Some a"
  shows "turned s (srv_calls t a f cs s)"
  using assms(2,3)
proof (induction cs arbitrary: s)
  case (Cons c cs)
  have live: "channel_live a s' = Inr s'" if s': "loop_ok s'" "map_of (channels (loop_poller (srv_loop s'))) g = Some a" for s'
  proof -
    obtain ch where "heap (loop_poller (srv_loop s')) a = Some ch" using registered_live [OF s'] by blast
    then show ?thesis by (simp add: channel_live_def)
  qed
  have "turned s (sum_bind (srv_callback t a f c s) (channel_live a))"
  proof (rule turned_bind [OF callback_turned [OF Cons.prems(1) assms(1)]])
    show "turned s' (channel_live a s')" if s': "loop_ok s'" "keeps_registered s s'" for s'
      using s' live [OF s'(1)] Cons.prems(2) by (simp add: keeps_registered_def)
  qed
  then show ?case
    unfolding srv_calls.simps
  proof (rule turned_bind)
    show "turned s' (srv_calls t a f cs s')" if "loop_ok s'" "keeps_registered s s'" for s'
      using that Cons.prems(2) by (intro Cons.IH) (simp_all add: keeps_registered_def)
  qed
qed simp

lemma dispatch_turned:
  assumes "turn_ok t" and "loop_ok s" and "\<forall>a \<in> set as. \<exists>f. map_of (channels (loop_poller (srv_loop s))) f = Some a"
  shows "turned s (srv_dispatch t as s)"
  using assms(2,3)
proof (induction as arbitrary: s)
  case (Cons a as)
  obtain f where f: "map_of (channels (loop_poller (srv_loop s))) f = Some a" using Cons.prems(2) by auto
  obtain ch where ch: "heap (loop_poller (srv_loop s)) a = Some ch" using registered_live [OF Cons.prems(1) f] by blast
  have "turned s (sum_bind (srv_calls t a (fd ch) (handle_event (turn_time t) ch) s) (srv_dispatch t as))"
  proof (rule turned_bind [OF calls_turned [OF assms(1) Cons.prems(1) f]])
    fix s' assume s': "loop_ok s'" "keeps_registered s s'"
    show "turned s' (srv_dispatch t as s')"
      using Cons.prems(2) s'(2) by (intro Cons.IH [OF s'(1)]) (fastforce simp: keeps_registered_def)
  qed
  with ch show ?case by simp
qed simp

section \<open>Deferred tasks\<close>

text \<open>Tasks may unregister channels, so only the invariant is kept; the descriptor of an erased connection is closed.\<close>

definition looping_ok :: "srv_fault + 'h http_server \<Rightarrow> bool" where
  "looping_ok r \<longleftrightarrow> (\<exists>s. r = Inr s \<and> loop_ok s) \<or> (\<exists>e. r = Inl (ParseFault e))"

lemma turned_looping: "turned s r \<Longrightarrow> looping_ok r"
  by (auto simp: turned_def looping_ok_def)

lemma looping_bind: "looping_ok r \<Longrightarrow> (\<And>s. loop_ok s \<Longrightarrow> looping_ok (g s)) \<Longrightarrow> looping_ok (sum_bind r g)"
  unfolding looping_ok_def by (metis sum_bind.simps)

lemma erase_running: "erase_connection f s = Inr s' \<Longrightarrow> running s' = running s"
  by (auto simp: erase_connection_def destroy_connection_def on_loop_def sum_bind_Inr_iff map_sum_Inr_iff split: option.splits)

lemma erase_pending: "erase_connection f s = Inr s' \<Longrightarrow> pending_tasks (srv_loop s') = pending_tasks (srv_loop s)"
  by (auto simp: erase_connection_def destroy_connection_def on_loop_def Channel_destroy_def with_poller_def free_channel_def Let_def sum_bind_Inr_iff map_sum_Inr_iff
      split: option.splits if_splits sum.splits)

lemma erase_loop:
  assumes "loop_ok s"
  shows "\<exists>s'. erase_connection f s = Inr s' \<and> loop_ok s'"
proof (cases "map_of (connections s) f")
  case None
  then show ?thesis using assms by (simp add: erase_connection_def)
next
  case (Some c)
  let ?p = "loop_poller (srv_loop s)"
  note ok = life_okD [OF loop_okD(1) [OF assms]]
  obtain s' where s': "erase_connection f s = Inr s'" "life_ok s'" using erase_life [OF loop_okD(1) [OF assms]] by blast
  obtain p' where p': "loop_poller (srv_loop s') = p'" "channels p' = AList.delete f (channels ?p)" "heap p' = (heap ?p)(conn_channel c := None)"
    using erase_connection_ok [OF ok Some] s'(1) by auto
  have own: "map_of (channels ?p) f = Some (conn_channel c)" using srv_okD(2) [OF ok Some] by (simp add: conn_ok_def)
  have "added p' a" if "map_of (channels p') g = Some a" for g a
  proof -
    have g: "g \<noteq> f" "map_of (channels ?p) g = Some a" using that p'(2) by (auto simp: delete_conv' split: if_splits)
    then have "a \<noteq> conn_channel c" using channel_inj [OF srv_okD(1) [OF ok] own] by auto
    then show ?thesis using loop_okD(3) [OF assms] g(2) p'(3) by (simp add: all_added_def added_def)
  qed
  moreover have "fds_in_range p'" using loop_okD(4) [OF assms] p'(2) by (auto simp: fds_in_range_def delete_conv')
  moreover have "wired p' g" if "g \<in> conn_fds s'" for g
  proof -
    have "connections s' = AList.delete f (connections s)"
      using s'(1) Some by (auto simp: erase_connection_def destroy_connection_def on_loop_def sum_bind_Inr_iff map_sum_Inr_iff)
    then have "conn_fds s' = conn_fds s - {f}" by (simp add: conn_fds_def delete_keys del: set_map)
    then have g: "g \<noteq> f" "g \<in> conn_fds s" using that by auto
    obtain a ch where w: "map_of (channels ?p) g = Some a" "heap ?p a = Some ch" "callbacks ch = (True, False, True, True, Untied)"
      using loop_okD(5) [OF assms g(2)] by (auto simp: wired_def)
    moreover have "a \<noteq> conn_channel c" using channel_inj [OF srv_okD(1) [OF ok] own] w(1) g(1) by auto
    ultimately show ?thesis using p'(2,3) g(1) by (simp add: wired_def delete_conv')
  qed
  moreover have "only_erases s'" using loop_okD(6) [OF assms] erase_pending [OF s'(1)] by (simp add: only_erases_def)
  ultimately have "loop_ok s'" using s'(2) erase_running [OF s'(1)] loop_okD(2) [OF assms] p'(1) by (simp add: loop_ok_def all_added_def)
  with s'(1) show ?thesis by blast
qed

lemma tasks_loop:
  assumes "loop_ok s" and "set ts \<subseteq> range EraseConnection"
  shows "\<exists>s'. for_each run_http_task ts s = Inr s' \<and> loop_ok s'"
  using assms
proof (induction ts arbitrary: s)
  case (Cons t ts)
  then obtain f where t: "t = EraseConnection f" by auto
  obtain s1 where "erase_connection f s = Inr s1" "loop_ok s1" using erase_loop [OF Cons.prems(1)] by blast
  then show ?case using Cons.IH Cons.prems(2) by (simp add: t run_http_task_def)
qed simp

text \<open>Changes of the loop that leave its poller and wakeup descriptor alone.\<close>

lemma loop_ok_loop:
  assumes "loop_ok s" and "loop_poller l = loop_poller (srv_loop s)" and "wakeup_fd l = wakeup_fd (srv_loop s)" and "set (pending_tasks l) \<subseteq> set (pending_tasks (srv_loop s))"
  shows "loop_ok (s\<lparr>srv_loop := l\<rparr>)"
proof -
  have "only_erases (s\<lparr>srv_loop := l\<rparr>)" using loop_okD(6) [OF assms(1)] assms(4) by (simp add: only_erases_def order_trans)
  moreover have "life_ok (s\<lparr>srv_loop := l\<rparr>) = life_ok s"
    using assms(2,3) by (simp add: life_ok_def srv_ok_def watched_def listening_def conn_fds_def)
  ultimately show ?thesis using assms(1,2) by (simp add: loop_ok_def conn_fds_def)
qed

lemma pending_loop:
  assumes "loop_ok s"
  shows "\<exists>s'. srv_pending s = Inr s' \<and> loop_ok s'"
proof -
  let ?s = "s\<lparr>srv_loop := (srv_loop s)\<lparr>calling_pending_tasks := True, pending_tasks := []\<rparr>\<rparr>"
  have "loop_ok ?s" by (rule loop_ok_loop [OF assms]) simp_all
  then obtain s1 where s1: "for_each run_http_task (pending_tasks (srv_loop s)) ?s = Inr s1" "loop_ok s1"
    using tasks_loop loop_okD(6) [OF assms] unfolding only_erases_def by blast
  have "loop_ok (s1\<lparr>srv_loop := (srv_loop s1)\<lparr>calling_pending_tasks := False\<rparr>\<rparr>)"
    by (rule loop_ok_loop [OF s1(2)]) simp_all
  then show ?thesis using s1(1) by (simp add: srv_pending_def swap_tasks_def)
qed

lemma tick_loop_ok:
  "srv_tick t s = Inr (s\<lparr>srv_loop := (srv_loop s)\<lparr>loop_wheel := (loop_wheel (srv_loop s))\<lparr>last_tick := turn_time t\<rparr>\<rparr>\<rparr>)"
  by (simp add: srv_tick_def tick_def diff_ms_def)

section \<open>The whole pass\<close>

lemma polled_loop:
  assumes "loop_ok s" and "remasked (heap (loop_poller (srv_loop s))) h"
  shows "loop_ok (s\<lparr>srv_loop := (srv_loop s)\<lparr>loop_poller := (loop_poller (srv_loop s))\<lparr>heap := h\<rparr>, event_handling := True\<rparr>\<rparr>)"
proof -
  let ?p = "loop_poller (srv_loop s)" and ?s = "s\<lparr>srv_loop := (srv_loop s)\<lparr>loop_poller := (loop_poller (srv_loop s))\<lparr>heap := h\<rparr>, event_handling := True\<rparr>\<rparr>"
  note ok = life_okD [OF loop_okD(1) [OF assms(1)]]
  note p = remasked_poller [OF srv_okD(1) [OF ok] assms(2)]
  have "conn_ok (?p\<lparr>heap := h\<rparr>) f c" if "map_of (connections s) f = Some c" for f c
    using srv_okD(2) [OF ok that] p(2) by (auto simp: conn_ok_registered registered_def keeps_added_def)
  then have "srv_ok ?s" using ok p(1,3) by (simp add: srv_ok_def)
  then show ?thesis using p(2,4) by (intro loop_ok_frame(1) [OF assms(1)]) (simp_all add: srv_frame_def, simp add: only_erases_def)
qed

lemma iteration_loop:
  assumes "loop_ok s" and "turn_ok t"
  shows "looping_ok (srv_iteration t s)"
proof -
  let ?p = "loop_poller (srv_loop s)"
  note ok = srv_okD(1) [OF life_okD [OF loop_okD(1) [OF assms(1)]]]
  obtain h active where poll: "poll (turn_select t) (to_int32 (next_timeout_ms (loop_wheel (srv_loop s)))) ?p [] = Inr (?p\<lparr>heap := h\<rparr>, active)"
      "set active \<subseteq> set (channel_list ?p)" "remasked (heap ?p) h"
    using poll_safe [OF ok loop_okD(4) [OF assms(1)]] by blast
  let ?s = "s\<lparr>srv_loop := (srv_loop s)\<lparr>loop_poller := ?p\<lparr>heap := h\<rparr>, event_handling := True\<rparr>\<rparr>"
  have "\<forall>a \<in> set active. \<exists>f. map_of (channels (loop_poller (srv_loop ?s))) f = Some a"
    using poll(2) poller_okD(1) [OF ok] by fastforce
  then have "looping_ok (srv_dispatch t active ?s)"
    by (intro turned_looping [OF dispatch_turned [OF assms(2) polled_loop [OF assms(1) poll(3)]]])
  moreover have "looping_ok (sum_bind (srv_tick t (s1\<lparr>srv_loop := (srv_loop s1)\<lparr>event_handling := False\<rparr>\<rparr>)) srv_pending)" if "loop_ok s1" for s1
  proof -
    let ?s1 = "s1\<lparr>srv_loop := (srv_loop s1)\<lparr>event_handling := False, loop_wheel := (loop_wheel (srv_loop s1))\<lparr>last_tick := turn_time t\<rparr>\<rparr>\<rparr>"
    have "loop_ok ?s1" by (rule loop_ok_loop [OF that]) simp_all
    then show ?thesis using pending_loop by (fastforce simp: tick_loop_ok looping_ok_def)
  qed
  ultimately show ?thesis
    using poll(1) by (simp add: srv_iteration_def looping_bind)
qed

inductive loop_pass :: "srv_fault + 'h http_server \<Rightarrow> srv_fault + 'h http_server \<Rightarrow> bool" where
  "turn_ok t \<Longrightarrow> loop_pass (Inr s) (srv_iteration t s)"

text \<open>A server that has been constructed and started.\<close>

definition started :: "srv_fault + 'h http_server \<Rightarrow> bool" where
  "started r \<longleftrightarrow>
     (\<exists>self kind rd wr now l a fds table dir f. EventLoop_new self kind (Inr (rd, wr)) now = Inr l \<and> rd \<in> fds \<and> 0 \<le> rd \<and> rd < FD_SETSIZE \<and>
        f \<notin> fds \<and> 0 \<le> f \<and> f < FD_SETSIZE \<and>
        r = srv_start f True True ((HttpServer_new l a 1 fds)\<lparr>srv_router := table, static_dir := dir\<rparr>))"

lemma started_loop:
  assumes "started r"
  shows "\<exists>s. r = Inr s \<and> loop_ok s"
proof -
  obtain self kind rd wr now l a fds table dir f where l: "EventLoop_new self kind (Inr (rd, wr)) now = Inr l" "rd \<in> fds" "0 \<le> rd" "rd < FD_SETSIZE"
      "f \<notin> fds" "0 \<le> f" "f < FD_SETSIZE" and r: "r = srv_start f True True ((HttpServer_new l a 1 fds)\<lparr>srv_router := table, static_dir := dir\<rparr>)"
    using assms unfolding started_def by blast
  let ?s = "(HttpServer_new l a 1 fds)\<lparr>srv_router := table, static_dir := dir\<rparr>"
  let ?u = "?s\<lparr>listen_fd := f, srv_open := insert f fds\<rparr>" and ?p = "loop_poller l"
  have life: "life_ok ?s" by (rule constructed_life [OF l(1,2)])
  have inv: "f \<noteq> kInvalidFd" using l(6) by (simp add: kInvalidFd_def)
  have fields: "srv_open ?s = fds" "srv_loop ?s = l" "next_addr ?s = 1" "\<not> running ?s" "connections ?s = []" by (simp_all add: HttpServer_new_def)
  obtain s' where s': "srv_start f True True ?s = Inr s'" "life_ok s'" "running s'"
    using start_life [OF life, of f] l(5) inv fields(1) by auto
  have p: "?p = wakeup_registered rd 0" by (rule EventLoop_new_poller [OF l(1)])
  then have none: "map_of (channels ?p) f = None" using l(2,5) wakeup_poller(3) [of rd 0] by auto
  have ok: "srv_ok ?u" using life_okD [OF life] fields by (auto simp: srv_ok_def)
  obtain p' where new: "new_channel f False ?u = Inr (1, ?u\<lparr>next_addr := 2, srv_loop := l\<lparr>loop_poller := p'\<rparr>\<rparr>)"
      "channels p' = AList.update f 1 (channels ?p)" "keeps_added ?p p'" "added p' 1"
    using new_channel_ok [OF ok, of f False] none fields by (auto simp: numeral_2_eq_2)
  have "s' = ?u\<lparr>next_addr := 2, srv_loop := l\<lparr>loop_poller := p'\<rparr>, listen_channel := Some 1, running := True\<rparr>"
    using s'(1) new(1) inv fields by (simp add: srv_start_def HttpServer_new_def)
  moreover have "pending_tasks l = []" using l(1) by (auto simp: EventLoop_new_def split: sum.splits)
  ultimately have "loop_poller (srv_loop s') = p'" "conn_fds s' = {}" "only_erases s'" using fields(5) by (simp_all add: conn_fds_def only_erases_def)
  moreover have "all_added p'"
    using new(2-4) by (auto simp: all_added_def update_conv' keeps_added_def p wakeup_poller added_def wakeup_registered_def split: if_splits)
  moreover have "fds_in_range p'"
    using new(2) l(3,4,6,7) by (auto simp: fds_in_range_def update_conv' p wakeup_poller split: if_splits)
  ultimately show ?thesis using s' r by (simp add: loop_ok_def)
qed

interpretation main_system: step_system started loop_pass looping_ok
proof
  show "looping_ok r" if "started r" for r :: "srv_fault + 'h http_server"
    using started_loop [OF that] by (auto simp: looping_ok_def)
  show "looping_ok r'" if "looping_ok r" "loop_pass r r'" for r r' :: "srv_fault + 'h http_server"
    using that(2,1) iteration_loop by cases (auto simp: looping_ok_def)
qed

lemma loop_reached: "started r \<Longrightarrow> loop_pass\<^sup>*\<^sup>* r (Inr s) \<Longrightarrow> loop_ok s"
  using main_system.inv_reached [of r "Inr s"] by (simp add: looping_ok_def)

section \<open>Properties\<close>

text \<open>A run of the demonstration server: the loop is woken through descriptor 3 and the server listens on descriptor 4.\<close>

definition demo_turn :: "select_call \<Rightarrow> int \<Rightarrow> string \<Rightarrow> string turn_env" where
  "demo_turn select f bytes =
     \<lparr>turn_select = select, turn_time = 0, turn_accept = (\<lambda>fds. if f \<in> fds then kInvalidFd else f), turn_junk = replicate kBlockSize NUL,
      turn_timer = (\<lambda>task w. w), turn_fuel = 0, turn_http = demo_env bytes\<rparr>"

lemma demo_turn_ok: "0 \<le> f \<Longrightarrow> f < FD_SETSIZE \<Longrightarrow> turn_ok (demo_turn select f bytes)"
  by (simp add: turn_ok_def demo_turn_def demo_recv_ok)

lemma demo_started: "\<exists>s :: string http_server. started (Inr s) \<and> srv_open s = {4, 3}"
proof -
  obtain l :: "http_task event_loop" where l: "EventLoop_new 1 Eventfd (Inr (3, 3)) 0 = Inr l"
    using EventLoop_new_works by blast
  let ?s = "(HttpServer_new l Address_new 1 {3})\<lparr>srv_router := add Router_new ''GET'' ''/'' ''hello'', static_dir := []\<rparr>"
  have "started (srv_start 4 True True ?s)"
    unfolding started_def by (rule exI [of _ 1], rule exI [of _ Eventfd], rule exI [of _ 3], rule exI [of _ 3], rule exI [of _ 0], rule exI [of _ l],
      rule exI [of _ Address_new], rule exI [of _ "{3}"], intro exI conjI, rule l) (simp_all add: FD_SETSIZE_def)
  moreover have "life_ok ?s" "4 \<notin> srv_open ?s" "\<not> running ?s" by (rule constructed_life [OF l], simp) (simp_all add: HttpServer_new_def)
  from start_life [OF this(1,2)] this(3) obtain s where "srv_start 4 True True ?s = Inr s" "srv_open s = insert 4 (srv_open ?s)"
    by (auto simp: kInvalidFd_def)
  ultimately show ?thesis by (intro exI [of _ s]) (simp add: HttpServer_new_def)
qed

text \<open>C4. The server is safe inside its loop. From a started server, through any number of passes of \<open>EventLoop::loop\<close>, whatever \<open>select\<close> answers, whichever free
  descriptors \<open>accept\<close> returns below \<open>FD_SETSIZE\<close> and whatever the clients send, no pass touches a channel that has been destroyed, leaves the descriptor sets, fails an assertion or follows a null pointer:
  the only failure is a fault of the chunk decoder. Between the passes the server runs, and every registered descriptor is open, is below \<open>FD_SETSIZE\<close> and belongs to a live
  channel created for it.\<close>

theorem loop_never_dangles:
  assumes "started r" and "loop_pass\<^sup>*\<^sup>* r r'"
  shows "(\<exists>e. r' = Inl (ParseFault e)) \<or>
    (\<exists>s. r' = Inr s \<and> running s \<and>
       (\<forall>f a. map_of (channels (loop_poller (srv_loop s))) f = Some a \<longrightarrow> f \<in> srv_open s \<and> 0 \<le> f \<and> f < FD_SETSIZE \<and>
          (\<exists>ch. heap (loop_poller (srv_loop s)) a = Some ch \<and> fd ch = f \<and> added_to_loop ch)))"
proof -
  have "looping_ok r'" by (rule main_system.inv_reached [OF assms])
  then consider e where "r' = Inl (ParseFault e)" | s where "r' = Inr s" "loop_ok s" unfolding looping_ok_def by blast
  then show ?thesis
  proof cases
    case (2 s)
    let ?p = "loop_poller (srv_loop s)"
    have "f \<in> srv_open s \<and> 0 \<le> f \<and> f < FD_SETSIZE \<and> (\<exists>ch. heap ?p a = Some ch \<and> fd ch = f \<and> added_to_loop ch)"
      if reg: "map_of (channels ?p) f = Some a" for f a
    proof -
      obtain ch where ch: "heap ?p a = Some ch" "fd ch = f" using registered_live [OF 2(2) reg] by blast
      moreover have "added ?p a" using loop_okD(3) [OF 2(2)] reg by (simp add: all_added_def)
      then have "added_to_loop ch" using ch(1) by (simp add: added_def)
      moreover have "0 \<le> f \<and> f < FD_SETSIZE" using loop_okD(4) [OF 2(2)] reg unfolding fds_in_range_def by blast
      ultimately show ?thesis using srv_okD(4) [OF life_okD [OF loop_okD(1) [OF 2(2)]] reg] by blast
    qed
    then show ?thesis using 2(1) loop_okD(2) [OF 2(2)] by blast
  qed simp
qed

theorem loop_never_dangles_witness:
  "\<exists>s. started (Inr s) \<and> (\<forall>select bytes.
     ((\<exists>e. srv_iteration (demo_turn select 7 bytes) s = Inl (ParseFault e)) \<or> (\<exists>s'. srv_iteration (demo_turn select 7 bytes) s = Inr s' \<and> running s')))"
proof -
  obtain s :: "string http_server" where s: "started (Inr s)" using demo_started by blast
  have "turn_ok (demo_turn select 7 bytes)" for select bytes by (rule demo_turn_ok) (simp_all add: FD_SETSIZE_def)
  then have "loop_pass\<^sup>*\<^sup>* (Inr s) (srv_iteration (demo_turn select 7 bytes) s)" for select bytes by (intro r_into_rtranclp loop_pass.intros)
  from loop_never_dangles [OF s this] s show ?thesis by blast
qed

end
