(* ===== verification/Server_Turns.thy ===== *)
theory Server_Turns
  imports Server_Loop
begin

text \<open>
  What a pass of the loop achieves for the HTTP server (\<open>src/hound/src/http/http_server.cpp\<close> inside \<open>src/hound/src/reactor/event_loop.cpp\<close>): a closed connection has exactly the deferred task that erases it, an open one is watched for
  reading, so every client that sends something is read in the pass that reports it, and every connection that is closed in a pass is gone when the pass ends.
\<close>

section \<open>Connections and their tasks\<close>

definition closed_fds :: "'h http_server \<Rightarrow> int set" where
  "closed_fds s = {f. \<exists>c. map_of (connections s) f = Some c \<and> closed c}"

definition reading :: "poller \<Rightarrow> addr \<Rightarrow> bool" where
  "reading p a \<longleftrightarrow> (\<exists>ch. heap p a = Some ch \<and> is_reading ch)"

text \<open>The listening channel has only a read callback.\<close>

definition listener :: "poller \<Rightarrow> addr \<Rightarrow> bool" where
  "listener p a \<longleftrightarrow> (\<exists>ch. heap p a = Some ch \<and> is_reading ch \<and> callbacks ch = (True, False, False, False, Untied))"

definition own_channels :: "'h http_server \<Rightarrow> bool" where
  "own_channels s \<longleftrightarrow>
     (\<forall>f g c d. map_of (connections s) f = Some c \<and> map_of (connections s) g = Some d \<and> conn_channel c = conn_channel d \<longrightarrow> f = g) \<and>
     (\<forall>f c. map_of (connections s) f = Some c \<longrightarrow> listen_channel s \<noteq> Some (conn_channel c))"

definition open_ok :: "'h http_server \<Rightarrow> bool" where
  "open_ok s \<longleftrightarrow> own_channels s \<and>
     (\<forall>f c. map_of (connections s) f = Some c \<and> \<not> closed c \<longrightarrow> reading (loop_poller (srv_loop s)) (conn_channel c)) \<and>
     (\<forall>a. listen_channel s = Some a \<longrightarrow> listener (loop_poller (srv_loop s)) a)"

definition conns_ok :: "'h http_server \<Rightarrow> bool" where
  "conns_ok s \<longleftrightarrow> set (pending_tasks (srv_loop s)) = EraseConnection ` closed_fds s \<and> open_ok s"

lemma conns_okD:
  "conns_ok s \<Longrightarrow> set (pending_tasks (srv_loop s)) = EraseConnection ` closed_fds s"
  "conns_ok s \<Longrightarrow> own_channels s"
  "conns_ok s \<Longrightarrow> map_of (connections s) f = Some c \<Longrightarrow> \<not> closed c \<Longrightarrow> reading (loop_poller (srv_loop s)) (conn_channel c)"
  "conns_ok s \<Longrightarrow> listen_channel s = Some a \<Longrightarrow> listener (loop_poller (srv_loop s)) a"
  by (auto simp: conns_ok_def open_ok_def)

lemma own_channelsD:
  "own_channels s \<Longrightarrow> map_of (connections s) f = Some c \<Longrightarrow> map_of (connections s) g = Some d \<Longrightarrow> f \<noteq> g \<Longrightarrow> conn_channel d \<noteq> conn_channel c"
  "own_channels s \<Longrightarrow> map_of (connections s) f = Some c \<Longrightarrow> listen_channel s = Some a \<Longrightarrow> a \<noteq> conn_channel c"
  unfolding own_channels_def by (metis, blast)

lemma own_channels_put:
  assumes "own_channels s" and "map_of (connections s) f = Some c" and "conn_channel d = conn_channel c"
    and "connections s' = connections (put_conn f d s)" and "listen_channel s' = listen_channel s"
  shows "own_channels s'"
  using assms(1-3) unfolding own_channels_def assms(4,5) map_of_put_conn by (metis option.inject)

lemma conns_okI:
  assumes "set (pending_tasks (srv_loop s)) = EraseConnection ` closed_fds s" and "own_channels s"
    and "\<And>f c. map_of (connections s) f = Some c \<Longrightarrow> \<not> closed c \<Longrightarrow> reading (loop_poller (srv_loop s)) (conn_channel c)"
    and "\<And>a. listen_channel s = Some a \<Longrightarrow> listener (loop_poller (srv_loop s)) a"
  shows "conns_ok s"
  using assms unfolding conns_ok_def open_ok_def by blast

text \<open>Changes that do not concern the invariant.\<close>

lemma put_conn_listen [simp]: "listen_channel (put_conn f c s) = listen_channel s"
  by (simp add: put_conn_def)

lemma conns_ok_cong:
  assumes "connections s' = connections s" and "pending_tasks (srv_loop s') = pending_tasks (srv_loop s)" and "loop_poller (srv_loop s') = loop_poller (srv_loop s)"
    and "listen_channel s' = listen_channel s"
  shows "conns_ok s' = conns_ok s"
  using assms by (simp add: conns_ok_def open_ok_def closed_fds_def own_channels_def)

lemma conns_put:
  assumes "conns_ok s" and "map_of (connections s) f = Some c" and "conn_channel d = conn_channel c" and "closed d = closed c"
  shows "conns_ok (put_conn f d s)"
proof -
  have "closed_fds (put_conn f d s) = closed_fds s" using assms(2,4) by (auto simp: closed_fds_def split: if_splits)
  moreover have "own_channels (put_conn f d s)"
    using conns_okD(2) [OF assms(1)] assms(2,3) by (rule own_channels_put) simp_all
  ultimately show ?thesis
    using assms conns_okD(1,3,4) [OF assms(1)] by (intro conns_okI) (auto split: if_splits)
qed

lemma with_events_other: "with_events g a p = Inr p' \<Longrightarrow> b \<noteq> a \<Longrightarrow> heap p' b = heap p b"
  by (auto simp: with_events_def channel_update_def update_channel_def upd_channel_def Let_def split: option.splits sum.splits if_splits)

lemma on_loop_poller:
  assumes "on_loop (with_poller self g) s = Inr s'"
  shows "\<exists>p. g (loop_poller (srv_loop s)) = Inr p \<and> s' = s\<lparr>srv_loop := (srv_loop s)\<lparr>loop_poller := p\<rparr>\<rparr>"
  using assms by (auto simp: on_loop_def with_poller_def map_sum_Inr_iff split: sum.splits)

lemma cancel_pending [simp]: "pending_tasks (cancel_timer i l) = pending_tasks l"
  by (simp add: cancel_timer_def)

lemma queue_pending [simp]: "pending_tasks (queue_in_loop self t l) = pending_tasks l @ [t]"
  by (simp add: queue_in_loop_def push_task_def wakeup_def Let_def)

lemma put_conn_loop [simp]: "put_conn f d s\<lparr>srv_loop := srv_loop s\<rparr> = put_conn f d s"
  by (cases s) (simp add: put_conn_def)

lemma conns_close:
  assumes "conns_ok s" and "on_close f s = Inr s'"
  shows "conns_ok s'"
proof (cases "\<exists>c. map_of (connections s) f = Some c \<and> \<not> closed c")
  case True
  then obtain c where c: "map_of (connections s) f = Some c" "\<not> closed c" by blast
  define l where "l = (if timeout_timer c \<noteq> 0 then cancel_timer (timeout_timer c) (srv_loop s) else srv_loop s)"
  let ?s = "put_conn f (c\<lparr>closed := True\<rparr>) s"
  have l: "loop_poller l = loop_poller (srv_loop s)" "pending_tasks l = pending_tasks (srv_loop s)" by (simp_all add: l_def)
  obtain s3 where s3: "on_loop (with_poller (thread_id l) (disable_all (conn_channel c))) (?s\<lparr>srv_loop := l\<rparr>) = Inr s3"
      "s' = s3\<lparr>srv_loop := queue_in_loop (self_of s3) (EraseConnection f) (srv_loop s3)\<rparr>"
    using assms(2) c by (auto simp: on_close_def Let_def l_def sum_bind_Inr_iff split: if_splits)
  obtain p where p: "disable_all (conn_channel c) (loop_poller (srv_loop s)) = Inr p" "s3 = ?s\<lparr>srv_loop := l\<lparr>loop_poller := p\<rparr>\<rparr>"
    using on_loop_poller [OF s3(1)] l(1) by auto
  have fields: "connections s' = connections ?s" "loop_poller (srv_loop s') = p" "pending_tasks (srv_loop s') = pending_tasks (srv_loop s) @ [EraseConnection f]"
    using s3(2) p(2) l(2) by simp_all
  have listen: "listen_channel s' = listen_channel s" using s3(2) p(2) by simp
  note own = conns_okD(2) [OF assms(1)] and other = with_events_other [OF p(1) [unfolded disable_all_def]]
  have closed: "closed_fds s' = insert f (closed_fds s)" unfolding closed_fds_def fields(1) by auto
  show ?thesis
  proof (rule conns_okI)
    show "set (pending_tasks (srv_loop s')) = EraseConnection ` closed_fds s'" using fields(3) closed conns_okD(1) [OF assms(1)] by simp
    show "own_channels s'" by (rule own_channels_put [OF own c(1) _ fields(1) listen]) simp
    show "reading (loop_poller (srv_loop s')) (conn_channel d)" if d: "map_of (connections s') g = Some d" "\<not> closed d" for g d
    proof -
      have g: "g \<noteq> f" "map_of (connections s) g = Some d" using d unfolding fields(1) by (auto split: if_splits)
      show ?thesis
        using conns_okD(3) [OF assms(1) g(2) d(2)] other [OF own_channelsD(1) [OF own c(1) g(2) g(1) [symmetric]]] fields(2) by (simp add: reading_def)
    qed
    show "listener (loop_poller (srv_loop s')) a" if "listen_channel s' = Some a" for a
      using that listen conns_okD(4) [OF assms(1)] other [OF own_channelsD(2) [OF own c(1)]] fields(2) by (simp add: listener_def)
  qed
next
  case False
  then show ?thesis using assms by (auto simp: on_close_def split: option.splits)
qed

text \<open>The handlers of a connection keep it.\<close>

lemma conns_send:
  assumes "conns_ok s" and "send_response env f resp s = Inr s'"
  shows "conns_ok s'"
proof -
  let ?raw = "serialize (http_iter env) resp"
  consider (err) "send_response env f resp s = on_close f s"
    | (sent) n where "send_response env f resp s = Inr (s\<lparr>wire := (wire s)(f := wire s f @ take (nat n) ?raw)\<rparr>)"
    by (cases "socket_write (\<lambda>f. http_send env f ?raw) f (of_nat (length ?raw))") (simp_all add: send_response_def Let_def)
  then show ?thesis
  proof cases
    case err
    then show ?thesis using assms conns_close [OF assms(1)] by simp
  next
    case (sent n)
    then have "connections s' = connections s" "srv_loop s' = srv_loop s" "listen_channel s' = listen_channel s" using assms(2) by auto
    then show ?thesis using assms(1) by (simp add: conns_ok_cong [of s' s])
  qed
qed

lemma conns_handle:
  assumes "conns_ok s" and "handle_request env f s = Inr s'"
  shows "conns_ok s'"
proof -
  obtain c where c: "map_of (connections s) f = Some c" using assms(2) by (auto simp: handle_request_def split: option.splits)
  obtain s1 where s1: "send_response env f (answer env s (request (conn_parser c))) s = Inr s1"
      "(if \<not> keep_alive (request (conn_parser c)) then on_close f s1 else Inr s1) = Inr s'"
    using assms(2) c by (auto simp: handle_request_def Let_def sum_bind_Inr_iff)
  note ok = conns_send [OF assms(1) s1(1)]
  show ?thesis using s1(2) ok conns_close [OF ok] by (cases "keep_alive (request (conn_parser c))") simp_all
qed

lemma conns_message_loop:
  "conns_ok s \<Longrightarrow> message_loop n env f s = Inr s' \<Longrightarrow> conns_ok s'"
proof (induction n arbitrary: s)
  case (Suc n)
  obtain c where c: "map_of (connections s) f = Some c" using Suc.prems(2) by (auto split: option.splits)
  show ?case
  proof (cases "buf_size (read_buf c) > 0")
    case True
    then obtain k p b where parsed: "parse (conn_parser c) (read_buf c) = Some (Inr (k, p, b))"
      using Suc.prems(2) c by (auto split: option.splits sum.splits)
    let ?s = "put_conn f (c\<lparr>conn_parser := p, read_buf := b\<rparr>) s"
    have ok: "conns_ok ?s" using Suc.prems(1) c by (rule conns_put) simp_all
    consider (err) "has_error p" | (whole) "\<not> has_error p" "is_done p" | (more) "\<not> has_error p" "\<not> is_done p" by blast
    then show ?thesis
    proof cases
      case err
      then show ?thesis using Suc.prems(2) c True parsed by (auto simp: sum_bind_Inr_iff intro: conns_close [OF conns_send [OF ok]])
    next
      case whole
      then obtain s2 c2 where s2: "handle_request env f ?s = Inr s2" "map_of (connections s2) f = Some c2"
          "message_loop n env f (put_conn f (c2\<lparr>conn_parser := HttpParser_reset\<rparr>) s2) = Inr s'"
        using Suc.prems(2) c True parsed by (auto simp: sum_bind_Inr_iff split: option.splits)
      show ?thesis using conns_put [OF conns_handle [OF ok s2(1)] s2(2)] by (rule Suc.IH [OF _ s2(3)]) simp_all
    next
      case more
      then show ?thesis using Suc.prems(2) c True parsed ok Suc.IH [OF ok] by (auto simp: Let_def split: if_splits)
    qed
  qed (use Suc.prems c in simp)
qed simp

lemma conns_message:
  assumes "conns_ok s" and "on_message env f s = Inr s'"
  shows "conns_ok s'"
proof (cases "\<exists>c. map_of (connections s) f = Some c \<and> \<not> closed c")
  case True
  then obtain c where c: "map_of (connections s) f = Some c" "\<not> closed c" by blast
  obtain w b where b: "begin_write (read_buf c) = (w, b)" by fastforce
  let ?s = "put_conn f (c\<lparr>read_buf := b\<rparr>) s"
  have ok: "conns_ok ?s" using assms(1) c(1) by (rule conns_put) simp_all
  show ?thesis
  proof (cases "on_message env f s = on_close f ?s")
    case False
    obtain n e bytes where r: "http_recv env f (int w) = ((n, e), bytes)" by (metis prod.collapse)
    have w: "0 < w" using False c b by (cases "w = 0") (simp_all add: on_message_def Let_def)
    let ?b = "has_written (poke b (take (nat n) bytes)) (nat n)"
    obtain c2 s2 where t: "refresh_timeout env (c\<lparr>read_buf := ?b\<rparr>) ?s = (c2, s2)" by fastforce
    have "conns_ok s2" using ok refresh_timeout_fields(6,7) [OF t] refresh_timeout_pending [OF t] refresh_timeout_frame [OF t]
      by (simp add: conns_ok_cong [of s2 ?s] srv_frame_def)
    moreover have "map_of (connections s2) f = Some (c\<lparr>read_buf := b\<rparr>)" using refresh_timeout_fields(7) [OF t] by simp
    ultimately have "conns_ok (put_conn f c2 s2)" using refresh_timeout_fields(4,5) [OF t] by (auto intro: conns_put)
    moreover have "message_loop (2 * buf_size ?b + 2) env f (put_conn f c2 s2) = Inr s'"
      using on_message_open [OF c b w r] False assms(2) t by (auto simp: Let_def split: if_splits)
    ultimately show ?thesis by (rule conns_message_loop)
  qed (use assms conns_close [OF ok] in simp)
next
  case False
  then show ?thesis using assms by (auto simp: on_message_def split: option.splits)
qed

text \<open>A new client gets its own channel, which is watched for reading.\<close>

lemma new_channel_reading:
  assumes "new_channel f w s = Inr (a, s')"
  shows "a = next_addr s" "reading (loop_poller (srv_loop s')) a" "b \<noteq> a \<Longrightarrow> heap (loop_poller (srv_loop s')) b = heap (loop_poller (srv_loop s)) b"
    "connections s' = connections s" "pending_tasks (srv_loop s') = pending_tasks (srv_loop s)"
    "listen_channel s' = listen_channel s" "w = False \<Longrightarrow> listener (loop_poller (srv_loop s')) a"
  using assms
  by (auto simp: listener_def callbacks_def new_channel_def on_loop_def with_poller_def Let_def map_sum_Inr_iff enable_reading_def with_events_def channel_update_def update_channel_def upd_channel_def
      reading_def is_reading_def Channel_new_def kReadEvent_def kNoneEvent_def split: sum.splits option.splits if_splits)

lemma conns_accept:
  assumes "loop_ok s" and "conns_ok s" and "f \<notin> srv_open s" and "on_accept env junk f s = Inr s'"
  shows "conns_ok s'"
proof (cases "f = kInvalidFd")
  case False
  let ?s0 = "s\<lparr>srv_open := insert f (srv_open s)\<rparr>"
  note ok = life_okD [OF loop_okD(1) [OF assms(1)]]
  obtain a s1 where new: "new_channel f True ?s0 = Inr (a, s1)"
    using assms(4) False by (auto simp: on_accept_def sum_bind_Inr_iff)
  note n = new_channel_reading [OF new]
  let ?c = "\<lparr>conn_fd = f, conn_channel = a, read_buf = Buffer_new junk, conn_parser = HttpParser_reset, timeout_timer = 0, closed = False\<rparr>"
  obtain c2 s2 where r: "refresh_timeout env ?c s1 = (c2, s2)" by fastforce
  have s': "s' = put_conn f c2 s2" using assms(4) False new r by (simp add: on_accept_def)
  note rf = refresh_timeout_fields [OF r] and rp = refresh_timeout_pending [OF r]
  have old: "g \<noteq> f \<and> conn_channel d \<noteq> a" if "map_of (connections s) g = Some d" for g d
    using srv_okD(2) [OF ok that] srv_okD(3) [OF ok, of a] srv_okD(4) [OF ok, of g] n(1) assms(3) by (auto simp: conn_ok_def)
  have look: "map_of (connections s') g = (if g = f then Some c2 else map_of (connections s) g)" for g using s' rf(7) n(4) by simp
  have c2: "conn_channel c2 = a" "\<not> closed c2" using rf(4,5) by simp_all
  have listen: "listen_channel s' = listen_channel s" using s' n(6) refresh_timeout_frame [OF r] by (simp add: srv_frame_def)
  have oldl: "b \<noteq> a" if "listen_channel s = Some b" for b
    using that loop_okD(1,2) [OF assms(1)] srv_okD(3) [OF ok, of a] n(1) by (auto simp: life_ok_def listening_def added_def)
  note own = conns_okD(2) [OF assms(2)]
  have p: "loop_poller (srv_loop s') = loop_poller (srv_loop s1)" using s' rf(6) by simp
  have closed: "closed_fds s' = closed_fds s" using look old c2(2) by (auto simp: closed_fds_def split: if_splits)
  show ?thesis
  proof (rule conns_okI)
    show "set (pending_tasks (srv_loop s')) = EraseConnection ` closed_fds s'" using s' rp n(5) closed conns_okD(1) [OF assms(2)] by simp
    show "own_channels s'"
      using own look old oldl c2(1) unfolding own_channels_def listen by (metis option.inject)
    show "reading (loop_poller (srv_loop s')) (conn_channel d)" if d: "map_of (connections s') g = Some d" "\<not> closed d" for g d
    proof (cases "g = f")
      case True
      then show ?thesis using d look c2(1) n(2) p by simp
    next
      case False
      then have g: "map_of (connections s) g = Some d" using d(1) look by simp
      then show ?thesis using conns_okD(3) [OF assms(2) g d(2)] old [OF g] n(3) [of "conn_channel d"] p by (simp add: reading_def)
    qed
    show "listener (loop_poller (srv_loop s')) b" if "listen_channel s' = Some b" for b
      using that listen conns_okD(4) [OF assms(2)] n(3) [OF oldl] p by (simp add: listener_def)
  qed
qed (use assms in \<open>simp add: on_accept_def\<close>)

text \<open>So does everything that runs while a pass dispatches.\<close>

lemma conns_callback:
  assumes "loop_ok s" and "turn_ok t" and "conns_ok s" and "srv_callback t a f c s = Inr s'"
  shows "conns_ok s'"
proof -
  have "conns_ok s'" if "on_accept (turn_http t) (turn_junk t) (turn_accept t (srv_open s)) s = Inr s'"
  proof (cases "turn_accept t (srv_open s) = kInvalidFd")
    case False
    then show ?thesis using assms(2) by (intro conns_accept [OF assms(1,3) _ that]) (auto simp: turn_ok_def)
  qed (use that assms(3) in \<open>simp add: on_accept_def\<close>)
  moreover have "conns_ok (s\<lparr>srv_loop := handle_wakeup_read (srv_loop s)\<rparr>)"
    using assms(3) by (subst conns_ok_cong) (simp_all add: handle_wakeup_read_def)
  ultimately show ?thesis
    using assms(3,4) conns_message [OF assms(3)] conns_close [OF assms(3)] by (auto simp: srv_callback_def split: if_splits channel_call.splits)
qed

lemma conns_calls:
  assumes "turn_ok t"
  shows "loop_ok s \<Longrightarrow> conns_ok s \<Longrightarrow> srv_calls t a f cs s = Inr s' \<Longrightarrow> conns_ok s' \<and> loop_ok s'"
proof (induction cs arbitrary: s)
  case (Cons c cs)
  obtain s1 where s1: "srv_callback t a f c s = Inr s1" "srv_calls t a f cs s1 = Inr s'"
    using Cons.prems(3) by (auto simp: sum_bind_Inr_iff channel_live_def split: option.splits)
  have "loop_ok s1" using callback_turned [OF Cons.prems(1) assms, of a f c] s1(1) by (simp add: turned_def)
  with conns_callback [OF Cons.prems(1) assms Cons.prems(2) s1(1)] show ?case using Cons.IH s1(2) by blast
qed simp

lemma conns_dispatch:
  assumes "turn_ok t"
  shows "loop_ok s \<Longrightarrow> conns_ok s \<Longrightarrow> srv_dispatch t as s = Inr s' \<Longrightarrow> conns_ok s' \<and> loop_ok s'"
proof (induction as arbitrary: s)
  case (Cons a as)
  obtain ch s1 where s1: "srv_calls t a (fd ch) (handle_event (turn_time t) ch) s = Inr s1" "srv_dispatch t as s1 = Inr s'"
    using Cons.prems(3) by (auto simp: sum_bind_Inr_iff split: option.splits)
  then show ?case using conns_calls [OF assms Cons.prems(1,2) s1(1)] Cons.IH by blast
qed simp

section \<open>Deferred erasures\<close>

text \<open>Running the erasures removes exactly their connections and closes their descriptors.\<close>

lemma open_ok_loop:
  "loop_poller l = loop_poller (srv_loop s) \<Longrightarrow> open_ok (s\<lparr>srv_loop := l\<rparr>) = open_ok s"
  by (simp add: open_ok_def own_channels_def)

definition erased :: "int set \<Rightarrow> 'h http_server \<Rightarrow> 'h http_server \<Rightarrow> bool" where
  "erased C s s' \<longleftrightarrow> map_of (connections s') = map_of (connections s) |` (- C) \<and> srv_open s' = srv_open s - (C \<inter> conn_fds s) \<and>
     wire s' = wire s \<and> pending_tasks (srv_loop s') = pending_tasks (srv_loop s)"

lemma conn_fds_dom: "conn_fds s = dom (map_of (connections s))"
  by (simp add: conn_fds_def dom_map_of_conv_image_fst)

lemma erased_empty [simp]: "erased {} s s"
  by (simp add: erased_def restrict_map_def)

lemma erased_trans:
  assumes "erased C s t" and "erased D t u"
  shows "erased (C \<union> D) s u"
proof -
  have t: "map_of (connections t) = map_of (connections s) |` (- C)" using assms(1) by (simp add: erased_def)
  then have "conn_fds t = conn_fds s - C" by (auto simp: conn_fds_dom)
  moreover have "- (C \<union> D) = - C \<inter> - D" by blast
  ultimately show ?thesis using assms t by (auto simp: erased_def restrict_restrict)
qed

lemma erase_erased:
  assumes "loop_ok s" and "open_ok s"
  shows "\<exists>s'. erase_connection f s = Inr s' \<and> loop_ok s' \<and> open_ok s' \<and> erased {f} s s'"
proof -
  obtain s' where s': "erase_connection f s = Inr s'" "loop_ok s'" using erase_loop [OF assms(1)] by blast
  show ?thesis
  proof (cases "map_of (connections s) f")
    case None
    then have "s' = s" "map_of (connections s) |` (- {f}) = map_of (connections s)" "f \<notin> conn_fds s"
      using s'(1) by (auto simp: erase_connection_def restrict_map_def conn_fds_dom)
    then show ?thesis using s' assms(2) by (simp add: erased_def)
  next
    case (Some c)
    let ?p = "loop_poller (srv_loop s)"
    obtain p' where p': "s' = s\<lparr>connections := AList.delete f (connections s), srv_loop := (srv_loop s)\<lparr>loop_poller := p'\<rparr>, srv_open := srv_open s - {f}\<rparr>"
        "heap p' = (heap ?p)(conn_channel c := None)"
      using erase_connection_ok [OF life_okD [OF loop_okD(1) [OF assms(1)]] Some] s'(1) by auto
    have look: "map_of (connections s') g = (if g = f then None else map_of (connections s) g)" for g using p'(1) by (simp add: delete_conv')
    have "f \<in> conn_fds s" using Some by (auto simp: conn_fds_dom)
    then have "erased {f} s s'" using p'(1) look by (auto simp: erased_def restrict_map_def)
    moreover have own: "own_channels s" and listen: "listen_channel s' = listen_channel s" using assms(2) p'(1) by (simp_all add: open_ok_def)
    moreover have "own_channels s'" using own unfolding own_channels_def look listen by (metis option.distinct(1))
    moreover have "reading p' (conn_channel d)" if d: "map_of (connections s') g = Some d" "\<not> closed d" for g d
    proof -
      have g: "g \<noteq> f" "map_of (connections s) g = Some d" using d(1) look by (auto split: if_splits)
      then have "conn_channel d \<noteq> conn_channel c" using own_channelsD(1) [OF own Some] by metis
      then show ?thesis using assms(2) g(2) d(2) p'(2) by (auto simp: open_ok_def reading_def)
    qed
    moreover have "listener p' a" if "listen_channel s = Some a" for a
      using that assms(2) p'(2) own_channelsD(2) [OF own Some that] by (simp add: open_ok_def listener_def)
    moreover have "loop_poller (srv_loop s') = p'" using p'(1) by simp
    ultimately show ?thesis using s' listen unfolding open_ok_def by metis
  qed
qed

lemma erase_all:
  assumes "loop_ok s" and "open_ok s"
  shows "\<exists>s'. for_each run_http_task (map EraseConnection fs) s = Inr s' \<and> loop_ok s' \<and> open_ok s' \<and> erased (set fs) s s'"
  using assms
proof (induction fs arbitrary: s)
  case (Cons f fs)
  obtain s1 where s1: "erase_connection f s = Inr s1" "loop_ok s1" "open_ok s1" "erased {f} s s1" using erase_erased [OF Cons.prems] by blast
  obtain s2 where s2: "for_each run_http_task (map EraseConnection fs) s1 = Inr s2" "loop_ok s2" "open_ok s2" "erased (set fs) s1 s2"
    using Cons.IH [OF s1(2,3)] by blast
  have "run_http_task (EraseConnection f) s = Inr s1" using s1(1) by (simp add: run_http_task_def)
  then show ?case using s2 erased_trans [OF s1(4) s2(4)] by simp
qed simp

section \<open>Between passes\<close>

definition settled :: "'h http_server \<Rightarrow> bool" where
  "settled s \<longleftrightarrow> loop_ok s \<and> conns_ok s \<and> pending_tasks (srv_loop s) = []"

lemma settledD: "settled s \<Longrightarrow> loop_ok s" "settled s \<Longrightarrow> conns_ok s" "settled s \<Longrightarrow> map_of (connections s) f = Some c \<Longrightarrow> \<not> closed c"
  by (auto simp: settled_def conns_ok_def closed_fds_def)

lemma pending_settles:
  assumes "loop_ok s" and "conns_ok s"
  shows "\<exists>s'. srv_pending s = Inr s' \<and> settled s' \<and> map_of (connections s') = map_of (connections s) |` (- closed_fds s) \<and>
    srv_open s' = srv_open s - closed_fds s \<and> wire s' = wire s"
proof -
  let ?s = "s\<lparr>srv_loop := (srv_loop s)\<lparr>calling_pending_tasks := True, pending_tasks := []\<rparr>\<rparr>"
  have "\<forall>t \<in> set (pending_tasks (srv_loop s)). \<exists>f. t = EraseConnection f" using conns_okD(1) [OF assms(2)] by blast
  then obtain fs where fs: "pending_tasks (srv_loop s) = map EraseConnection fs"
    using ex_map_conv [of "pending_tasks (srv_loop s)" EraseConnection] by blast
  then have C: "set fs = closed_fds s" using conns_okD(1) [OF assms(2)] by (auto simp: image_iff)
  have "loop_ok ?s" by (rule loop_ok_loop [OF assms(1)]) simp_all
  moreover have "open_ok ?s" using assms(2) by (subst open_ok_loop) (simp_all add: conns_ok_def)
  ultimately obtain s1 where s1: "for_each run_http_task (map EraseConnection fs) ?s = Inr s1" "loop_ok s1" "open_ok s1" "erased (set fs) ?s s1"
    using erase_all by blast
  let ?t = "s1\<lparr>srv_loop := (srv_loop s1)\<lparr>calling_pending_tasks := False\<rparr>\<rparr>"
  have e: "map_of (connections s1) = map_of (connections s) |` (- closed_fds s)" "wire s1 = wire s" "pending_tasks (srv_loop s1) = []"
    "srv_open s1 = srv_open s - closed_fds s"
    using s1(4) C by (auto simp: erased_def conn_fds_dom closed_fds_def)
  have "closed_fds ?t = {}" using e(1) by (auto simp: closed_fds_def restrict_map_def split: if_splits)
  moreover have "loop_ok ?t" by (rule loop_ok_loop [OF s1(2)]) simp_all
  moreover have "open_ok ?t" using s1(3) by (subst open_ok_loop) simp_all
  ultimately have "settled ?t" using e(3) by (simp add: settled_def conns_ok_def)
  then show ?thesis using s1(1) fs e by (auto simp: srv_pending_def swap_tasks_def)
qed

text \<open>The end of a pass, after the dispatch: the wheel only notes the time.\<close>

definition finish_pass :: "'h turn_env \<Rightarrow> 'h http_server \<Rightarrow> srv_fault + 'h http_server" where
  "finish_pass t s = sum_bind (srv_tick t (s\<lparr>srv_loop := (srv_loop s)\<lparr>event_handling := False\<rparr>\<rparr>)) srv_pending"

lemma finish_settles:
  assumes "loop_ok s" and "conns_ok s"
  shows "\<exists>s'. finish_pass t s = Inr s' \<and> settled s' \<and> map_of (connections s') = map_of (connections s) |` (- closed_fds s) \<and>
    srv_open s' = srv_open s - closed_fds s \<and> wire s' = wire s"
proof -
  let ?s = "s\<lparr>srv_loop := (srv_loop s)\<lparr>event_handling := False, loop_wheel := (loop_wheel (srv_loop s))\<lparr>last_tick := turn_time t\<rparr>\<rparr>\<rparr>"
  have "loop_ok ?s" by (rule loop_ok_loop [OF assms(1)]) simp_all
  moreover have "conns_ok ?s" using assms(2) by (subst conns_ok_cong [of _ s]) simp_all
  moreover have "closed_fds ?s = closed_fds s" by (simp add: closed_fds_def)
  ultimately show ?thesis using pending_settles [of ?s] by (simp add: finish_pass_def tick_loop_ok)
qed

text \<open>A pass polls, dispatches and finishes.\<close>

abbreviation polled :: "(addr \<rightharpoonup> channel) \<Rightarrow> 'h http_server \<Rightarrow> 'h http_server" where
  "polled h s \<equiv> s\<lparr>srv_loop := (srv_loop s)\<lparr>loop_poller := (loop_poller (srv_loop s))\<lparr>heap := h\<rparr>, event_handling := True\<rparr>\<rparr>"

lemma iteration_polled:
  "poll (turn_select t) (to_int32 (next_timeout_ms (loop_wheel (srv_loop s)))) (loop_poller (srv_loop s)) [] = Inr ((loop_poller (srv_loop s))\<lparr>heap := h\<rparr>, active) \<Longrightarrow>
   srv_iteration t s = sum_bind (srv_dispatch t active (polled h s)) (finish_pass t)"
  by (simp add: srv_iteration_def finish_pass_def [abs_def])

lemma conns_polled:
  assumes "conns_ok s" and "remasked (heap (loop_poller (srv_loop s))) h"
  shows "conns_ok (polled h s)"
proof -
  have "reading ((loop_poller (srv_loop s))\<lparr>heap := h\<rparr>) a" if "reading (loop_poller (srv_loop s)) a" for a
    using that assms(2) by (fastforce simp: reading_def remasked_def is_reading_def)
  moreover have "listener ((loop_poller (srv_loop s))\<lparr>heap := h\<rparr>) a" if "listener (loop_poller (srv_loop s)) a" for a
    using that assms(2) by (fastforce simp: listener_def remasked_def is_reading_def callbacks_def)
  ultimately show ?thesis using assms(1) by (auto simp: conns_ok_def open_ok_def closed_fds_def own_channels_def)
qed

definition settled_or_fault :: "srv_fault + 'h http_server \<Rightarrow> bool" where
  "settled_or_fault r \<longleftrightarrow> (\<exists>s. r = Inr s \<and> settled s) \<or> (\<exists>e. r = Inl (ParseFault e))"

lemma iteration_settles:
  assumes "settled s" and "turn_ok t"
  shows "settled_or_fault (srv_iteration t s)"
proof -
  let ?p = "loop_poller (srv_loop s)"
  note ok = settledD [OF assms(1)]
  obtain h active where poll: "poll (turn_select t) (to_int32 (next_timeout_ms (loop_wheel (srv_loop s)))) ?p [] = Inr (?p\<lparr>heap := h\<rparr>, active)" "remasked (heap ?p) h"
    using poll_safe [OF srv_okD(1) [OF life_okD [OF loop_okD(1) [OF ok(1)]]] loop_okD(4) [OF ok(1)]] by blast
  show ?thesis
  proof (cases "srv_dispatch t active (polled h s)")
    case (Inl e)
    then show ?thesis using iteration_loop [OF ok(1) assms(2)] iteration_polled [OF poll(1)] by (auto simp: looping_ok_def settled_or_fault_def)
  next
    case (Inr s1)
    then show ?thesis
      using conns_dispatch [OF assms(2) polled_loop [OF ok(1) poll(2)] conns_polled [OF ok(2) poll(2)] Inr] finish_settles [of s1 t] iteration_polled [OF poll(1)]
      by (auto simp: settled_or_fault_def)
  qed
qed

lemma started_settled:
  assumes "started (Inr s)"
  shows "settled s"
proof -
  have loop: "loop_ok s" using started_loop [OF assms] by auto
  obtain self kind rd wr now l a fds table dir f where l: "EventLoop_new self kind (Inr (rd, wr)) now = Inr l"
      and s: "srv_start f True True ((HttpServer_new l a 1 fds)\<lparr>srv_router := table, static_dir := dir\<rparr>) = Inr s"
    using assms unfolding started_def by metis
  let ?s = "(HttpServer_new l a 1 fds)\<lparr>srv_router := table, static_dir := dir, listen_fd := f, srv_open := insert f fds\<rparr>"
  obtain b s1 where s1: "new_channel f False ?s = Inr (b, s1)" "s = s1\<lparr>listen_channel := Some b, running := True\<rparr>"
    using s by (auto simp: srv_start_def HttpServer_new_def sum_bind_Inr_iff split: if_splits)
  have "pending_tasks l = []" using l by (auto simp: EventLoop_new_def split: sum.splits)
  then have "connections s = []" "pending_tasks (srv_loop s) = []"
    using new_channel_reading(4,5) [OF s1(1)] s1(2) by (simp_all add: HttpServer_new_def)
  moreover have "listen_channel s = Some b" "listener (loop_poller (srv_loop s)) b"
    using new_channel_reading(7) [OF s1(1) refl] s1(2) by simp_all
  ultimately show ?thesis using loop by (simp add: settled_def conns_ok_def open_ok_def closed_fds_def own_channels_def)
qed

interpretation settled_system: step_system started loop_pass settled_or_fault
proof
  show "settled_or_fault r" if "started r" for r :: "srv_fault + 'h http_server"
    using started_loop [OF that] started_settled that by (auto simp: settled_or_fault_def)
  show "settled_or_fault r'" if "settled_or_fault r" "loop_pass r r'" for r r' :: "srv_fault + 'h http_server"
    using that(2,1) iteration_settles by cases (auto simp: settled_or_fault_def)
qed

lemma reached_settled: "started r \<Longrightarrow> loop_pass\<^sup>*\<^sup>* r (Inr s) \<Longrightarrow> settled s"
  using settled_system.inv_reached [of r "Inr s"] by (simp add: settled_or_fault_def)

section \<open>Passes with one ready descriptor\<close>

text \<open>What \<open>poll\<close> reports when \<open>select\<close> finds only the descriptor \<open>f\<close> ready.\<close>

lemma filter_eq_single: "distinct xs \<Longrightarrow> a \<in> set xs \<Longrightarrow> filter (\<lambda>b. b = a) xs = [a]"
  by (induction xs) (auto simp: filter_empty_conv)

lemma ready_mask_other: "read_fds s \<union> write_fds s \<union> except_fds s \<subseteq> {f} \<Longrightarrow> g \<noteq> f \<Longrightarrow> ready_mask s g = kNoneEvent"
  by (auto simp: ready_mask_def Let_def)

lemma heap_upd_inj [simp]: "p\<lparr>heap := h\<rparr> = p\<lparr>heap := h'\<rparr> \<longleftrightarrow> h = h'"
  by (metis poller.select_convs(1) poller.surjective poller.update_convs(1))

lemma poll_one:
  assumes "poller_ok p" and "fds_in_range p" and "map_of (channels p) f = Some a" and "heap p a = Some ch"
    and "\<And>m q tv. rebuild_fds p = Inr (q, m) \<Longrightarrow> select m q tv = (n, rs)" and "0 < n" and "read_fds rs \<union> write_fds rs \<union> except_fds rs \<subseteq> {f}" and "ready_mask rs f \<noteq> kNoneEvent"
  shows "\<exists>h. poll select ms p [] = Inr (p\<lparr>heap := h\<rparr>, [a]) \<and> remasked (heap p) h \<and> h a = Some (ch\<lparr>revents := ready_mask rs f\<rparr>)"
proof -
  have a: "a \<in> set (channel_list p)" "fd ch = f" using poller_okD(2) [OF assms(1,3)] assms(4) by auto
  have live: "\<forall>b \<in> set (channel_list p). heap p b \<noteq> None" and dist: "distinct (channel_list p)"
    using poller_okD(1) [OF assms(1)] assms(1) by (fastforce, simp add: poller_ok_def)
  have "active_in rs (heap p) b \<longleftrightarrow> b = a" if b: "b \<in> set (channel_list p)" for b
  proof -
    obtain c where c: "heap p b = Some c" "map_of (channels p) (fd c) = Some b" using poller_okD(1) [OF assms(1) b] by blast
    then have "b = a \<longleftrightarrow> fd c = f" using assms(3,4) a(2) by auto
    then show ?thesis using c(1) ready_mask_other [OF assms(7)] assms(8) by (auto simp: active_in_def kNoneEvent_def)
  qed
  then have "filter (active_in rs (heap p)) (channel_list p) = filter (\<lambda>b. b = a) (channel_list p)" by (rule filter_cong [OF refl])
  also have "\<dots> = [a]" by (rule filter_eq_single [OF dist a(1)])
  finally have act: "filter (active_in rs (heap p)) (channel_list p) = [a]" .
  note loop = active_loop_all [OF dist live, of rs n "[]", unfolded act, simplified]
  obtain h act' where safe: "poll select ms p [] = Inr (p\<lparr>heap := h\<rparr>, act')" "remasked (heap p) h"
    using poll_safe [OF assms(1,2)] by blast
  have "active_loop (channel_list p) rs n (heap p) [] = Inr (h, act')"
    using safe(1) assms(5,6) by (auto simp: poll_def Let_def split: sum.splits prod.splits)
  then have "act' = [a]" "h = (\<lambda>b. if b \<in> set (channel_list p) \<and> active_in rs (heap p) b then map_option (mark rs) (heap p b) else heap p b)"
    using loop assms(6) by auto
  moreover have "active_in rs (heap p) a" using arg_cong [OF act, of set] by auto
  ultimately show ?thesis using safe a assms(4) by (simp add: mark_def)
qed

text \<open>A registered channel is watched for exceptions, and a reading one for input.\<close>

lemma rebuilt_sets:
  assumes "poller_ok p" and "map_of (channels p) f = Some a" and "rebuild_fds p = Inr (q, m)"
  shows "f \<in> except_fds q" "reading p a \<Longrightarrow> f \<in> read_fds q"
proof -
  obtain m' where r: "rebuild_loop (heap p) (channels p) \<lparr>read_fds = {}, write_fds = {}, except_fds = {}\<rparr> 0 = Inr (q, m')"
    using assms(3) by (auto simp: rebuild_fds_def split: sum.splits prod.splits)
  obtain ch where ch: "heap p a = Some ch" "fd ch = f" using poller_okD(2) [OF assms(1,2)] by blast
  have mem: "(f, a) \<in> set (channels p)" by (rule map_of_SomeD [OF assms(2)])
  show "f \<in> except_fds q" using rebuild_loop_spec [OF r] ch mem by force
  show "f \<in> read_fds q" if "reading p a" using rebuild_loop_spec [OF r] ch mem that by (force simp: reading_def)
qed

section \<open>A client in one pass\<close>

text \<open>\<open>select\<close>, asked about the connection \<open>f\<close>, reports that it has the events \<open>rs\<close>, and that nothing else is ready.\<close>

definition reports :: "'h turn_env \<Rightarrow> int \<Rightarrow> fd_sets \<Rightarrow> bool" where
  "reports t f rs \<longleftrightarrow> read_fds rs \<union> write_fds rs \<union> except_fds rs = {f} \<and>
     (\<forall>m q tv. f \<in> read_fds q \<and> f \<in> except_fds q \<longrightarrow> turn_select t m q tv = (1, rs))"

lemma client_channel:
  assumes "loop_ok s" and "map_of (connections s) f = Some c"
  shows "map_of (channels (loop_poller (srv_loop s))) f = Some (conn_channel c)" "listen_channel s \<noteq> Some (conn_channel c)" "f \<noteq> wakeup_fd (srv_loop s)"
    "channel_live (conn_channel c) s = Inr s"
proof -
  note ok = life_okD [OF loop_okD(1) [OF assms(1)]]
  show reg: "map_of (channels (loop_poller (srv_loop s))) f = Some (conn_channel c)" using srv_okD(2) [OF ok assms(2)] by (simp add: conn_ok_def)
  have f: "f \<in> conn_fds s" using assms(2) by (auto simp: conn_fds_dom)
  have l: "listening s" "wakeup_fd (srv_loop s) \<notin> conn_fds s" using loop_okD(1,2) [OF assms(1)] by (simp_all add: life_ok_def)
  show "f \<noteq> wakeup_fd (srv_loop s)" using f l(2) by auto
  show "listen_channel s \<noteq> Some (conn_channel c)"
    using l(1) f channel_inj [OF srv_okD(1) [OF ok] reg] by (auto simp: listening_def)
  obtain ch where "heap (loop_poller (srv_loop s)) (conn_channel c) = Some ch" using registered_live [OF assms(1) reg] by blast
  then show "channel_live (conn_channel c) s = Inr s" by (simp add: channel_live_def)
qed

text \<open>A pass in which one watched channel is ready runs that channel's callbacks and finishes.\<close>

lemma pass_one:
  assumes "settled s" and "map_of (channels (loop_poller (srv_loop s))) f = Some a" and "heap (loop_poller (srv_loop s)) a = Some ch" and "is_reading ch" and "reports t f rs"
  shows "\<exists>h. srv_iteration t s =
      sum_bind (srv_calls t a f (handle_event (turn_time t) (ch\<lparr>revents := ready_mask rs f\<rparr>)) (polled h s)) (finish_pass t) \<and>
    loop_ok (polled h s) \<and> conns_ok (polled h s)"
proof -
  let ?p = "loop_poller (srv_loop s)" and ?ch = "ch\<lparr>revents := ready_mask rs f\<rparr>"
  note ok = settledD [OF assms(1)]
  note p = srv_okD(1) [OF life_okD [OF loop_okD(1) [OF ok(1)]]]
  have fd: "fd ch = f" using poller_okD(2) [OF p assms(2)] assms(3) by auto
  have "turn_select t m q tv = (1, rs)" if "rebuild_fds ?p = Inr (q, m)" for m q tv
    using rebuilt_sets [OF p assms(2) that] assms(3-5) by (simp add: reports_def reading_def)
  moreover have "ready_mask rs f \<noteq> kNoneEvent"
    using assms(5) by (auto simp: reports_def ready_mask_def Let_def kNoneEvent_def kReadEvent_def kWriteEvent_def kErrorEvent_def)
  moreover have "read_fds rs \<union> write_fds rs \<union> except_fds rs \<subseteq> {f}" using assms(5) by (simp add: reports_def)
  ultimately obtain h where h: "poll (turn_select t) (to_int32 (next_timeout_ms (loop_wheel (srv_loop s)))) ?p [] = Inr (?p\<lparr>heap := h\<rparr>, [a])"
      "remasked (heap ?p) h" "h a = Some ?ch"
    using poll_one [OF p loop_okD(4) [OF ok(1)] assms(2,3), of "turn_select t" 1 rs "to_int32 (next_timeout_ms (loop_wheel (srv_loop s)))"] by auto
  have "srv_dispatch t [a] (polled h s) = srv_calls t a f (handle_event (turn_time t) ?ch) (polled h s)"
    using h(3) fd by (cases "srv_calls t a f (handle_event (turn_time t) ?ch) (polled h s)") simp_all
  then show ?thesis
    using iteration_polled [OF h(1)] polled_loop [OF ok(1) h(2)] conns_polled [OF ok(2) h(2)] by (intro exI [of _ h]) simp
qed

lemma ready_masks:
  "ready_mask \<lparr>read_fds = {f}, write_fds = {}, except_fds = {}\<rparr> f = kReadEvent" "ready_mask \<lparr>read_fds = {}, write_fds = {}, except_fds = {f}\<rparr> f = kErrorEvent"
  by (simp_all add: ready_mask_def kNoneEvent_def kReadEvent_def kErrorEvent_def)

text \<open>The callbacks of a client's channel.\<close>

lemma handle_event_one:
  "callbacks ch = (True, w, c, e, Untied) \<Longrightarrow> revents ch = kReadEvent \<Longrightarrow> handle_event tm ch = [ReadCall tm]"
  "callbacks ch = (r, w, True, True, Untied) \<Longrightarrow> revents ch = kErrorEvent \<Longrightarrow> handle_event tm ch = [ErrorCall, CloseCall]"
  by (simp_all add: handle_event_def callbacks_def kReadEvent_def kWriteEvent_def kErrorEvent_def)

lemma client_callback:
  assumes "loop_ok s" and "map_of (connections s) f = Some c"
  shows "srv_callback t (conn_channel c) f (ReadCall tm) s = on_message (turn_http t) f s" "srv_callback t (conn_channel c) f ErrorCall s = on_close f s"
    "srv_callback t (conn_channel c) f CloseCall s = on_close f s"
  using client_channel(2,3) [OF assms] by (simp_all add: srv_callback_def)

lemma client_ready:
  assumes "settled s" and "map_of (connections s) f = Some c" and "reports t f rs"
  shows "\<exists>h ch. srv_iteration t s = sum_bind (srv_calls t (conn_channel c) f (handle_event (turn_time t) ch) (polled h s)) (finish_pass t) \<and>
    loop_ok (polled h s) \<and> conns_ok (polled h s) \<and> callbacks ch = (True, False, True, True, Untied) \<and> revents ch = ready_mask rs f"
proof -
  let ?p = "loop_poller (srv_loop s)"
  note ok = settledD [OF assms(1)]
  note reg = client_channel(1) [OF ok(1) assms(2)]
  have "f \<in> conn_fds s" using assms(2) by (auto simp: conn_fds_dom)
  then obtain ch where ch: "heap ?p (conn_channel c) = Some ch" "callbacks ch = (True, False, True, True, Untied)"
    using loop_okD(5) [OF ok(1), of f] reg by (auto simp: wired_def)
  have "is_reading ch" using conns_okD(3) [OF ok(2) assms(2) settledD(3) [OF assms(1,2)]] ch(1) by (simp add: reading_def)
  from pass_one [OF assms(1) reg ch(1) this assms(3)] show ?thesis
    using ch(2) by (elim exE) (intro exI, erule conjE, intro conjI, assumption+, simp_all add: callbacks_def)
qed

text \<open>What closing changes.\<close>

lemma close_conns:
  assumes "on_close f s = Inr s'" and "map_of (connections s) f = Some c" and "\<not> closed c"
  shows "map_of (connections s') = (map_of (connections s))(f \<mapsto> c\<lparr>closed := True\<rparr>)" "wire s' = wire s" "srv_open s' = srv_open s"
  using assms by (auto simp: on_close_def Let_def sum_bind_Inr_iff fun_eq_iff split: if_splits dest!: on_loop_poller)

lemma hang_up_pass:
  assumes "settled s" and "map_of (connections s) f = Some c" and "reports t f \<lparr>read_fds = {}, write_fds = {}, except_fds = {f}\<rparr>"
  shows "\<exists>s'. srv_iteration t s = Inr s' \<and> settled s' \<and> map_of (connections s') = (map_of (connections s))(f := None) \<and> srv_open s' = srv_open s - {f} \<and> wire s' = wire s"
proof -
  obtain h ch where it: "srv_iteration t s = sum_bind (srv_calls t (conn_channel c) f (handle_event (turn_time t) ch) (polled h s)) (finish_pass t)"
      "loop_ok (polled h s)" "conns_ok (polled h s)" "callbacks ch = (True, False, True, True, Untied)" "revents ch = kErrorEvent"
    using client_ready [OF assms] unfolding ready_masks by blast
  let ?s = "polled h s"
  note opened = settledD(3) [OF assms(1)]
  have c: "map_of (connections ?s) f = Some c" using assms(2) by simp
  obtain s1 where s1: "on_close f ?s = Inr s1" "srv_ok s1" "srv_frame ?s s1"
    using on_close_ok [OF life_okD [OF loop_okD(1) [OF it(2)]]] unfolding same_conns_def by blast
  note cl = close_conns [OF s1(1) c opened [OF assms(2)]]
  have l1: "loop_ok s1" "conns_ok s1" using loop_ok_frame(1) [OF it(2) s1(2,3)] conns_close [OF it(3) s1(1)] by blast+
  have c1: "map_of (connections s1) f = Some (c\<lparr>closed := True\<rparr>)" using cl(1) by simp
  have again: "on_close f s1 = Inr s1" using c1 by (simp add: on_close_def)
  have live: "channel_live (conn_channel c) s1 = Inr s1" using client_channel(4) [OF l1(1) c1] by simp
  have "srv_calls t (conn_channel c) f (handle_event (turn_time t) ch) ?s = Inr s1"
    using handle_event_one(2) [OF it(4,5)] client_callback(2) [OF it(2) c] client_callback(3) [OF l1(1) c1] s1(1) again live by simp
  moreover have "closed_fds s1 = {f}"
    using cl(1) opened by (auto simp: closed_fds_def split: if_splits)
  moreover have "(map_of (connections s))(f \<mapsto> c\<lparr>closed := True\<rparr>) |` (- {f}) = (map_of (connections s))(f := None)" by (auto simp: restrict_map_def)
  ultimately show ?thesis using it(1) finish_settles [OF l1, of t] cl by auto
qed

lemma fresh_buffer:
  assumes "length junk = kBlockSize"
  shows "buf_ok (Buffer_new junk)" "content (Buffer_new junk) = []" "single (Buffer_new junk)" "writable (wblk (Buffer_new junk)) = kBlockSize"
  using assms by (auto simp: buf_ok_def content_def single_def Buffer_new_def block_reset_def blk_ok_def blk_view_def readable_def writable_def)

lemma accept_conn:
  assumes "on_accept env junk f s = Inr s'" and "f \<noteq> kInvalidFd" and "length junk = kBlockSize"
  shows "\<exists>c. map_of (connections s') = (map_of (connections s))(f \<mapsto> c) \<and> idle_conn c \<and> \<not> closed c \<and> writable (wblk (read_buf c)) = kBlockSize \<and>
    wire s' = wire s \<and> srv_open s' = insert f (srv_open s)"
proof -
  obtain a s1 where new: "new_channel f True (s\<lparr>srv_open := insert f (srv_open s)\<rparr>) = Inr (a, s1)"
    using assms(1,2) by (auto simp: on_accept_def sum_bind_Inr_iff)
  let ?c = "\<lparr>conn_fd = f, conn_channel = a, read_buf = Buffer_new junk, conn_parser = HttpParser_reset, timeout_timer = 0, closed = False\<rparr>"
  obtain c2 s2 where r: "refresh_timeout env ?c s1 = (c2, s2)" by fastforce
  have s': "s' = put_conn f c2 s2" using assms(1,2) new r by (simp add: on_accept_def)
  have s1: "wire s1 = wire s" "srv_open s1 = insert f (srv_open s)" using new by (auto simp: new_channel_def on_loop_def Let_def map_sum_Inr_iff)
  note rf = refresh_timeout_fields [OF r]
  have "map_of (connections s') = (map_of (connections s))(f \<mapsto> c2)" using s' rf(7) new_channel_reading(4) [OF new] by (auto simp: fun_eq_iff)
  moreover have "idle_conn c2" "\<not> closed c2" "writable (wblk (read_buf c2)) = kBlockSize"
    using rf(1,2,5) fresh_buffer [OF assms(3)] by (simp_all add: idle_conn_def)
  ultimately show ?thesis using s' rf(8,11) s1 by auto
qed

lemma accept_pass:
  assumes "settled s" and "turn_ok t" and "reports t (listen_fd s) \<lparr>read_fds = {listen_fd s}, write_fds = {}, except_fds = {}\<rparr>"
    and "turn_accept t (srv_open s) = f" and "f \<noteq> kInvalidFd"
  shows "\<exists>s' c. srv_iteration t s = Inr s' \<and> settled s' \<and> map_of (connections s') = (map_of (connections s))(f \<mapsto> c) \<and> idle_conn c \<and> \<not> closed c \<and>
    writable (wblk (read_buf c)) = kBlockSize \<and> wire s' = wire s \<and> srv_open s' = insert f (srv_open s)"
proof -
  note ok = settledD [OF assms(1)]
  have "listening s" using loop_okD(1,2) [OF ok(1)] by (simp add: life_ok_def)
  then obtain a where a: "listen_channel s = Some a" "map_of (channels (loop_poller (srv_loop s))) (listen_fd s) = Some a" by (auto simp: listening_def)
  obtain ch where ch: "heap (loop_poller (srv_loop s)) a = Some ch" "is_reading ch" "callbacks ch = (True, False, False, False, Untied)"
    using conns_okD(4) [OF ok(2) a(1)] by (auto simp: listener_def)
  let ?ch = "ch\<lparr>revents := kReadEvent\<rparr>" and ?f = "listen_fd s"
  obtain h where it: "srv_iteration t s = sum_bind (srv_calls t a ?f (handle_event (turn_time t) ?ch) (polled h s)) (finish_pass t)"
      "loop_ok (polled h s)" "conns_ok (polled h s)"
    using pass_one [OF assms(1) a(2) ch(1,2) assms(3)] unfolding ready_masks by blast
  let ?s = "polled h s"
  have call: "srv_callback t a ?f (ReadCall (turn_time t)) ?s = on_accept (turn_http t) (turn_junk t) f ?s"
    using a(1) assms(4) by (simp add: srv_callback_def)
  have f: "f \<notin> srv_open s" "length (turn_junk t) = kBlockSize" using assms(2,4,5) unfolding turn_ok_def by blast+
  obtain s1 where s1: "on_accept (turn_http t) (turn_junk t) f ?s = Inr s1"
    using accept_life [OF loop_okD(1,2) [OF it(2)], of f "turn_junk t" "turn_http t"] f by auto
  have l1: "loop_ok s1" "keeps_registered ?s s1" using callback_turned [OF it(2) assms(2), of a ?f "ReadCall (turn_time t)"] call s1 by (simp_all add: turned_def)
  have n1: "conns_ok s1" using conns_callback [OF it(2) assms(2) it(3), of a ?f "ReadCall (turn_time t)"] call s1 by simp
  have "map_of (channels (loop_poller (srv_loop s1))) ?f = Some a" using l1(2) a(2) by (simp add: keeps_registered_def)
  then obtain ch1 where "heap (loop_poller (srv_loop s1)) a = Some ch1" using registered_live [OF l1(1)] by blast
  then have calls: "srv_calls t a ?f (handle_event (turn_time t) ?ch) ?s = Inr s1"
    using handle_event_one(1) [of ?ch] ch(3) call s1 by (simp add: callbacks_def channel_live_def)
  obtain c where c: "map_of (connections s1) = (map_of (connections s))(f \<mapsto> c)" "idle_conn c" "\<not> closed c" "writable (wblk (read_buf c)) = kBlockSize"
      "wire s1 = wire s" "srv_open s1 = insert f (srv_open s)"
    using accept_conn [OF s1 assms(5) f(2)] by auto
  have "closed_fds s1 = {}" using c(1,3) settledD(3) [OF assms(1)] by (auto simp: closed_fds_def split: if_splits)
  then have "map_of (connections s1) |` (- closed_fds s1) = map_of (connections s1)" "srv_open s1 - closed_fds s1 = srv_open s1" by (simp_all add: restrict_map_def)
  then obtain s' where "finish_pass t s1 = Inr s'" "settled s'" "map_of (connections s') = map_of (connections s1)" "srv_open s' = srv_open s1" "wire s' = wire s1"
    using finish_settles [OF l1(1) n1, of t] by auto
  then show ?thesis using it(1) calls c by (intro exI [of _ s'] exI [of _ c]) simp
qed

lemma answer_pass:
  assumes "settled s" and "turn_ok t" and "map_of (connections s) f = Some c" and "reports t f \<lparr>read_fds = {f}, write_fds = {}, except_fds = {}\<rparr>"
    and "idle_conn c" and "sends_some (turn_http t) f" and "\<forall>r \<in> set rs. wire_ok_request r" and "rs \<noteq> []"
    and "length (concat (map wire_text rs)) \<le> writable (wblk (read_buf c))"
    and "http_recv (turn_http t) f (int (writable (wblk (read_buf c)))) = ((int (length (concat (map wire_text rs))), 0), concat (map wire_text rs))"
  shows "\<exists>s' c'. srv_iteration t s = Inr s' \<and> settled s' \<and> wire s' f = wire s f @ sent_replies (turn_http t) f s rs \<and>
    map_of (connections s') f = Some c' \<and> idle_conn c'"
proof -
  obtain h ch where it: "srv_iteration t s = sum_bind (srv_calls t (conn_channel c) f (handle_event (turn_time t) ch) (polled h s)) (finish_pass t)"
      "loop_ok (polled h s)" "conns_ok (polled h s)" "callbacks ch = (True, False, True, True, Untied)" "revents ch = kReadEvent"
    using client_ready [OF assms(1,3,4)] unfolding ready_masks by blast
  let ?s = "polled h s"
  have c: "map_of (connections ?s) f = Some c" using assms(3) by simp
  obtain s1 c1 where s1: "on_message (turn_http t) f ?s = Inr s1" "wire s1 f = wire s f @ sent_replies (turn_http t) f ?s rs"
      "map_of (connections s1) f = Some c1" "\<not> closed c1" "idle_conn c1"
    using on_message_pipeline [OF c settledD(3) [OF assms(1,3)] assms(5-10)] by auto
  have "answer (turn_http t) ?s = answer (turn_http t) s" by (rule answer_cong) simp_all
  then have reps: "sent_replies (turn_http t) f ?s rs = sent_replies (turn_http t) f s rs" by (simp add: sent_replies_def)
  note call = client_callback(1) [OF it(2) c, of t "turn_time t"]
  have l1: "loop_ok s1" "keeps_registered ?s s1" using callback_turned [OF it(2) assms(2), of "conn_channel c" f "ReadCall (turn_time t)"] call s1(1) by (simp_all add: turned_def)
  have n1: "conns_ok s1" by (rule conns_message [OF it(3) s1(1)])
  have "map_of (channels (loop_poller (srv_loop s1))) f = Some (conn_channel c)"
    using l1(2) client_channel(1) [OF it(2) c] by (simp add: keeps_registered_def)
  then have "conn_channel c1 = conn_channel c" using client_channel(1) [OF l1(1) s1(3)] by simp
  then have calls: "srv_calls t (conn_channel c) f (handle_event (turn_time t) ch) ?s = Inr s1"
    using handle_event_one(1) [OF it(4,5)] call s1(1) client_channel(4) [OF l1(1) s1(3)] by simp
  have "f \<notin> closed_fds s1" using s1(3,4) by (simp add: closed_fds_def)
  then show ?thesis using it(1) calls finish_settles [OF l1(1) n1, of t] s1 reps by auto
qed

text \<open>A registered descriptor that does not fit the sets makes the next pass leave them.\<close>

lemma rebuild_loop_overflow:
  "\<forall>fa \<in> set fas. h (snd fa) \<noteq> None \<Longrightarrow> \<exists>fa \<in> set fas. \<exists>ch. h (snd fa) = Some ch \<and> FD_SETSIZE \<le> fd ch \<Longrightarrow> rebuild_loop h fas s m = Inl FdOutOfRange"
proof (induction h fas s m rule: rebuild_loop.induct)
  case (2 h fa rest s m)
  then obtain ch where ch: "h (snd fa) = Some ch" by auto
  show ?case
  proof (cases "fd ch < 0 \<or> FD_SETSIZE \<le> fd ch")
    case False
    then show ?thesis using "2.IH" [OF ch _ refl refl refl] "2.prems" ch by (auto simp: Let_def)
  qed (use ch in simp)
qed simp

text \<open>A run for the concrete instances: \<open>select\<close> reports one descriptor, when it is asked about it.\<close>

definition one_ready :: "int \<Rightarrow> fd_sets \<Rightarrow> select_call" where
  "one_ready f rs = (\<lambda>m q tv. if f \<in> read_fds q \<and> f \<in> except_fds q then (1, rs) else (0, q))"

lemma demo_reports:
  "reports (demo_turn (one_ready f \<lparr>read_fds = {f}, write_fds = {}, except_fds = {}\<rparr>) g bytes) f \<lparr>read_fds = {f}, write_fds = {}, except_fds = {}\<rparr>"
  "reports (demo_turn (one_ready f \<lparr>read_fds = {}, write_fds = {}, except_fds = {f}\<rparr>) g bytes) f \<lparr>read_fds = {}, write_fds = {}, except_fds = {f}\<rparr>"
  by (simp_all add: reports_def demo_turn_def one_ready_def)

lemma demo_accepted:
  "\<exists>(s0 :: string http_server) s c. started (Inr s0) \<and> loop_pass\<^sup>*\<^sup>* (Inr s0) (Inr s) \<and> map_of (connections s) 7 = Some c \<and> idle_conn c \<and> writable (wblk (read_buf c)) = kBlockSize \<and>
     srv_open s = {7, 4, 3}"
proof -
  obtain s0 :: "string http_server" where s0: "started (Inr s0)" "srv_open s0 = {4, 3}" using demo_started by blast
  let ?t = "demo_turn (one_ready (listen_fd s0) \<lparr>read_fds = {listen_fd s0}, write_fds = {}, except_fds = {}\<rparr>) 7 []"
  have t: "turn_ok ?t" by (rule demo_turn_ok) (simp_all add: FD_SETSIZE_def)
  have "turn_accept ?t (srv_open s0) = 7" using s0(2) by (simp add: demo_turn_def)
  then obtain s c where "srv_iteration ?t s0 = Inr s" "map_of (connections s) = (map_of (connections s0))(7 \<mapsto> c)" "idle_conn c" "writable (wblk (read_buf c)) = kBlockSize"
      "srv_open s = insert 7 (srv_open s0)"
    using accept_pass [OF started_settled [OF s0(1)] t demo_reports(1)] by (auto simp: kInvalidFd_def)
  then show ?thesis
    using s0 r_into_rtranclp [of loop_pass, OF loop_pass.intros [OF t, of s0]] by (intro exI [of _ s0] exI [of _ s] exI [of _ c]) auto
qed

section \<open>Properties\<close>

text \<open>C10. Between passes no connection is half closed. In every state the loop of a started server reaches, there is no deferred task left, every connection is open, has its own channel,
  which is watched for input and is not the listening channel, and the listening channel is watched for input, too.\<close>

theorem passes_settle:
  assumes "started r" and "loop_pass\<^sup>*\<^sup>* r (Inr s)"
  shows "pending_tasks (srv_loop s) = [] \<and> (\<exists>a ch. listen_channel s = Some a \<and> heap (loop_poller (srv_loop s)) a = Some ch \<and> fd ch = listen_fd s \<and> is_reading ch) \<and>
    (\<forall>f c. map_of (connections s) f = Some c \<longrightarrow> \<not> closed c \<and> f \<in> srv_open s \<and> listen_channel s \<noteq> Some (conn_channel c) \<and>
       (\<exists>ch. heap (loop_poller (srv_loop s)) (conn_channel c) = Some ch \<and> fd ch = f \<and> is_reading ch))"
proof -
  note set = reached_settled [OF assms]
  note ok = settledD(1,2) [OF set]
  note p = srv_okD(1) [OF life_okD [OF loop_okD(1) [OF ok(1)]]]
  have "listening s" using loop_okD(1,2) [OF ok(1)] by (simp add: life_ok_def)
  then obtain a where a: "listen_channel s = Some a" "map_of (channels (loop_poller (srv_loop s))) (listen_fd s) = Some a" by (auto simp: listening_def)
  moreover have "\<exists>ch. heap (loop_poller (srv_loop s)) a = Some ch \<and> fd ch = listen_fd s \<and> is_reading ch"
    using conns_okD(4) [OF ok(2) a(1)] poller_okD(2) [OF p a(2)] by (auto simp: listener_def)
  moreover have "\<not> closed c \<and> f \<in> srv_open s \<and> listen_channel s \<noteq> Some (conn_channel c) \<and>
       (\<exists>ch. heap (loop_poller (srv_loop s)) (conn_channel c) = Some ch \<and> fd ch = f \<and> is_reading ch)" if c: "map_of (connections s) f = Some c" for f c
  proof -
    note reg = client_channel(1,2) [OF ok(1) c]
    have "f \<in> srv_open s" by (rule srv_okD(4) [OF life_okD [OF loop_okD(1) [OF ok(1)]] reg(1)])
    then show ?thesis
      using settledD(3) [OF set c] reg(2) conns_okD(3) [OF ok(2) c settledD(3) [OF set c]] poller_okD(2) [OF p reg(1)] by (auto simp: reading_def)
  qed
  ultimately show ?thesis using set by (auto simp: settled_def)
qed

theorem passes_settle_witness:
  "\<exists>(s0 :: string http_server) s c. started (Inr s0) \<and> loop_pass\<^sup>*\<^sup>* (Inr s0) (Inr s) \<and> map_of (connections s) 7 = Some c \<and> \<not> closed c \<and> pending_tasks (srv_loop s) = []"
proof -
  obtain s0 s :: "string http_server" and c where run: "started (Inr s0)" "loop_pass\<^sup>*\<^sup>* (Inr s0) (Inr s)" "map_of (connections s) 7 = Some c" using demo_accepted by blast
  from passes_settle [OF run(1,2)] run show ?thesis by blast
qed

text \<open>C3. The server answers. Let, between two passes of a started server's loop, \<open>select\<close> report the connection \<open>f\<close> readable and nothing else, let the connection be between requests, and let one read deliver
  complete requests there that fit the free space of its block: requests with a body of declared length or none, without chunked transfer encoding, without an explicit \<open>Content-Length: 0\<close>. Let every \<open>send\<close> on \<open>f\<close> take at least one byte. Then the
  pass ends without a failure, and of the responses to these requests, in their order, one per request, exactly the part each \<open>send\<close> took has been sent on \<open>f\<close>: all of them when it took everything; what it did not take is lost. The connection is
  open and between requests, so that the next ones can follow.\<close>

theorem requests_answered:
  assumes "started r" and "loop_pass\<^sup>*\<^sup>* r (Inr s)" and "turn_ok t" and "map_of (connections s) f = Some c"
    and "reports t f \<lparr>read_fds = {f}, write_fds = {}, except_fds = {}\<rparr>"
    and "idle_conn c" and "sends_some (turn_http t) f" and "\<forall>r \<in> set rs. wire_ok_request r" and "rs \<noteq> []"
    and "length (concat (map wire_text rs)) \<le> writable (wblk (read_buf c))"
    and "http_recv (turn_http t) f (int (writable (wblk (read_buf c)))) = ((int (length (concat (map wire_text rs))), 0), concat (map wire_text rs))"
  shows "\<exists>s' c'. srv_iteration t s = Inr s' \<and> wire s' f = wire s f @ sent_replies (turn_http t) f s rs \<and>
    (sends_all (turn_http t) f \<longrightarrow> wire s' f = wire s f @ replies (turn_http t) s rs) \<and>
    map_of (connections s') f = Some c' \<and> \<not> closed c' \<and> idle_conn c'"
  using answer_pass [OF reached_settled [OF assms(1,2)] assms(3-11)] settledD(3) sent_replies_all by metis

theorem requests_answered_witness:
  "\<exists>s0 s s' c'. started (Inr s0) \<and> loop_pass\<^sup>*\<^sup>* (Inr s0) (Inr s) \<and>
     srv_iteration (demo_turn (one_ready 7 \<lparr>read_fds = {7}, write_fds = {}, except_fds = {}\<rparr>) 8 (concat (map wire_text [(''GET'', ''/'', ''HTTP/1.1'', [], [])]))) s = Inr s' \<and>
     length (wire s 7) < length (wire s' 7) \<and> map_of (connections s') 7 = Some c' \<and> \<not> closed c'"
proof -
  obtain s0 s :: "string http_server" and c where run: "started (Inr s0)" "loop_pass\<^sup>*\<^sup>* (Inr s0) (Inr s)" "map_of (connections s) 7 = Some c" "idle_conn c"
    "writable (wblk (read_buf c)) = kBlockSize" using demo_accepted by blast
  let ?rs = "[(''GET'', ''/'', ''HTTP/1.1'', [], [])] :: wire_request list"
  let ?t = "demo_turn (one_ready 7 \<lparr>read_fds = {7}, write_fds = {}, except_fds = {}\<rparr>) 8 (concat (map wire_text ?rs))"
  have t: "turn_ok ?t" by (rule demo_turn_ok) (simp_all add: FD_SETSIZE_def)
  have send: "sends_all (turn_http ?t) 7" by (simp add: sends_all_def send_all_of_def demo_turn_def demo_env_def)
  have len: "length (concat (map wire_text ?rs)) \<le> writable (wblk (read_buf c))"
    unfolding run(5) by (simp add: kBlockSize_def print_head_def request_line_def header_block_def crlf_def)
  have recv: "http_recv (turn_http ?t) 7 (int (writable (wblk (read_buf c)))) = ((int (length (concat (map wire_text ?rs))), 0), concat (map wire_text ?rs))"
    using len by (simp add: demo_turn_def demo_env_def)
  have wf: "\<forall>r \<in> set ?rs. wire_ok_request r" by (simp add: line_ok_def)
  from requests_answered [OF run(1,2) t run(3) demo_reports(1) run(4) sends_all_some(1) [OF send] wf _ len recv] send obtain s' c' where
    "srv_iteration ?t s = Inr s'" "wire s' 7 = wire s 7 @ replies (turn_http ?t) s ?rs" "map_of (connections s') 7 = Some c'" "\<not> closed c'" by blast
  moreover have "replies (turn_http ?t) s ?rs \<noteq> []" by (simp add: replies_def)
  ultimately show ?thesis using run(1,2) by (intro exI [of _ s0] exI [of _ s] exI [of _ s'] exI [of _ c']) simp
qed

text \<open>C11. A waiting client is let in. When \<open>select\<close> reports the listening descriptor readable and \<open>accept\<close> returns the descriptor \<open>f\<close>, the pass ends without a failure and with
  a fresh connection on \<open>f\<close>, all other connections being as they were.\<close>

theorem client_accepted:
  assumes "started r" and "loop_pass\<^sup>*\<^sup>* r (Inr s)" and "turn_ok t" and "reports t (listen_fd s) \<lparr>read_fds = {listen_fd s}, write_fds = {}, except_fds = {}\<rparr>"
    and "turn_accept t (srv_open s) = f" and "f \<noteq> kInvalidFd"
  shows "\<exists>s' c. srv_iteration t s = Inr s' \<and> map_of (connections s') = (map_of (connections s))(f \<mapsto> c) \<and> idle_conn c \<and> \<not> closed c \<and>
    writable (wblk (read_buf c)) = kBlockSize \<and> wire s' = wire s \<and> srv_open s' = insert f (srv_open s)"
  using accept_pass [OF reached_settled [OF assms(1,2)] assms(3-6)] by blast

theorem client_accepted_witness:
  "\<exists>s s' c. started (Inr s) \<and>
     srv_iteration (demo_turn (one_ready (listen_fd s) \<lparr>read_fds = {listen_fd s}, write_fds = {}, except_fds = {}\<rparr>) 7 []) s = Inr s' \<and> map_of (connections s') 7 = Some c \<and> idle_conn c"
proof -
  obtain s :: "string http_server" where s: "started (Inr s)" "srv_open s = {4, 3}" using demo_started by blast
  let ?t = "demo_turn (one_ready (listen_fd s) \<lparr>read_fds = {listen_fd s}, write_fds = {}, except_fds = {}\<rparr>) 7 []"
  have t: "turn_ok ?t" by (rule demo_turn_ok) (simp_all add: FD_SETSIZE_def)
  have "turn_accept ?t (srv_open s) = 7" using s(2) by (simp add: demo_turn_def)
  from client_accepted [OF s(1) _ t demo_reports(1) this] s(1) show ?thesis by (fastforce simp: kInvalidFd_def)
qed

text \<open>C12. A client that hangs up is released in the same pass. When \<open>select\<close> reports an exceptional condition on the connection \<open>f\<close>, the pass calls \<open>on_close\<close> twice and runs the deferred
  erasure: \<open>f\<close> is no connection and not registered any more and its descriptor is closed, while all other connections and all that was sent are as before.\<close>

theorem hang_up_released:
  assumes "started r" and "loop_pass\<^sup>*\<^sup>* r (Inr s)" and "map_of (connections s) f = Some c" and "reports t f \<lparr>read_fds = {}, write_fds = {}, except_fds = {f}\<rparr>"
  shows "\<exists>s'. srv_iteration t s = Inr s' \<and> map_of (connections s') = (map_of (connections s))(f := None) \<and> srv_open s' = srv_open s - {f} \<and>
    map_of (channels (loop_poller (srv_loop s'))) f = None \<and> wire s' = wire s"
proof -
  obtain s' where s': "srv_iteration t s = Inr s'" "settled s'" "map_of (connections s') = (map_of (connections s))(f := None)" "srv_open s' = srv_open s - {f}" "wire s' = wire s"
    using hang_up_pass [OF reached_settled [OF assms(1,2)] assms(3,4)] by blast
  have "map_of (channels (loop_poller (srv_loop s'))) f = None"
    using srv_okD(4) [OF life_okD [OF loop_okD(1) [OF settledD(1) [OF s'(2)]]], of f] s'(4) by (cases "map_of (channels (loop_poller (srv_loop s'))) f") auto
  with s' show ?thesis by blast
qed

theorem hang_up_released_witness:
  "\<exists>s0 s s' c. started (Inr s0) \<and> loop_pass\<^sup>*\<^sup>* (Inr s0) (Inr s) \<and> map_of (connections s) 7 = Some c \<and>
     srv_iteration (demo_turn (one_ready 7 \<lparr>read_fds = {}, write_fds = {}, except_fds = {7}\<rparr>) 8 []) s = Inr s' \<and> map_of (connections s') 7 = None \<and> 7 \<notin> srv_open s'"
proof -
  obtain s0 s :: "string http_server" and c where run: "started (Inr s0)" "loop_pass\<^sup>*\<^sup>* (Inr s0) (Inr s)" "map_of (connections s) 7 = Some c" using demo_accepted by blast
  from hang_up_released [OF run demo_reports(2) [of 7 8 "[]"]] obtain s' where
    "srv_iteration (demo_turn (one_ready 7 \<lparr>read_fds = {}, write_fds = {}, except_fds = {7}\<rparr>) 8 []) s = Inr s'" "map_of (connections s') 7 = None" "7 \<notin> srv_open s'" by auto
  with run show ?thesis by blast
qed

text \<open>C34. Nothing keeps descriptors below \<open>FD_SETSIZE\<close>. When \<open>accept\<close> returns a descriptor of at least that size, \<open>on_accept\<close> takes the client as any other, and then every later pass of the loop, whatever
  happens in it, first writes outside the descriptor sets.\<close>

theorem fd_limit_overrun:
  assumes "started r" and "loop_pass\<^sup>*\<^sup>* r (Inr s)" and "FD_SETSIZE \<le> f" and "f \<notin> srv_open s" and "length junk = kBlockSize"
  shows "\<exists>s'. on_accept env junk f s = Inr s' \<and> (\<forall>t. srv_iteration t s' = Inl (LoopFault (PollFault FdOutOfRange)))"
proof -
  note ok = settledD(1) [OF reached_settled [OF assms(1,2)]]
  have inv: "f \<noteq> kInvalidFd" using assms(3) by (simp add: kInvalidFd_def FD_SETSIZE_def)
  obtain s' where s': "on_accept env junk f s = Inr s'" "life_ok s'" using accept_life [OF loop_okD(1,2) [OF ok] assms(4,5)] by blast
  let ?p = "loop_poller (srv_loop s')"
  note p = srv_okD(1) [OF life_okD [OF s'(2)]]
  have reg: "map_of (channels ?p) f = Some (next_addr s)" using accept_channels(1) [OF loop_okD(1) [OF ok] assms(4) inv s'(1)] by simp
  obtain ch where "heap ?p (next_addr s) = Some ch" "fd ch = f" using poller_okD(2) [OF p reg] by blast
  then have "\<exists>fa \<in> set (channels ?p). \<exists>ch. heap ?p (snd fa) = Some ch \<and> FD_SETSIZE \<le> fd ch"
    using map_of_SomeD [OF reg] assms(3) by force
  moreover have "\<forall>fa \<in> set (channels ?p). heap ?p (snd fa) \<noteq> None" using poller_ok_heap [OF p] by fastforce
  ultimately have "rebuild_fds ?p = Inl FdOutOfRange" by (simp add: rebuild_fds_def rebuild_loop_overflow)
  then show ?thesis using s'(1) by (simp add: srv_iteration_def poll_def)
qed

theorem fd_limit_overrun_witness:
  "\<exists>s0 s s'. started (Inr s0) \<and> loop_pass\<^sup>*\<^sup>* (Inr s0) (Inr s) \<and> on_accept (demo_env []) (replicate kBlockSize NUL) 1024 s = Inr s' \<and>
     srv_iteration (demo_turn (one_ready 7 \<lparr>read_fds = {7}, write_fds = {}, except_fds = {}\<rparr>) 8 []) s' = Inl (LoopFault (PollFault FdOutOfRange))"
proof -
  obtain s0 s :: "string http_server" where run: "started (Inr s0)" "loop_pass\<^sup>*\<^sup>* (Inr s0) (Inr s)" "srv_open s = {7, 4, 3}" using demo_accepted by blast
  from fd_limit_overrun [OF run(1,2), of 1024 "replicate kBlockSize NUL" "demo_env []"] run(3) obtain s' where
    "on_accept (demo_env []) (replicate kBlockSize NUL) 1024 s = Inr s'" "\<forall>t. srv_iteration t s' = Inl (LoopFault (PollFault FdOutOfRange))" by (auto simp: FD_SETSIZE_def)
  with run show ?thesis by blast
qed

end
