(* ===== verification/Server_Descriptors.thy ===== *)
theory Server_Descriptors
  imports Server_Loop
begin

text \<open>
  The descriptors of the HTTP server (\<open>src/hound/src/http/http_server.cpp\<close>) and of its event loop (\<open>src/hound/src/reactor/event_loop.cpp\<close>): what is open is exactly what was open before, one descriptor per
  connection and the listening one, and the loop closes the wakeup descriptors it has opened.
\<close>

section \<open>The server\<close>

definition accounted :: "int set \<Rightarrow> 'h http_server \<Rightarrow> bool" where
  "accounted B s \<longleftrightarrow> srv_open s = B \<union> conn_fds s \<union> (if running s then {listen_fd s} else {}) \<and> B \<inter> conn_fds s = {} \<and> (running s \<longrightarrow> listen_fd s \<notin> B)"

lemma accounted_frame:
  assumes "accounted B s" and "srv_frame s s'"
  shows "accounted B s'"
proof -
  have "map fst (connections s') = map fst (connections s)" using assms(2) by (simp add: srv_frame_def)
  then have "conn_fds s' = conn_fds s" by (simp only: conn_fds_def)
  then show ?thesis using assms by (simp add: accounted_def srv_frame_def)
qed

definition balanced :: "int set \<Rightarrow> srv_fault + 'h http_server \<Rightarrow> bool" where
  "balanced B r \<longleftrightarrow> (\<exists>s. r = Inr s \<and> life_ok s \<and> accounted B s) \<or> (\<exists>e. r = Inl (ParseFault e))"

lemma served_balanced: "life_ok s \<Longrightarrow> accounted B s \<Longrightarrow> served s r \<Longrightarrow> balanced B r"
  using accounted_frame life_ok_frame unfolding served_def balanced_def by blast

lemma accounted_accept:
  assumes "life_ok s" and "running s" and "accounted B s" and "f \<notin> srv_open s" and "f \<noteq> kInvalidFd" and "length junk = kBlockSize" and "on_accept env junk f s = Inr s'"
  shows "accounted B s'"
proof -
  have open': "srv_open s' = insert f (srv_open s)" "running s'" using accept_life [OF assms(1,2,4,6), of env] assms(5,7) by auto
  moreover have "conn_fds s' = insert f (conn_fds s)" by (rule accept_channels(6) [OF assms(1,4,5,7)])
  moreover have "listen_fd s' = listen_fd s"
  proof -
    obtain a s1 where new: "new_channel f True (s\<lparr>srv_open := insert f (srv_open s)\<rparr>) = Inr (a, s1)" using assms(5,7) by (auto simp: on_accept_def sum_bind_Inr_iff)
    let ?c = "\<lparr>conn_fd = f, conn_channel = a, read_buf = Buffer_new junk, conn_parser = HttpParser_reset, timeout_timer = 0, closed = False\<rparr>"
    obtain c2 s2 where r: "refresh_timeout env ?c s1 = (c2, s2)" by fastforce
    have "s' = put_conn f c2 s2" using assms(5,7) new r by (simp add: on_accept_def)
    then show ?thesis using new refresh_timeout_frame [OF r] by (auto simp: srv_frame_def put_conn_def new_channel_def on_loop_def Let_def map_sum_Inr_iff)
  qed
  ultimately show ?thesis using assms(2-4) by (auto simp: accounted_def)
qed

lemma accounted_start:
  assumes "life_ok s" and "accounted B s" and "f \<notin> srv_open s" and "f \<noteq> kInvalidFd" and "srv_start f True True s = Inr s'"
  shows "accounted B s'"
proof (cases "running s")
  case True
  then show ?thesis using assms(2,5) by (simp add: srv_start_def)
next
  case False
  have "srv_open s' = insert f (srv_open s)" "running s'" using start_life [OF assms(1,3,4)] assms(5) False by auto
  moreover have "connections s' = connections s" "listen_fd s' = f"
    using assms(4,5) False by (auto simp: srv_start_def sum_bind_Inr_iff new_channel_def on_loop_def Let_def map_sum_Inr_iff)
  ultimately show ?thesis using assms(2,3) False by (auto simp: accounted_def conn_fds_def)
qed

lemma accounted_stop:
  assumes "life_ok s" and "accounted B s" and "srv_stop s = Inr s'"
  shows "accounted B s' \<and> srv_open s' = B"
proof -
  have s': "life_ok s'" "\<not> running s'" "running s \<Longrightarrow> srv_open s' = srv_open s - conn_fds s - {listen_fd s}"
    using stop_life [OF assms(1)] assms(3) by auto
  then have none: "connections s' = []" by (simp add: life_ok_def)
  show ?thesis
  proof (cases "running s")
    case True
    then show ?thesis using s' none assms(2) by (auto simp: accounted_def conn_fds_def)
  next
    case False
    then show ?thesis using assms none by (auto simp: srv_stop_def accounted_def conn_fds_def)
  qed
qed

lemma balanced_erase:
  assumes "life_ok s" and "accounted B s"
  shows "balanced B (erase_connection f s)"
proof (cases "map_of (connections s) f")
  case None
  then show ?thesis using assms by (simp add: erase_connection_def balanced_def)
next
  case (Some c)
  obtain s' where s': "erase_connection f s = Inr s'" "life_ok s'" using erase_life [OF assms(1)] by blast
  obtain p' where e: "s' = s\<lparr>connections := AList.delete f (connections s), srv_loop := (srv_loop s)\<lparr>loop_poller := p'\<rparr>, srv_open := srv_open s - {f}\<rparr>"
    using erase_connection_ok [OF life_okD [OF assms(1)] Some] s'(1) by auto
  then have "conn_fds s' = conn_fds s - {f}" by (simp add: conn_fds_def delete_keys del: set_map)
  moreover have f: "f \<in> conn_fds s" using map_of_SomeD [OF Some] by (force simp: conn_fds_def)
  moreover have "running s \<Longrightarrow> f \<noteq> listen_fd s" using assms(1) f by (auto simp: life_ok_def listening_def)
  ultimately have "accounted B s'" using e assms(2) by (auto simp: accounted_def)
  then show ?thesis using s' by (simp add: balanced_def)
qed

lemma step_balanced:
  assumes "balanced B r" and "srv_step r r'"
  shows "balanced B r'"
  using assms(2)
proof cases
  case (1 s ev)
  then have s: "life_ok s" "accounted B s" using assms(1) by (simp_all add: balanced_def)
  show ?thesis
  proof (cases ev)
    case (Start f)
    then show ?thesis using 1 start_life [OF s(1), of f] accounted_start [OF s, of f] by (auto simp: balanced_def)
  next
    case Stop
    then show ?thesis using 1 stop_life [OF s(1)] accounted_stop [OF s] by (auto simp: balanced_def)
  next
    case (Accepted env junk f)
    show ?thesis
    proof (cases "f = kInvalidFd")
      case True
      then show ?thesis using 1 Accepted s by (simp add: on_accept_def balanced_def)
    next
      case False
      then show ?thesis using 1 Accepted accept_life [OF s(1), of f junk env] accounted_accept [OF s(1) _ s(2), of f junk env] by (auto simp: balanced_def)
    qed
  next
    case (Readable env f)
    then show ?thesis using 1 served_balanced [OF s on_message_served [OF life_okD [OF s(1)]]] by simp
  next
    case (HungUp f)
    then show ?thesis using 1 served_balanced [OF s served_close [OF life_okD [OF s(1)]]] by simp
  next
    case (TaskRun t)
    then show ?thesis
      using 1 balanced_erase [OF s] served_balanced [OF s served_close [OF life_okD [OF s(1)]]] by (cases t) (auto simp: run_http_task_def)
  qed
qed

text \<open>A server that is constructed while the descriptors \<open>B\<close> are open, the wakeup descriptor among them.\<close>

definition constructed_over :: "int set \<Rightarrow> srv_fault + 'h http_server \<Rightarrow> bool" where
  "constructed_over B r \<longleftrightarrow> constructed r \<and> (\<forall>s. r = Inr s \<longrightarrow> srv_open s = B)"

interpretation descriptor_system: step_system "constructed_over B" srv_step "balanced B" for B
proof
  show "balanced B r" if r: "constructed_over B r" for r :: "srv_fault + 'h http_server"
  proof -
    obtain s where s: "r = Inr s" "srv_open s = B" "connections s = []" "\<not> running s"
      using r by (auto simp: constructed_over_def constructed_def HttpServer_new_def)
    moreover have "life_ok s" using r s(1) server_system.inv_init [of r] by (simp add: constructed_over_def alive_def)
    ultimately show ?thesis by (simp add: balanced_def accounted_def conn_fds_def)
  qed
qed (rule step_balanced)

section \<open>The loop\<close>

text \<open>Creating the wakeup descriptors opens them; on Windows the listens socket of the pair is closed again. The destructor of the loop closes them after its channel is gone: one on Linux, two on Windows. Closing a
  descriptor that is not open is a fault.\<close>

datatype loop_end = EndFault loop_fault | ClosedTwice int

definition close_fd :: "int \<Rightarrow> int set \<Rightarrow> loop_end + int set" where
  "close_fd f fds = (if f \<in> fds then Inr (fds - {f}) else Inl (ClosedTwice f))"

definition open_eventfd :: "int \<Rightarrow> int set \<Rightarrow> loop_fault + (int \<times> int) \<times> int set" where
  "open_eventfd efd fds = map_sum id (\<lambda>w. (w, insert efd fds)) (create_eventfd efd)"

definition open_socket_pair :: "int \<Rightarrow> bool \<Rightarrow> bool \<Rightarrow> int \<Rightarrow> bool \<Rightarrow> int \<Rightarrow> int set \<Rightarrow> loop_fault + (int \<times> int) \<times> int set" where
  "open_socket_pair listener bound listens writer joined reader fds =
     map_sum id (\<lambda>w. (w, insert reader (insert writer (insert listener fds)) - {listener})) (create_socket_pair listener bound listens writer joined reader)"

definition close_wakeup_fds :: "wakeup_kind \<Rightarrow> int \<Rightarrow> int \<Rightarrow> int set \<Rightarrow> loop_end + int set" where
  "close_wakeup_fds kind read_fd write_fd fds =
     (case kind of Eventfd \<Rightarrow> close_fd read_fd fds | SocketPair room \<Rightarrow> sum_bind (close_fd read_fd fds) (close_fd write_fd))"

definition EventLoop_end :: "nat \<Rightarrow> 'task event_loop \<Rightarrow> int set \<Rightarrow> loop_end + int set" where
  "EventLoop_end self l fds =
     (case EventLoop_destroy self l of
        Inl e \<Rightarrow> Inl (EndFault e)
      | Inr l1 \<Rightarrow> close_wakeup_fds (wakeup_dev l1) (wakeup_fd l1) (wakeup_write_fd l1) fds)"

lemma destroy_fields:
  assumes "EventLoop_destroy self l = Inr l1"
  shows "wakeup_dev l1 = wakeup_dev l" "wakeup_fd l1 = wakeup_fd l" "wakeup_write_fd l1 = wakeup_write_fd l"
  using assms by (auto simp: EventLoop_destroy_def Channel_destroy_def free_channel_def with_poller_def split: sum.splits option.splits if_splits)

lemma new_fields:
  assumes "EventLoop_new self kind (Inr (f, g)) now = Inr l"
  shows "wakeup_dev l = kind" "wakeup_fd l = f" "wakeup_write_fd l = g"
  using assms by (auto simp: EventLoop_new_def split: sum.splits)

lemma loop_end_new:
  assumes "EventLoop_new self kind (Inr (f, g)) now = Inr l"
  shows "EventLoop_end self l fds = close_wakeup_fds kind f g fds" "other \<noteq> self \<Longrightarrow> EventLoop_end other l fds = Inl (EndFault Abort)"
proof -
  obtain l1 where l1: "EventLoop_destroy self l = Inr l1" using EventLoop_destroy_clean(1) [OF assms] by blast
  show "EventLoop_end self l fds = close_wakeup_fds kind f g fds"
    using l1 destroy_fields [OF l1] new_fields [OF assms] by (simp add: EventLoop_end_def)
  show "EventLoop_end other l fds = Inl (EndFault Abort)" if "other \<noteq> self"
    using EventLoop_destroy_clean(2) [OF assms that] by (simp add: EventLoop_end_def)
qed

lemma close_pair:
  assumes "r \<noteq> w" and "r \<notin> fds" and "w \<notin> fds"
  shows "close_wakeup_fds (SocketPair room) r w ({r, w} \<union> fds) = Inr fds"
proof -
  have "{r, w} \<union> fds - {r} - {w} = fds" using assms by blast
  then show ?thesis using assms by (simp add: close_wakeup_fds_def close_fd_def)
qed

section \<open>Properties\<close>

text \<open>C13. No descriptor is lost or closed by mistake. Over the whole life of a server that was constructed while the descriptors \<open>B\<close> were open, those open are exactly \<open>B\<close>, one per
  connection and the listens one of a running server, which are not in \<open>B\<close>; whenever the server is stopped, exactly \<open>B\<close> is open again.\<close>

theorem descriptors_balanced:
  assumes "constructed_over B r" and "srv_step\<^sup>*\<^sup>* r (Inr s)"
  shows "srv_open s = B \<union> fst ` set (connections s) \<union> (if running s then {listen_fd s} else {}) \<and>
    B \<inter> fst ` set (connections s) = {} \<and> (running s \<longrightarrow> listen_fd s \<notin> B) \<and> (\<exists>s'. srv_stop s = Inr s' \<and> srv_open s' = B)"
proof -
  have s: "life_ok s" "accounted B s" using descriptor_system.inv_reached [OF assms] by (simp_all add: balanced_def)
  obtain s' where s': "srv_stop s = Inr s'" using stop_life [OF s(1)] by blast
  with accounted_stop [OF s s'] s(2) show ?thesis by (auto simp: accounted_def conn_fds_def)
qed

theorem descriptors_balanced_witness:
  "\<exists>(s :: string http_server) s1 s2. srv_start 4 True True s = Inr s1 \<and> srv_open s1 = {3, 4} \<and> srv_stop s1 = Inr s2 \<and> srv_open s2 = {3}"
proof -
  obtain l :: "http_task event_loop" where l: "EventLoop_new 1 Eventfd (Inr (3, 3)) 0 = Inr l" using EventLoop_new_works by blast
  let ?s = "(HttpServer_new l Address_new 1 {3})\<lparr>srv_router := Router_new, static_dir := []\<rparr> :: string http_server"
  have c: "constructed_over {3} (Inr ?s)" using l unfolding constructed_over_def constructed_def by (auto simp: HttpServer_new_def)
  have "life_ok ?s" "4 \<notin> srv_open ?s" "\<not> running ?s" by (rule constructed_life [OF l], simp) (simp_all add: HttpServer_new_def)
  from start_life [OF this(1,2)] this(3) obtain s1 where s1: "srv_start 4 True True ?s = Inr s1" "srv_open s1 = insert 4 (srv_open ?s)"
    by (auto simp: kInvalidFd_def)
  have "srv_step\<^sup>*\<^sup>* (Inr ?s) (Inr s1)"
    using srv_step.intros [of ?s "Start 4"] s1(1) by (auto simp: kInvalidFd_def HttpServer_new_def intro!: r_into_rtranclp)
  from descriptors_balanced [OF c this] obtain s2 where "srv_stop s1 = Inr s2" "srv_open s2 = {3}" by auto
  moreover have "srv_open s1 = {3, 4}" using s1(2) by (auto simp: HttpServer_new_def)
  ultimately show ?thesis using s1(1) by blast
qed

text \<open>A loop closes what it has opened. On Linux and on Windows, when the system has handed out descriptors that were not open, the construction of a loop leaves only its wakeup descriptors open in
  addition, and its destruction in its own thread closes them, each once, and nothing else; in another thread it aborts.\<close>

lemma loop_closes_wakeup_fds:
  "(open_eventfd efd fds = Inr (w, fds') \<and> efd \<notin> fds \<and> EventLoop_new self Eventfd (Inr w) now = Inr l \<longrightarrow>
      fds' = insert efd fds \<and> EventLoop_end self l fds' = Inr fds) \<and>
    (open_socket_pair listener bound listens writer joined reader fds = Inr (w, fds') \<and> distinct [listener, writer, reader] \<and> {listener, writer, reader} \<inter> fds = {} \<and>
      EventLoop_new self (SocketPair room) (Inr w) now = Inr l \<longrightarrow>
      fds' = {reader, writer} \<union> fds \<and> EventLoop_end self l fds' = Inr fds) \<and>
    (EventLoop_new self kind (Inr w) now = Inr l \<and> other \<noteq> self \<longrightarrow> EventLoop_end other l fds' = Inl (EndFault Abort))"
proof (intro conjI impI; elim conjE)
  obtain f g where w: "w = (f, g)" by fastforce
  { assume a: "open_eventfd efd fds = Inr (w, fds')" "efd \<notin> fds" "EventLoop_new self Eventfd (Inr w) now = Inr l"
    show fds: "fds' = insert efd fds" using a(1) by (auto simp: open_eventfd_def create_eventfd_def split: if_splits)
    show "EventLoop_end self l fds' = Inr fds"
      using a fds loop_end_new(1) [OF a(3) [unfolded w], of fds'] w
      by (auto simp: open_eventfd_def create_eventfd_def close_wakeup_fds_def close_fd_def split: if_splits) }
  { assume a: "open_socket_pair listener bound listens writer joined reader fds = Inr (w, fds')" "distinct [listener, writer, reader]" "{listener, writer, reader} \<inter> fds = {}"
      "EventLoop_new self (SocketPair room) (Inr w) now = Inr l"
    show fds: "fds' = {reader, writer} \<union> fds" using a(1-3) by (auto simp: open_socket_pair_def create_socket_pair_def split: if_splits)
    show "EventLoop_end self l fds' = Inr fds"
    proof -
      have "w = (reader, writer)" using a(1) by (auto simp: open_socket_pair_def create_socket_pair_def split: if_splits)
      then show ?thesis using loop_end_new(1) [of self "SocketPair room" reader writer now l fds'] a(2-4) fds close_pair [of reader writer fds room] by simp
    qed }
  show "EventLoop_end other l fds' = Inl (EndFault Abort)" if "EventLoop_new self kind (Inr w) now = Inr l" "other \<noteq> self"
    using loop_end_new(2) [OF that(1) [unfolded w] that(2)] .
qed

end
