(* ===== verification/Winsock.thy ===== *)
theory Winsock
  imports Socket_Io
begin

text \<open>
  The Windows build of \<open>Socket\<close> (\<open>src/hound/src/io/socket.h\<close>, \<open>socket.cpp\<close>): Winsock has to be started before the first socket call and must not be shut down while a socket
  is open. A context object does both in its constructor and destructor; it is kept alive by shared pointers, one in the function-local static of \<open>ensure_wsa\<close> and one in every
  \<open>Socket\<close> that was made from a descriptor. The model adds to the store of socket objects of \<open>Socket_Io\<close> which of them hold a pointer, the use count, and
  how often Winsock has been started and shut down. The result of \<open>WSAStartup\<close> is a parameter.
\<close>

section \<open>The context\<close>

record wsa =
  socks :: sock_store
  wsa_ref :: "nat set"
  use_count :: nat
  static_ctx :: bool
  exited :: bool
  startups :: nat
  cleanups :: nat

datatype wsa_fault = StartupFailed int | NotInitialised | SockFault sock_fault

definition WsaContext_new :: "int \<Rightarrow> wsa \<Rightarrow> wsa_fault + wsa" where
  "WsaContext_new ret w = (if ret \<noteq> 0 then Inl (StartupFailed ret) else Inr (w\<lparr>startups := startups w + 1\<rparr>))"

definition WsaContext_destroy :: "wsa \<Rightarrow> wsa" where
  "WsaContext_destroy w = w\<lparr>cleanups := cleanups w + 1\<rparr>"

text \<open>The last shared pointer destroys the context.\<close>

definition drop_ref :: "wsa \<Rightarrow> wsa" where
  "drop_ref w = (let w1 = w\<lparr>use_count := use_count w - 1\<rparr> in if use_count w1 = 0 then WsaContext_destroy w1 else w1)"

text \<open>\<open>ensure_wsa\<close> returns a copy of the static pointer; \<open>ensure_networking_initialized\<close> and the factories drop it at once.\<close>

definition ensure_wsa :: "int \<Rightarrow> wsa \<Rightarrow> wsa_fault + wsa" where
  "ensure_wsa ret w =
     map_sum id (\<lambda>w1. w1\<lparr>use_count := use_count w1 + 1\<rparr>)
       (if static_ctx w then Inr w else map_sum id (\<lambda>w1. w1\<lparr>static_ctx := True, use_count := 1\<rparr>) (WsaContext_new ret w))"

definition ensure_networking_initialized :: "int \<Rightarrow> wsa \<Rightarrow> wsa_fault + wsa" where
  "ensure_networking_initialized ret w = map_sum id drop_ref (ensure_wsa ret w)"

definition release :: "nat \<Rightarrow> wsa \<Rightarrow> wsa" where
  "release x w = (if x \<in> wsa_ref w then drop_ref (w\<lparr>wsa_ref := wsa_ref w - {x}\<rparr>) else w)"

definition hold_wsa_ref :: "int \<Rightarrow> nat \<Rightarrow> wsa \<Rightarrow> wsa_fault + wsa" where
  "hold_wsa_ref ret x w = map_sum id (\<lambda>w1. let w2 = release x w1 in w2\<lparr>wsa_ref := insert x (wsa_ref w2)\<rparr>) (ensure_wsa ret w)"

text \<open>What a move does with the pointers.\<close>

definition pass_ref :: "nat \<Rightarrow> nat \<Rightarrow> wsa \<Rightarrow> wsa" where
  "pass_ref x y w = (if y \<in> wsa_ref w then w\<lparr>wsa_ref := insert x (wsa_ref w - {y})\<rparr> else w)"

section \<open>Sockets\<close>

definition winsock_up :: "wsa \<Rightarrow> bool" where
  "winsock_up w \<longleftrightarrow> cleanups w < startups w"

definition net_call :: "wsa \<Rightarrow> wsa_fault + wsa" where
  "net_call w = (if winsock_up w then Inr w else Inl NotInitialised)"

definition on_socks :: "(sock_store \<Rightarrow> sock_fault + sock_store) \<Rightarrow> wsa \<Rightarrow> wsa_fault + wsa" where
  "on_socks g w = map_sum SockFault (\<lambda>st. w\<lparr>socks := st\<rparr>) (g (socks w))"

text \<open>A factory whose system call gave the descriptor \<open>f\<close>; the new object takes a pointer.\<close>

definition win_open :: "(sock_store \<Rightarrow> sock_fault + sock_store) \<Rightarrow> int \<Rightarrow> int \<Rightarrow> nat \<Rightarrow> wsa \<Rightarrow> wsa_fault + wsa" where
  "win_open g ret f x w =
     sum_bind (net_call w) (\<lambda>w1. sum_bind (on_socks g w1) (\<lambda>w2. if f = kInvalidFd then Inr w2 else hold_wsa_ref ret x w2))"

definition win_create_tcp :: "int \<Rightarrow> bool \<Rightarrow> int \<Rightarrow> int \<Rightarrow> nat \<Rightarrow> wsa \<Rightarrow> wsa_fault + wsa" where
  "win_create_tcp ret ipv6 f errno x w =
     sum_bind (ensure_networking_initialized ret w) (win_open (\<lambda>st. map_sum id fst (create_tcp ipv6 f errno x st)) ret f x)"

definition win_create_udp :: "int \<Rightarrow> bool \<Rightarrow> int \<Rightarrow> int \<Rightarrow> nat \<Rightarrow> wsa \<Rightarrow> wsa_fault + wsa" where
  "win_create_udp ret ipv6 f errno x w =
     sum_bind (ensure_networking_initialized ret w) (win_open (\<lambda>st. map_sum id fst (create_udp ipv6 f errno x st)) ret f x)"

definition win_accept :: "int \<Rightarrow> int \<Rightarrow> int \<Rightarrow> address \<Rightarrow> nat \<Rightarrow> nat \<Rightarrow> wsa \<Rightarrow> wsa_fault + wsa" where
  "win_accept ret f errno ss len x = win_open (\<lambda>st. map_sum id fst (socket_accept f errno ss len x st)) ret f x"

text \<open>Closing calls \<open>closesocket\<close> when there is a descriptor.\<close>

definition closing :: "nat \<Rightarrow> wsa \<Rightarrow> wsa_fault + wsa" where
  "closing x w = (if sock_objs (socks w) x \<in> {None, Some kInvalidFd} then Inr w else net_call w)"

definition win_close :: "nat \<Rightarrow> wsa \<Rightarrow> wsa_fault + wsa" where
  "win_close x w = sum_bind (closing x w) (on_socks (Socket_close x))"

definition win_move :: "nat \<Rightarrow> nat \<Rightarrow> wsa \<Rightarrow> wsa_fault + wsa" where
  "win_move x y w = map_sum id (pass_ref x y) (on_socks (Socket_move x y) w)"

definition win_assign :: "nat \<Rightarrow> nat \<Rightarrow> wsa \<Rightarrow> wsa_fault + wsa" where
  "win_assign x y w =
     (if x = y then on_socks (Socket_assign x y) w
      else map_sum id (\<lambda>w1. pass_ref x y (release x w1)) (sum_bind (closing x w) (on_socks (Socket_assign x y))))"

definition win_destroy :: "nat \<Rightarrow> wsa \<Rightarrow> wsa_fault + wsa" where
  "win_destroy x w = map_sum id (release x) (sum_bind (closing x w) (on_socks (Socket_destroy x)))"

text \<open>At the end of the program the static pointer is destroyed, too.\<close>

definition win_exit :: "wsa \<Rightarrow> wsa" where
  "win_exit w = (let w1 = w\<lparr>exited := True\<rparr> in if static_ctx w then drop_ref w1 else w1)"

definition ioctl_nonblocking :: "bool \<Rightarrow> int \<Rightarrow> bool \<Rightarrow> bool" where
  "ioctl_nonblocking on ret mode = (if ret \<noteq> 0 then mode else on)"

section \<open>Programs\<close>

text \<open>\<open>accept\<close> is called on a socket that has a descriptor. After the static pointer is gone, only objects that outlive it are still used.\<close>

inductive wsa_step :: "wsa \<Rightarrow> wsa_fault + wsa \<Rightarrow> bool" where
  w_init: "\<not> exited w \<Longrightarrow> wsa_step w (ensure_networking_initialized ret w)"
| w_default: "wsa_step w (on_socks (Socket_default x) w)"
| w_tcp: "\<not> exited w \<Longrightarrow> f \<notin> open_fds (socks w) \<Longrightarrow> wsa_step w (win_create_tcp ret ipv6 f errno x w)"
| w_udp: "\<not> exited w \<Longrightarrow> f \<notin> open_fds (socks w) \<Longrightarrow> wsa_step w (win_create_udp ret ipv6 f errno x w)"
| w_accept: "\<not> exited w \<Longrightarrow> f \<notin> open_fds (socks w) \<Longrightarrow> sock_objs (socks w) y = Some g \<Longrightarrow> g \<noteq> kInvalidFd \<Longrightarrow> wsa_step w (win_accept ret f errno ss len x w)"
| w_close: "wsa_step w (win_close x w)"
| w_move: "wsa_step w (win_move x y w)"
| w_assign: "wsa_step w (win_assign x y w)"
| w_destroy: "wsa_step w (win_destroy x w)"
| w_exit: "\<not> exited w \<Longrightarrow> wsa_step w (Inr (win_exit w))"

definition wsa_start :: wsa where
  "wsa_start = \<lparr>socks = \<lparr>sock_objs = Map.empty, open_fds = {}\<rparr>, wsa_ref = {}, use_count = 0, static_ctx = False, exited = False, startups = 0, cleanups = 0\<rparr>"

inductive wsa_run :: "wsa_fault + wsa \<Rightarrow> bool" where
  wrun_start: "wsa_run (Inr wsa_start)"
| wrun_step: "wsa_run (Inr w) \<Longrightarrow> wsa_step w r \<Longrightarrow> wsa_run r"

section \<open>Counting pointers\<close>

text \<open>The use count when \<open>k\<close> pointers are held by temporaries.\<close>

definition counted :: "nat \<Rightarrow> wsa \<Rightarrow> bool" where
  "counted k w \<longleftrightarrow> finite (wsa_ref w) \<and> use_count w = card (wsa_ref w) + k + (if static_ctx w \<and> \<not> exited w then 1 else 0) \<and>
     startups w = (if static_ctx w then 1 else 0) \<and> cleanups w = (if static_ctx w \<and> use_count w = 0 then 1 else 0) \<and>
     (wsa_ref w \<noteq> {} \<or> 0 < k \<longrightarrow> static_ctx w)"

lemma counted_up: "counted k w \<Longrightarrow> static_ctx w \<Longrightarrow> 0 < use_count w \<Longrightarrow> winsock_up w"
  by (simp add: counted_def winsock_up_def)

lemma drop_ref_fields [simp]:
  "socks (drop_ref w) = socks w" "wsa_ref (drop_ref w) = wsa_ref w" "static_ctx (drop_ref w) = static_ctx w" "exited (drop_ref w) = exited w"
  by (simp_all add: drop_ref_def WsaContext_destroy_def Let_def)

lemma drop_ref_counted: "counted (Suc k) w \<Longrightarrow> counted k (drop_ref w)"
  by (auto simp: counted_def drop_ref_def WsaContext_destroy_def Let_def)

lemma ensure_counted:
  assumes "counted k w" and "\<not> exited w" and "ensure_wsa ret w = Inr w'"
  shows "counted (Suc k) w'" "socks w' = socks w" "wsa_ref w' = wsa_ref w" "exited w' = exited w" "static_ctx w'"
proof -
  have "counted (Suc k) w' \<and> socks w' = socks w \<and> wsa_ref w' = wsa_ref w \<and> exited w' = exited w \<and> static_ctx w'"
    using assms by (cases "static_ctx w") (auto simp: ensure_wsa_def WsaContext_new_def counted_def split: if_splits)
  then show "counted (Suc k) w'" "socks w' = socks w" "wsa_ref w' = wsa_ref w" "exited w' = exited w" "static_ctx w'" by simp_all
qed

lemma forget_counted: "counted k w \<Longrightarrow> x \<in> wsa_ref w \<Longrightarrow> counted (Suc k) (w\<lparr>wsa_ref := wsa_ref w - {x}\<rparr>)"
  using card_Suc_Diff1 [of "wsa_ref w" x] by (auto simp: counted_def)

lemma release_counted: "counted k w \<Longrightarrow> counted k (release x w)"
  by (auto simp: release_def intro: drop_ref_counted forget_counted)

lemma release_fields [simp]:
  "socks (release x w) = socks w" "wsa_ref (release x w) = wsa_ref w - {x}" "static_ctx (release x w) = static_ctx w" "exited (release x w) = exited w"
  by (auto simp: release_def)

lemma hold_counted:
  assumes "counted k w" and "\<not> exited w" and "hold_wsa_ref ret x w = Inr w'"
  shows "counted k w'" "socks w' = socks w" "wsa_ref w' = insert x (wsa_ref w)" "exited w' = exited w"
proof -
  obtain w1 where w1: "ensure_wsa ret w = Inr w1" and w': "w' = release x w1\<lparr>wsa_ref := insert x (wsa_ref (release x w1))\<rparr>"
    using assms(3) by (auto simp: hold_wsa_ref_def Let_def map_sum_Inr_iff)
  note e = ensure_counted [OF assms(1,2) w1]
  have "counted (Suc k) (release x w1)" by (rule release_counted [OF e(1)])
  then show "counted k w'" using w' by (auto simp: counted_def card.insert_remove)
  show "socks w' = socks w" "wsa_ref w' = insert x (wsa_ref w)" "exited w' = exited w" using w' e by simp_all
qed

lemma pass_counted: "counted k w \<Longrightarrow> x \<notin> wsa_ref w \<Longrightarrow> counted k (pass_ref x y w)"
  using card_Suc_Diff1 [of "wsa_ref w" y] by (auto simp: counted_def pass_ref_def)

section \<open>Invariant\<close>

text \<open>Every socket with a descriptor holds a pointer.\<close>

definition covered :: "wsa \<Rightarrow> bool" where
  "covered w \<longleftrightarrow> wsa_ref w \<subseteq> dom (sock_objs (socks w)) \<and> (\<forall>x f. sock_objs (socks w) x = Some f \<and> f \<noteq> kInvalidFd \<longrightarrow> x \<in> wsa_ref w)"

definition wsa_ok :: "wsa \<Rightarrow> bool" where
  "wsa_ok w \<longleftrightarrow> counted 0 w \<and> covered w \<and> sock_run (Inr (socks w))"

definition wsa_fine :: "wsa_fault + wsa \<Rightarrow> bool" where
  "wsa_fine r \<longleftrightarrow> (\<exists>w. r = Inr w \<and> wsa_ok w) \<or> (\<exists>e. r = Inl (StartupFailed e)) \<or> (\<exists>e. r = Inl (SockFault e) \<and> sock_run (Inl e))"

lemma wsa_fine_Inr [simp]: "wsa_fine (Inr w) = wsa_ok w"
  by (simp add: wsa_fine_def)

lemma wsa_fine_bind: "wsa_fine r \<Longrightarrow> (\<And>w. r = Inr w \<Longrightarrow> wsa_ok w \<Longrightarrow> wsa_fine (g w)) \<Longrightarrow> wsa_fine (sum_bind r g)"
  unfolding wsa_fine_def by (metis sum_bind.simps)

lemma on_socks_cases:
  assumes "sock_run (Inr (socks w))" and "sock_step (socks w) (g (socks w))"
  shows "(\<exists>e. on_socks g w = Inl (SockFault e) \<and> sock_run (Inl e)) \<or> (\<exists>st. g (socks w) = Inr st \<and> on_socks g w = Inr (w\<lparr>socks := st\<rparr>) \<and> sock_run (Inr st))"
proof -
  have run: "sock_run (g (socks w))" using assms by (rule run_step)
  show ?thesis
  proof (cases "g (socks w)")
    case (Inl e)
    then show ?thesis using run by (simp add: on_socks_def)
  next
    case (Inr st)
    then show ?thesis using run by (simp add: on_socks_def)
  qed
qed

lemma counted_socks [simp]: "counted k (w\<lparr>socks := st\<rparr>) = counted k w"
  by (simp add: counted_def)

text \<open>A socket call is made while Winsock is up.\<close>

lemma covered_up:
  assumes "counted 0 w" and "covered w" and "sock_objs (socks w) x = Some f" and "f \<noteq> kInvalidFd"
  shows "winsock_up w"
proof -
  have "x \<in> wsa_ref w" using assms(2-4) by (auto simp: covered_def)
  then have "static_ctx w" "0 < use_count w" using assms(1) by (auto simp: counted_def card_gt_0_iff)
  then show ?thesis by (rule counted_up [OF assms(1)])
qed

lemma closing_up: "wsa_ok w \<Longrightarrow> closing x w = Inr w"
  using covered_up [of w x] by (cases "sock_objs (socks w) x") (auto simp: closing_def net_call_def wsa_ok_def)

text \<open>Each operation: what it does to the objects and to the pointers fits.\<close>

lemma init_fine:
  assumes "wsa_ok w" and "\<not> exited w"
  shows "wsa_fine (ensure_networking_initialized ret w)"
    "ensure_networking_initialized ret w = Inr w' \<Longrightarrow> winsock_up w' \<and> socks w' = socks w \<and> exited w' = exited w"
proof -
  have fields: "counted 0 (drop_ref w1) \<and> covered (drop_ref w1) \<and> socks (drop_ref w1) = socks w \<and> exited (drop_ref w1) = exited w \<and> winsock_up (drop_ref w1)"
    if e: "ensure_wsa ret w = Inr w1" for w1
  proof -
    have "counted 0 w" using assms(1) by (simp add: wsa_ok_def)
    note e = ensure_counted [OF this assms(2) e]
    have c: "counted 0 (drop_ref w1)" by (rule drop_ref_counted [OF e(1)])
    then have "0 < use_count (drop_ref w1)" using e(4,5) assms unfolding counted_def wsa_ok_def by simp
    then show ?thesis using c counted_up [OF c] e assms(1) by (simp add: wsa_ok_def covered_def)
  qed
  show "wsa_fine (ensure_networking_initialized ret w)"
  proof (cases "ensure_wsa ret w")
    case (Inl e)
    then have "\<exists>i. e = StartupFailed i" by (auto simp: ensure_wsa_def WsaContext_new_def split: if_splits)
    then show ?thesis using Inl by (auto simp: ensure_networking_initialized_def wsa_fine_def)
  next
    case (Inr w1)
    then show ?thesis using fields [OF Inr] assms(1) by (simp add: ensure_networking_initialized_def wsa_ok_def)
  qed
  show "winsock_up w' \<and> socks w' = socks w \<and> exited w' = exited w" if "ensure_networking_initialized ret w = Inr w'"
    using that fields by (auto simp: ensure_networking_initialized_def map_sum_Inr_iff)
qed

lemma win_open_fine:
  assumes "wsa_ok w" and "\<not> exited w" and "winsock_up w" and "sock_step (socks w) (g (socks w))"
    and "\<And>st. g (socks w) = Inr st \<Longrightarrow> sock_objs st = (if f = kInvalidFd then sock_objs (socks w) else (sock_objs (socks w))(x \<mapsto> f))"
  shows "wsa_fine (win_open g ret f x w)"
proof -
  have run: "sock_run (Inr (socks w))" using assms(1) by (simp add: wsa_ok_def)
  have net: "net_call w = Inr w" using assms(3) by (simp add: net_call_def)
  consider e where "on_socks g w = Inl (SockFault e)" "sock_run (Inl e)"
    | st where "g (socks w) = Inr st" "on_socks g w = Inr (w\<lparr>socks := st\<rparr>)" "sock_run (Inr st)"
    using on_socks_cases [where g = g, OF run assms(4)] by blast
  then show ?thesis
  proof cases
    case (2 st)
    note objs = assms(5) [OF 2(1)]
    show ?thesis
    proof (cases "f = kInvalidFd")
      case True
      then show ?thesis using 2 net objs assms(1) by (simp add: win_open_def wsa_ok_def covered_def)
    next
      case False
      let ?w = "w\<lparr>socks := st\<rparr>"
      have c: "counted 0 ?w" "\<not> exited ?w" using assms(1,2) by (simp_all add: wsa_ok_def)
      show ?thesis
      proof (cases "hold_wsa_ref ret x ?w")
        case (Inl e)
        then have "\<exists>i. e = StartupFailed i" by (auto simp: hold_wsa_ref_def ensure_wsa_def WsaContext_new_def split: if_splits)
        then show ?thesis using 2(2) net Inl False by (auto simp: win_open_def wsa_fine_def)
      next
        case (Inr w')
        note h = hold_counted [OF c Inr]
        have "covered w'" using assms(1) objs False h(2,3) by (auto simp: wsa_ok_def covered_def split: if_splits)
        then show ?thesis using 2(2,3) net Inr False h(1,2) by (simp add: win_open_def wsa_ok_def)
      qed
    qed
  qed (use net in \<open>auto simp: win_open_def wsa_fine_def\<close>)
qed

text \<open>The operations that end in a change of pointers.\<close>

lemma socks_then_fine:
  assumes "wsa_ok w" and "sock_step (socks w) (g (socks w))"
    and "\<And>st. g (socks w) = Inr st \<Longrightarrow> counted 0 (h (w\<lparr>socks := st\<rparr>)) \<and> covered (h (w\<lparr>socks := st\<rparr>)) \<and> socks (h (w\<lparr>socks := st\<rparr>)) = st"
  shows "wsa_fine (map_sum id h (on_socks g w))"
proof -
  have "sock_run (Inr (socks w))" using assms(1) by (simp add: wsa_ok_def)
  from on_socks_cases [where g = g, OF this assms(2)] show ?thesis
    using assms(3) by (auto simp: wsa_fine_def wsa_ok_def)
qed

lemma new_obj_Inr: "new_obj x f st = Inr st' \<longleftrightarrow> sock_objs st x = None \<and> st' = st\<lparr>sock_objs := (sock_objs st)(x \<mapsto> f)\<rparr>"
  by (auto simp: new_obj_def split: option.splits)

lemma default_fine:
  assumes "wsa_ok w"
  shows "wsa_fine (on_socks (Socket_default x) w)"
proof -
  have "wsa_fine (map_sum id (\<lambda>w. w) (on_socks (Socket_default x) w))"
    using assms by (intro socks_then_fine step_default) (auto simp: Socket_default_def new_obj_Inr wsa_ok_def covered_def split: if_splits)
  then show ?thesis by (simp add: sum.map_ident id_def)
qed

lemma close_objs:
  "Socket_close x st = Inr st' \<Longrightarrow> sock_objs st' = (if sock_objs st x = Some kInvalidFd then sock_objs st else (sock_objs st)(x \<mapsto> kInvalidFd)) \<and> sock_objs st x \<noteq> None"
  by (auto simp: Socket_close_def split: option.splits if_splits)

lemma close_fine:
  assumes "wsa_ok w"
  shows "wsa_fine (win_close x w)"
proof -
  have "wsa_fine (map_sum id (\<lambda>w. w) (on_socks (Socket_close x) w))"
    using assms by (intro socks_then_fine step_close) (auto simp: wsa_ok_def covered_def dest!: close_objs split: if_splits)
  then show ?thesis using closing_up [OF assms] by (simp add: win_close_def sum.map_ident id_def)
qed

lemma move_fine:
  assumes "wsa_ok w"
  shows "wsa_fine (win_move x y w)"
  unfolding win_move_def
proof (rule socks_then_fine [where g = "Socket_move x y", OF assms step_move])
  fix st assume "Socket_move x y (socks w) = Inr st"
  then obtain f where f: "sock_objs (socks w) y = Some f" "sock_objs (socks w) x = None" "sock_objs st = (sock_objs (socks w))(x \<mapsto> f, y \<mapsto> kInvalidFd)"
    by (auto simp: Socket_move_def new_obj_Inr split: option.splits sum.splits)
  have "x \<notin> wsa_ref w" "counted 0 w" "covered w" using assms f(2) by (auto simp: wsa_ok_def covered_def)
  moreover from this have "counted 0 (pass_ref x y (w\<lparr>socks := st\<rparr>))" by (intro pass_counted) simp_all
  ultimately show "counted 0 (pass_ref x y (w\<lparr>socks := st\<rparr>)) \<and> covered (pass_ref x y (w\<lparr>socks := st\<rparr>)) \<and> socks (pass_ref x y (w\<lparr>socks := st\<rparr>)) = st"
    using f by (auto simp: covered_def pass_ref_def split: if_splits)
qed

lemma destroy_fine:
  assumes "wsa_ok w"
  shows "wsa_fine (win_destroy x w)"
proof -
  have "wsa_fine (map_sum id (release x) (on_socks (Socket_destroy x) w))"
  proof (rule socks_then_fine [where g = "Socket_destroy x", OF assms step_destroy])
    fix st assume "Socket_destroy x (socks w) = Inr st"
    then have "sock_objs st = (sock_objs (socks w))(x := None)"
      by (auto simp: Socket_destroy_def fun_eq_iff split: sum.splits dest!: close_objs)
    then show "counted 0 (release x (w\<lparr>socks := st\<rparr>)) \<and> covered (release x (w\<lparr>socks := st\<rparr>)) \<and> socks (release x (w\<lparr>socks := st\<rparr>)) = st"
      using assms by (auto simp: wsa_ok_def covered_def release_counted split: if_splits)
  qed
  then show ?thesis using closing_up [OF assms] by (simp add: win_destroy_def)
qed

lemma assign_fine:
  assumes "wsa_ok w"
  shows "wsa_fine (win_assign x y w)"
proof (cases "x = y")
  case True
  have "wsa_fine (map_sum id (\<lambda>w. w) (on_socks (Socket_assign x x) w))"
    using assms by (intro socks_then_fine step_assign) (auto simp: Socket_assign_def wsa_ok_def split: if_splits)
  then show ?thesis using True by (simp add: win_assign_def sum.map_ident id_def)
next
  case False
  have "wsa_fine (map_sum id (\<lambda>w1. pass_ref x y (release x w1)) (on_socks (Socket_assign x y) w))"
  proof (rule socks_then_fine [where g = "Socket_assign x y", OF assms step_assign])
    fix st assume "Socket_assign x y (socks w) = Inr st"
    then obtain f where f: "sock_objs (socks w) y = Some f" "sock_objs st = (sock_objs (socks w))(x \<mapsto> f, y \<mapsto> kInvalidFd)" "sock_objs (socks w) x \<noteq> None"
      using False by (auto simp: Socket_assign_def fun_eq_iff split: sum.splits if_splits dest!: close_objs)
    let ?w = "release x (w\<lparr>socks := st\<rparr>)"
    have "counted 0 ?w" using assms by (simp add: release_counted wsa_ok_def)
    then have "counted 0 (pass_ref x y ?w)" by (rule pass_counted) simp
    then show "counted 0 (pass_ref x y ?w) \<and> covered (pass_ref x y ?w) \<and> socks (pass_ref x y ?w) = st"
      using assms f False by (auto simp: wsa_ok_def covered_def pass_ref_def split: if_splits)
  qed
  then show ?thesis using False closing_up [OF assms] by (simp add: win_assign_def)
qed

lemma exit_fine:
  assumes "wsa_ok w" and "\<not> exited w"
  shows "wsa_ok (win_exit w)"
proof (cases "static_ctx w")
  case True
  have "counted (Suc 0) (w\<lparr>exited := True\<rparr>)" using assms True by (auto simp: wsa_ok_def counted_def)
  from drop_ref_counted [OF this] show ?thesis using assms True by (simp add: win_exit_def wsa_ok_def covered_def)
next
  case False
  then show ?thesis using assms by (auto simp: win_exit_def wsa_ok_def covered_def counted_def)
qed

lemma created_objs:
  "map_sum id fst (create_tcp ipv6 f errno x st) = Inr st' \<Longrightarrow> sock_objs st' = (if f = kInvalidFd then sock_objs st else (sock_objs st)(x \<mapsto> f))"
  "map_sum id fst (create_udp ipv6 f errno x st) = Inr st' \<Longrightarrow> sock_objs st' = (if f = kInvalidFd then sock_objs st else (sock_objs st)(x \<mapsto> f))"
  "map_sum id fst (socket_accept f errno ss len x st) = Inr st' \<Longrightarrow> sock_objs st' = (if f = kInvalidFd then sock_objs st else (sock_objs st)(x \<mapsto> f))"
  by (auto simp: create_tcp_def create_udp_def socket_accept_def map_sum_Inr_iff new_obj_Inr split: if_splits)

lemma wsa_step_fine:
  assumes "wsa_step w r" and "wsa_ok w"
  shows "wsa_fine r"
  using assms
proof (cases rule: wsa_step.cases)
  case (w_tcp f ret ipv6 errno x)
  show ?thesis unfolding w_tcp(1) win_create_tcp_def
  proof (rule wsa_fine_bind [OF init_fine(1) [OF assms(2) w_tcp(2)]])
    fix w' assume w': "ensure_networking_initialized ret w = Inr w'" "wsa_ok w'"
    note i = init_fine(2) [OF assms(2) w_tcp(2) w'(1)]
    show "wsa_fine (win_open (\<lambda>st. map_sum id fst (create_tcp ipv6 f errno x st)) ret f x w')"
      using i w_tcp(2,3) by (intro win_open_fine [OF w'(2)] step_tcp) (auto dest: created_objs)
  qed
next
  case (w_udp f ret ipv6 errno x)
  show ?thesis unfolding w_udp(1) win_create_udp_def
  proof (rule wsa_fine_bind [OF init_fine(1) [OF assms(2) w_udp(2)]])
    fix w' assume w': "ensure_networking_initialized ret w = Inr w'" "wsa_ok w'"
    note i = init_fine(2) [OF assms(2) w_udp(2) w'(1)]
    show "wsa_fine (win_open (\<lambda>st. map_sum id fst (create_udp ipv6 f errno x st)) ret f x w')"
      using i w_udp(2,3) by (intro win_open_fine [OF w'(2)] step_udp) (auto dest: created_objs)
  qed
next
  case (w_accept f y g ret errno ss len x)
  have "winsock_up w" using covered_up [OF _ _ w_accept(4,5)] assms(2) by (simp add: wsa_ok_def)
  then show ?thesis unfolding w_accept(1) win_accept_def
    using w_accept(2,3) by (intro win_open_fine [OF assms(2)] step_accept) (auto dest: created_objs)
qed (use assms(2) in \<open>simp_all add: init_fine default_fine close_fine move_fine assign_fine destroy_fine exit_fine\<close>)

lemma wsa_run_fine: "wsa_run r \<Longrightarrow> wsa_fine r"
proof (induction rule: wsa_run.induct)
  case wrun_start
  then show ?case by (simp add: wsa_ok_def wsa_start_def counted_def covered_def run_start)
next
  case (wrun_step w r)
  then show ?case using wsa_step_fine by simp
qed

section \<open>Properties\<close>

text \<open>C32. Winsock is up whenever a socket call is made. In every program that creates, accepts, moves, assigns, closes and destroys sockets in any order, also after \<open>main\<close> has returned, Winsock is started at
  most once, no call of \<open>socket\<close>, \<open>accept\<close> or \<open>closesocket\<close> is made while it is not started, no descriptor is closed twice, and as long as a descriptor is open Winsock has been started and not shut down. It is
  shut down only after the program's end, when the last object with a pointer is gone, however many sockets have come and gone before.\<close>

theorem winsock_covers_sockets:
  assumes "wsa_run r"
  shows "r \<noteq> Inl NotInitialised \<and> (\<forall>f. r \<noteq> Inl (SockFault (BadClose f))) \<and>
    (\<forall>w. r = Inr w \<longrightarrow> startups w \<le> 1 \<and> (open_fds (socks w) \<noteq> {} \<longrightarrow> startups w = 1 \<and> cleanups w = 0) \<and>
       (cleanups w \<noteq> 0 \<longrightarrow> exited w \<and> wsa_ref w = {}))"
proof (intro conjI allI impI)
  note fine = wsa_run_fine [OF assms]
  show "r \<noteq> Inl NotInitialised" using fine by (auto simp: wsa_fine_def)
  show "r \<noteq> Inl (SockFault (BadClose f))" for f using fine sock_run_keeps by (fastforce simp: wsa_fine_def keeps_def)
  fix w assume "r = Inr w"
  then have ok: "counted 0 w" "covered w" "sock_run (Inr (socks w))" using fine by (simp_all add: wsa_ok_def)
  show "startups w \<le> 1" using ok(1) by (simp add: counted_def)
  show "exited w" "wsa_ref w = {}" if "cleanups w \<noteq> 0" using that ok(1) by (auto simp: counted_def split: if_splits)
  assume "open_fds (socks w) \<noteq> {}"
  moreover have "open_fds (socks w) = ran (sock_objs (socks w)) - {kInvalidFd}" using sock_run_keeps [OF ok(3)] by (simp add: sock_ok_def held_def)
  ultimately obtain x f where "sock_objs (socks w) x = Some f" "f \<noteq> kInvalidFd" by (auto simp: ran_def)
  from covered_up [OF ok(1,2) this] ok(1) show "startups w = 1" "cleanups w = 0"
    by (auto simp: winsock_up_def counted_def split: if_splits)
qed

theorem winsock_covers_sockets_witness:
  "\<exists>w. wsa_run (Inr w) \<and> open_fds (socks w) = {5} \<and> exited w \<and> startups w = 1 \<and> cleanups w = 0"
proof -
  let ?w1 = "\<lparr>socks = \<lparr>sock_objs = [1 \<mapsto> 5], open_fds = {5}\<rparr>, wsa_ref = {1}, use_count = 2, static_ctx = True, exited = False, startups = 1, cleanups = 0\<rparr>"
  have "wsa_run (win_create_tcp 0 False 5 0 1 wsa_start)"
    by (rule wrun_step [OF wrun_start w_tcp]) (simp_all add: wsa_start_def)
  moreover have "win_create_tcp 0 False 5 0 1 wsa_start = Inr ?w1"
    by (simp add: win_create_tcp_def win_open_def ensure_networking_initialized_def ensure_wsa_def WsaContext_new_def drop_ref_def net_call_def winsock_up_def
        on_socks_def create_tcp_def new_obj_def hold_wsa_ref_def release_def wsa_start_def kInvalidFd_def)
  ultimately have "wsa_run (Inr ?w1)" by simp
  from wrun_step [OF this w_exit] have "wsa_run (Inr (win_exit ?w1))" by simp
  from this winsock_covers_sockets [OF this] show ?thesis
    by (intro exI [of _ "win_exit ?w1"]) (simp add: win_exit_def drop_ref_def)
qed

end
