(* ===== verification/Coro_Scheduler.thy ===== *)
theory Coro_Scheduler
  imports Event_Loop Socket_Io
begin

text \<open>
  Coroutines (\<open>src/hound/src/coro/coroutine.h\<close>, \<open>coroutine.cpp\<close>), their scheduler (\<open>scheduler.h\<close>, \<open>scheduler.cpp\<close>) and the
  input and output calls they use (\<open>hook.h\<close>, \<open>hook.cpp\<close>). The function of a coroutine is given as the tree of the
  calls it makes, with what it does after each result. The tree may be infinite, as the function may loop, with or without calls;
  switching contexts is running the tree up to the next
  \<open>yield\<close>, and what is left of the tree is the saved context. A stretch that never yields has no result, \<^const>\<open>None\<close>. A system call is answered by \<open>sys\<close>, the sequence
  of results with \<open>errno\<close> after each.
\<close>

section \<open>Coroutines and the scheduler\<close>

datatype co_state = READY | RUNNING | SUSPENDED | DONE

text \<open>A function makes these calls: \<open>Local\<close> is a step of its own computation, \<open>Current\<close> is \<open>Coroutine::current()\<close> with its shared pointer, \<open>New\<close> makes a coroutine, \<open>Schedule\<close> and \<open>Create\<close> are
  the calls of the scheduler, and the rest are \<open>yield\<close> and the calls of \<open>hook.h\<close>; \<open>Connecting\<close> and \<open>Sleeping\<close> are the second halves of \<open>co_connect\<close> and
  \<open>co_sleep\<close>. A shared pointer is the number of the coroutine it points to.\<close>

codatatype co_prog =
    Return
  | Local co_prog
  | Yield co_prog
  | Read int "int \<Rightarrow> co_prog"
  | Write int "int \<Rightarrow> co_prog"
  | Accept int "int \<Rightarrow> co_prog"
  | Connect int "int \<Rightarrow> co_prog"
  | Connecting "int \<Rightarrow> co_prog"
  | Sleep rat co_prog
  | Sleeping nat co_prog
  | Current "nat \<Rightarrow> co_prog"
  | New co_prog "nat \<Rightarrow> co_prog"
  | Schedule nat co_prog
  | Create co_prog co_prog

record coroutine =
  co_state :: co_state
  co_prog :: co_prog

text \<open>The timer callback of \<open>co_sleep\<close>: set the flag, schedule the coroutine.\<close>

datatype co_timer = WakeSleeper nat nat

record scheduler =
  sched_loop :: "co_timer event_loop"
  coroutines :: "nat \<rightharpoonup> coroutine"
  next_co_id :: nat
  ready_queue :: "nat list"
  waiting_for_read :: "(int \<times> nat) list"
  waiting_for_write :: "(int \<times> nat) list"
  current_co :: "nat option"
  next_chan :: addr
  sleep_flags :: "nat \<rightharpoonup> bool"
  next_flag :: nat
  sys_calls :: nat

datatype co_fault = CoAbort | CoLoop loop_fault

definition Scheduler_new :: "co_timer event_loop \<Rightarrow> addr \<Rightarrow> scheduler" where
  "Scheduler_new l a =
     \<lparr>sched_loop = l, coroutines = Map.empty, next_co_id = 1, ready_queue = [], waiting_for_read = [],
      waiting_for_write = [], current_co = None, next_chan = a, sleep_flags = Map.empty, next_flag = 0, sys_calls = 0\<rparr>"

definition schedule :: "nat \<Rightarrow> scheduler \<Rightarrow> scheduler" where
  "schedule co s = s\<lparr>ready_queue := ready_queue s @ [co]\<rparr>"

text \<open>The constructor of a coroutine takes the next number.\<close>

definition new_coroutine :: "co_prog \<Rightarrow> scheduler \<Rightarrow> nat \<times> scheduler" where
  "new_coroutine func s =
     (let i = next_co_id s
      in (i, s\<lparr>coroutines := (coroutines s)(i \<mapsto> \<lparr>co_state = READY, co_prog = func\<rparr>), next_co_id := i + 1\<rparr>))"

definition create_coroutine :: "co_prog \<Rightarrow> scheduler \<Rightarrow> scheduler" where
  "create_coroutine func s = (let (co, s1) = new_coroutine func s in schedule co s1)"

text \<open>Each wait allocates a channel that nothing frees.\<close>

definition watch :: "(channel \<Rightarrow> channel) \<Rightarrow> (addr \<Rightarrow> poller \<Rightarrow> poll_fault + poller) \<Rightarrow> int \<Rightarrow> scheduler \<Rightarrow> co_fault + scheduler" where
  "watch setcb enable f s =
     (let a = next_chan s;
          p = loop_poller (sched_loop s);
          l = (sched_loop s)\<lparr>loop_poller := p\<lparr>heap := (heap p)(a \<mapsto> setcb (Channel_new f))\<rparr>\<rparr>
      in map_sum CoLoop (\<lambda>l. s\<lparr>sched_loop := l, next_chan := a + 1\<rparr>) (with_poller (thread_id l) (enable a) l))"

definition wait_for_read :: "int \<Rightarrow> scheduler \<Rightarrow> co_fault + scheduler" where
  "wait_for_read f s =
     (case current_co s of
        None \<Rightarrow> Inr s
      | Some co \<Rightarrow>
          watch (\<lambda>ch. ch\<lparr>read_callback := True\<rparr>) enable_reading f (s\<lparr>waiting_for_read := AList.update f co (waiting_for_read s)\<rparr>))"

definition wait_for_write :: "int \<Rightarrow> scheduler \<Rightarrow> co_fault + scheduler" where
  "wait_for_write f s =
     (case current_co s of
        None \<Rightarrow> Inr s
      | Some co \<Rightarrow>
          watch (\<lambda>ch. ch\<lparr>write_callback := True\<rparr>) enable_writing f (s\<lparr>waiting_for_write := AList.update f co (waiting_for_write s)\<rparr>))"

definition on_fd_ready :: "int \<Rightarrow> scheduler \<Rightarrow> scheduler" where
  "on_fd_ready f s =
     (case map_of (waiting_for_read s) f of
        Some co \<Rightarrow> schedule co (s\<lparr>waiting_for_read := AList.delete f (waiting_for_read s)\<rparr>)
      | None \<Rightarrow>
          (case map_of (waiting_for_write s) f of
             Some co \<Rightarrow> schedule co (s\<lparr>waiting_for_write := AList.delete f (waiting_for_write s)\<rparr>)
           | None \<Rightarrow> s))"

section \<open>The input and output calls\<close>

definition would_block :: "int \<Rightarrow> bool" where
  "would_block errno \<longleftrightarrow> errno = EAGAIN"

definition next_sys :: "(nat \<Rightarrow> int \<times> int) \<Rightarrow> scheduler \<Rightarrow> (int \<times> int) \<times> scheduler" where
  "next_sys sys s = (sys (sys_calls s), s\<lparr>sys_calls := sys_calls s + 1\<rparr>)"

text \<open>Outside a coroutine, where there is no scheduler, each call is the plain system call.\<close>

definition plain_call :: "(nat \<Rightarrow> int \<times> int) \<Rightarrow> scheduler \<Rightarrow> int \<times> scheduler" where
  "plain_call sys s = (case next_sys sys s of ((n, errno), s1) \<Rightarrow> (n, s1))"

text \<open>The first half of \<open>co_sleep\<close>: a flag that is not set, and the timer that will set it.\<close>

definition sleep_timer :: "timestamp \<Rightarrow> rat \<Rightarrow> nat \<Rightarrow> scheduler \<Rightarrow> nat \<times> scheduler" where
  "sleep_timer now seconds me s =
     (let i = next_flag s;
          (t, l) = run_after now seconds (WakeSleeper i me) (sched_loop s)
      in (i, s\<lparr>sched_loop := l, next_flag := i + 1, sleep_flags := (sleep_flags s)(i \<mapsto> False)\<rparr>))"

text \<open>One call of the running coroutine, \<open>me\<close>: the coroutine goes on with the rest of its function, or it leaves, with a fault, by a \<open>yield\<close> with the rest
  of its function, or at its end. A call that would block registers its descriptor and yields; when the coroutine is resumed it starts over, which is the \<open>for (;;)\<close>
  of the call.\<close>

type_synonym activation = "co_fault + co_prog option \<times> scheduler"

datatype co_next = GoesOn co_prog scheduler | Leaves activation

definition yields :: "co_prog \<Rightarrow> co_fault + scheduler \<Rightarrow> co_next" where
  "yields p r = Leaves (map_sum id (\<lambda>s. (Some p, s)) r)"

definition co_call :: "co_prog \<Rightarrow> (nat \<Rightarrow> int \<times> int) \<Rightarrow> timestamp \<Rightarrow> nat \<Rightarrow> scheduler \<Rightarrow> co_next" where
  "co_call p sys now me s =
     (case p of
        Return \<Rightarrow> Leaves (Inr (None, s))
      | Local q \<Rightarrow> GoesOn q s
      | Yield q \<Rightarrow> yields q (Inr s)
      | Read f k \<Rightarrow>
          (case next_sys sys s of
             ((n, errno), s1) \<Rightarrow>
               if n > 0 then GoesOn (k n) s1
               else if n = 0 then GoesOn (k 0) s1
               else if would_block errno then yields (Read f k) (wait_for_read f s1)
               else GoesOn (k (- 1)) s1)
      | Write f k \<Rightarrow>
          (case next_sys sys s of
             ((n, errno), s1) \<Rightarrow>
               if n > 0 then GoesOn (k n) s1
               else if would_block errno then yields (Write f k) (wait_for_write f s1)
               else GoesOn (k (- 1)) s1)
      | Accept f k \<Rightarrow>
          (case next_sys sys s of
             ((n, errno), s1) \<Rightarrow>
               if n \<ge> 0 then GoesOn (k n) s1
               else if would_block errno then yields (Accept f k) (wait_for_read f s1)
               else GoesOn (k (- 1)) s1)
      | Connect f k \<Rightarrow>
          (case next_sys sys s of
             ((ret, errno), s1) \<Rightarrow>
               if ret = 0 then GoesOn (k 0) s1
               else if would_block errno \<or> errno = EINPROGRESS then yields (Connecting k) (wait_for_write f s1)
               else GoesOn (k (- 1)) s1)
      | Connecting k \<Rightarrow>
          (case next_sys sys s of
             ((ret, err), s1) \<Rightarrow> if err \<noteq> 0 then GoesOn (k (- 1)) s1 else GoesOn (k 0) s1)
      | Sleep seconds q \<Rightarrow> (case sleep_timer now seconds me s of (i, s1) \<Rightarrow> yields (Sleeping i q) (Inr s1))
      | Sleeping i q \<Rightarrow> if sleep_flags s i = Some True then GoesOn q s else yields (Sleeping i q) (Inr s)
      | Current k \<Rightarrow> GoesOn (k me) s
      | New func k \<Rightarrow> (case new_coroutine func s of (co, s1) \<Rightarrow> GoesOn (k co) s1)
      | Schedule co q \<Rightarrow> GoesOn q (schedule co s)
      | Create func q \<Rightarrow> GoesOn q (create_coroutine func s))"

text \<open>One activation: up to the next \<open>yield\<close> or the end; there is no result when the function never gets there.\<close>

partial_function (option) run_prog :: "co_prog \<Rightarrow> (nat \<Rightarrow> int \<times> int) \<Rightarrow> timestamp \<Rightarrow> nat \<Rightarrow> scheduler \<Rightarrow> activation option" where
  "run_prog p sys now me s =
     (case co_call p sys now me s of
        GoesOn q s1 \<Rightarrow> run_prog q sys now me s1
      | Leaves a \<Rightarrow> Some a)"

definition fire_sleeper :: "co_timer \<Rightarrow> scheduler \<Rightarrow> scheduler" where
  "fire_sleeper t s =
     (case t of WakeSleeper i co \<Rightarrow> schedule co (s\<lparr>sleep_flags := (sleep_flags s)(i \<mapsto> True)\<rparr>))"

section \<open>Running\<close>

definition set_co :: "nat \<Rightarrow> coroutine \<Rightarrow> scheduler \<Rightarrow> scheduler" where
  "set_co i co s = s\<lparr>coroutines := (coroutines s)(i \<mapsto> co)\<rparr>"

text \<open>\<open>resume\<close> with both switches, and \<open>entry_point\<close> for a function that returns.\<close>

definition resume :: "(nat \<Rightarrow> int \<times> int) \<Rightarrow> timestamp \<Rightarrow> nat \<Rightarrow> scheduler \<Rightarrow> (co_fault + scheduler) option" where
  "resume sys now i s =
     (case coroutines s i of
        None \<Rightarrow> Some (Inl CoAbort)
      | Some co \<Rightarrow>
          (case run_prog (co_prog co) sys now i ((set_co i (co\<lparr>co_state := RUNNING\<rparr>) s)\<lparr>current_co := Some i\<rparr>) of
             None \<Rightarrow> None
           | Some (Inl e) \<Rightarrow> Some (Inl e)
           | Some (Inr (rest, s1)) \<Rightarrow>
               Some (Inr ((set_co i (case rest of None \<Rightarrow> \<lparr>co_state = DONE, co_prog = Return\<rparr>
                                                | Some p \<Rightarrow> \<lparr>co_state = SUSPENDED, co_prog = p\<rparr>) s1)\<lparr>current_co := None\<rparr>))))"

text \<open>The loop of \<open>tick\<close>, with the coroutines it resumed, and its result. Coroutines may queue others, and themselves, while it runs; the first argument bounds the number
  of coroutines taken from the queue.\<close>

fun tick_loop :: "nat \<Rightarrow> (nat \<Rightarrow> int \<times> int) \<Rightarrow> timestamp \<Rightarrow> scheduler \<Rightarrow> nat list \<Rightarrow> (co_fault + nat list \<times> scheduler) option" where
  "tick_loop n sys now s trail =
     (case ready_queue s of
        [] \<Rightarrow> Some (Inr (trail, s))
      | i # q \<Rightarrow>
          (case n of
             0 \<Rightarrow> None
           | Suc n' \<Rightarrow>
               (let s1 = s\<lparr>ready_queue := q\<rparr>
                in case coroutines s1 i of
                     None \<Rightarrow> Some (Inl CoAbort)
                   | Some co \<Rightarrow>
                       if co_state co = DONE then tick_loop n' sys now s1 trail
                       else (case resume sys now i s1 of
                               None \<Rightarrow> None
                             | Some (Inl e) \<Rightarrow> Some (Inl e)
                             | Some (Inr s2) \<Rightarrow> tick_loop n' sys now s2 (trail @ [i])))))"

declare tick_loop.simps [simp del]

definition sched_tick :: "nat \<Rightarrow> (nat \<Rightarrow> int \<times> int) \<Rightarrow> timestamp \<Rightarrow> scheduler \<Rightarrow> (co_fault + bool \<times> scheduler) option" where
  "sched_tick n sys now s =
     (if ready_queue s = [] then Some (Inr (False, s))
      else case tick_loop n sys now s [] of
             None \<Rightarrow> None
           | Some (Inl e) \<Rightarrow> Some (Inl e)
           | Some (Inr (trail, s1)) \<Rightarrow>
               Some (Inr (waiting_for_read s1 \<noteq> [] \<or> waiting_for_write s1 \<noteq> [] \<or> ready_queue s1 \<noteq> [], s1)))"

definition ready_count :: "scheduler \<Rightarrow> nat" where
  "ready_count s = length (ready_queue s)"

definition waiting_count :: "scheduler \<Rightarrow> nat" where
  "waiting_count s = length (waiting_for_read s) + length (waiting_for_write s)"

section \<open>Invariant\<close>

definition fresh_ids :: "scheduler \<Rightarrow> bool" where
  "fresh_ids s \<longleftrightarrow> (\<forall>i \<ge> next_co_id s. coroutines s i = None)"

lemma fresh_ids_frame [simp]:
  "fresh_ids (s\<lparr>sched_loop := l\<rparr>) = fresh_ids s" "fresh_ids (s\<lparr>next_chan := a\<rparr>) = fresh_ids s" "fresh_ids (s\<lparr>ready_queue := q\<rparr>) = fresh_ids s"
  "fresh_ids (s\<lparr>waiting_for_read := w\<rparr>) = fresh_ids s" "fresh_ids (s\<lparr>waiting_for_write := w\<rparr>) = fresh_ids s"
  "fresh_ids (s\<lparr>current_co := c\<rparr>) = fresh_ids s" "fresh_ids (s\<lparr>sys_calls := n\<rparr>) = fresh_ids s"
  "fresh_ids (s\<lparr>sleep_flags := fl\<rparr>) = fresh_ids s" "fresh_ids (s\<lparr>next_flag := n\<rparr>) = fresh_ids s"
  by (simp_all add: fresh_ids_def)

definition sched_ok :: "scheduler \<Rightarrow> bool" where
  "sched_ok s \<longleftrightarrow> fresh_ids s \<and> poller_ok (loop_poller (sched_loop s)) \<and> (\<forall>a \<ge> next_chan s. heap (loop_poller (sched_loop s)) a = None) \<and>
     set (ready_queue s) \<union> snd ` set (waiting_for_read s) \<union> snd ` set (waiting_for_write s) \<subseteq> dom (coroutines s)"

text \<open>What waiting leaves alone.\<close>

definition same_queue :: "scheduler \<Rightarrow> scheduler \<Rightarrow> bool" where
  "same_queue s s' \<longleftrightarrow> ready_queue s' = ready_queue s \<and> coroutines s' = coroutines s \<and> next_co_id s' = next_co_id s \<and> current_co s' = current_co s"

lemma same_queue_refl [simp]: "same_queue s s"
  by (simp add: same_queue_def)

lemma same_queue_trans: "same_queue s t \<Longrightarrow> same_queue t u \<Longrightarrow> same_queue s u"
  by (simp add: same_queue_def)

lemma fresh_channel_ok:
  assumes "poller_ok p" and "heap p a = None"
  shows "poller_ok (p\<lparr>heap := (heap p)(a \<mapsto> ch)\<rparr>)"
  by (rule poller_ok_mono [OF assms(1)]) (use assms(2) in auto)

text \<open>The channel a wait allocates, and when it takes effect: only when the descriptor has no channel yet.\<close>

lemma watch_ok:
  assumes "sched_ok s" and "\<And>ch. fd (setcb ch) = fd ch"
  shows "\<exists>s'. watch setcb (with_events g) f s = Inr s' \<and> sched_ok s' \<and> same_queue s s' \<and>
    waiting_for_read s' = waiting_for_read s \<and> waiting_for_write s' = waiting_for_write s \<and> sys_calls s' = sys_calls s \<and>
    (let p = loop_poller (sched_loop s); p' = loop_poller (sched_loop s'); ch = setcb (Channel_new f)
     in (map_of (channels p) f \<noteq> None \<longrightarrow> channels p' = channels p) \<and>
        (map_of (channels p) f = None \<longrightarrow> map_of (channels p') f = Some (next_chan s)) \<and>
        heap p' = (heap p)(next_chan s \<mapsto> ch\<lparr>events := g (events ch), added_to_loop := True, index := 0\<rparr>))"
proof -
  let ?p = "loop_poller (sched_loop s)" and ?a = "next_chan s" and ?ch = "setcb (Channel_new f)"
  let ?q = "?p\<lparr>heap := (heap ?p)(?a \<mapsto> ?ch)\<rparr>"
  have f: "fd ?ch = f" using assms(2) by (simp add: Channel_new_def)
  have "poller_ok ?q"
    using assms(1) by (intro fresh_channel_ok) (simp_all add: sched_ok_def)
  from with_events_ok [OF this, of ?a ?ch g] f obtain p' where
    p': "with_events g ?a ?q = Inr p'" "poller_ok p'"
      "heap p' = (heap ?p)(?a \<mapsto> ?ch\<lparr>events := g (events ?ch), added_to_loop := True, index := 0\<rparr>)"
      "channels p' = (case map_of (channels ?p) f of None \<Rightarrow> AList.update f ?a (channels ?p) | Some b \<Rightarrow> channels ?p)"
    by (auto cong: option.case_cong)
  let ?s' = "s\<lparr>sched_loop := (sched_loop s)\<lparr>loop_poller := p'\<rparr>, next_chan := ?a + 1\<rparr>"
  have "watch setcb (with_events g) f s = Inr ?s'"
    using p'(1) by (simp add: watch_def with_poller_def assert_in_loop_thread_def is_in_loop_thread_def Let_def)
  moreover have "sched_ok ?s'"
    using assms(1) p'(2,3) by (simp add: sched_ok_def)
  ultimately show ?thesis
    using p'(3,4) by (intro exI [of _ ?s']) (auto simp: same_queue_def Let_def update_conv')
qed

lemma snd_update_subset: "snd ` set (AList.update k v xs) \<subseteq> insert v (snd ` set xs)"
  by (induction xs) auto

lemma wait_for_read_ok:
  assumes "sched_ok s" and "current_co s = Some i" and "i \<in> dom (coroutines s)"
  shows "\<exists>s'. wait_for_read f s = Inr s' \<and> sched_ok s' \<and> same_queue s s' \<and> sys_calls s' = sys_calls s \<and>
    map_of (waiting_for_read s') f = Some i \<and> waiting_for_write s' = waiting_for_write s \<and>
    (map_of (channels (loop_poller (sched_loop s))) f = None \<longrightarrow>
       (\<exists>a ch. map_of (channels (loop_poller (sched_loop s'))) f = Some a \<and> heap (loop_poller (sched_loop s')) a = Some ch \<and>
          fd ch = f \<and> is_reading ch \<and> read_callback ch))"
proof -
  let ?t = "s\<lparr>waiting_for_read := AList.update f i (waiting_for_read s)\<rparr>"
  have "insert i (snd ` set (waiting_for_read s)) \<subseteq> dom (coroutines s)"
    using assms(1,3) by (simp add: sched_ok_def)
  then have "snd ` set (AList.update f i (waiting_for_read s)) \<subseteq> dom (coroutines s)"
    by (rule order_trans [OF snd_update_subset])
  then have "sched_ok ?t"
    using assms(1) by (simp add: sched_ok_def)
  from watch_ok [OF this, of "\<lambda>ch. ch\<lparr>read_callback := True\<rparr>" "\<lambda>e. e OR kReadEvent" f] show ?thesis
    using assms(2)
    by (auto simp: wait_for_read_def enable_reading_def same_queue_def Let_def update_conv' is_reading_def Channel_new_def
        kReadEvent_def kNoneEvent_def)
qed

lemma wait_for_write_ok:
  assumes "sched_ok s" and "current_co s = Some i" and "i \<in> dom (coroutines s)"
  shows "\<exists>s'. wait_for_write f s = Inr s' \<and> sched_ok s' \<and> same_queue s s' \<and> sys_calls s' = sys_calls s \<and>
    map_of (waiting_for_write s') f = Some i \<and> waiting_for_read s' = waiting_for_read s \<and>
    (map_of (channels (loop_poller (sched_loop s))) f \<noteq> None \<longrightarrow>
       channels (loop_poller (sched_loop s')) = channels (loop_poller (sched_loop s)) \<and>
       (\<forall>a < next_chan s. heap (loop_poller (sched_loop s')) a = heap (loop_poller (sched_loop s)) a))"
proof -
  let ?t = "s\<lparr>waiting_for_write := AList.update f i (waiting_for_write s)\<rparr>"
  have "insert i (snd ` set (waiting_for_write s)) \<subseteq> dom (coroutines s)"
    using assms(1,3) by (simp add: sched_ok_def)
  then have "snd ` set (AList.update f i (waiting_for_write s)) \<subseteq> dom (coroutines s)"
    by (rule order_trans [OF snd_update_subset])
  then have "sched_ok ?t"
    using assms(1) by (simp add: sched_ok_def)
  from watch_ok [OF this, of "\<lambda>ch. ch\<lparr>write_callback := True\<rparr>" "\<lambda>e. e OR kWriteEvent" f] show ?thesis
    using assms(2)
    by (auto simp: wait_for_write_def enable_writing_def same_queue_def Let_def update_conv')
qed

lemma wait_same_queue:
  "wait_for_read f s = Inr s' \<Longrightarrow> same_queue s s'"
  "wait_for_write f s = Inr s' \<Longrightarrow> same_queue s s'"
  by (auto simp: wait_for_read_def wait_for_write_def watch_def same_queue_def Let_def map_sum_Inr_iff split: option.splits)

section \<open>One activation\<close>

text \<open>What a stretch of a coroutine does to the scheduler, whether or not anything is known of its function: it appends to the queue, adds new
  coroutines that have not run, and leaves the existing ones alone.\<close>

definition grows :: "scheduler \<Rightarrow> scheduler \<Rightarrow> bool" where
  "grows s s' \<longleftrightarrow> fresh_ids s' \<and> next_co_id s \<le> next_co_id s' \<and> current_co s' = current_co s \<and> (\<exists>new. ready_queue s' = ready_queue s @ new) \<and>
     (\<forall>i < next_co_id s. coroutines s' i = coroutines s i) \<and>
     (\<forall>i \<ge> next_co_id s. \<forall>co. coroutines s' i = Some co \<longrightarrow> co_state co = READY)"

lemma same_queue_grows: "same_queue s s' \<Longrightarrow> fresh_ids s \<Longrightarrow> grows s s'"
  by (auto simp: same_queue_def grows_def fresh_ids_def)

lemma grows_fresh: "grows s s' \<Longrightarrow> fresh_ids s'"
  by (simp add: grows_def)

lemma grows_trans:
  assumes "grows s t" and "grows t u"
  shows "grows s u"
proof -
  have "co_state co = READY" if "next_co_id s \<le> i" "coroutines u i = Some co" for i co
    using assms that unfolding grows_def by (metis not_le)
  then show ?thesis
    using assms by (auto simp: grows_def)
qed

lemma grows_steps:
  assumes "fresh_ids s"
  shows "grows s s" "grows s (s\<lparr>sys_calls := c\<rparr>)" "grows s (s\<lparr>sched_loop := l, next_flag := i, sleep_flags := fl\<rparr>)"
    "grows s (schedule co s)" "grows s (snd (new_coroutine func s))" "grows s (create_coroutine func s)"
  using assms by (auto simp: grows_def fresh_ids_def schedule_def new_coroutine_def create_coroutine_def Let_def)

lemma grows_sys: "fresh_ids s \<Longrightarrow> next_sys sys s = ((n, e), t) \<Longrightarrow> grows s t"
  using grows_steps(2) by (auto simp: next_sys_def)

lemma grows_wait:
  "fresh_ids s \<Longrightarrow> wait_for_read f s = Inr t \<Longrightarrow> grows s t"
  "fresh_ids s \<Longrightarrow> wait_for_write f s = Inr t \<Longrightarrow> grows s t"
  by (rule same_queue_grows, rule wait_same_queue, assumption+)+

lemma co_call_grows:
  assumes "fresh_ids s"
  shows "co_call p sys now me s = GoesOn q t \<Longrightarrow> grows s t" and "co_call p sys now me s = Leaves (Inr (r, t)) \<Longrightarrow> grows s t"
proof -
  note g = grows_steps [OF assms]
  have w: "grows s u" if "next_sys sys s = ((n, e), t)" "wait_for_read f t = Inr u \<or> wait_for_write f t = Inr u" for n e t u f
    using grows_trans [OF grows_sys [OF assms that(1)]] grows_wait [OF grows_fresh [OF grows_sys [OF assms that(1)]]] that(2) by blast
  show "grows s t" if "co_call p sys now me s = GoesOn q t"
    using that g grows_sys [OF assms, of sys]
    by (cases p) (auto simp: co_call_def yields_def sleep_timer_def new_coroutine_def Let_def split: prod.splits if_splits)
  show "grows s t" if "co_call p sys now me s = Leaves (Inr (r, t))"
    using that g
    by (cases p) (auto simp: co_call_def yields_def sleep_timer_def Let_def map_sum_Inr_iff split: prod.splits if_splits intro: w)
qed

lemma run_prog_grows:
  assumes "run_prog p sys now me s = Some (Inr (r, s'))" and "fresh_ids s"
  shows "grows s s'"
proof -
  let ?P = "\<lambda>(p :: co_prog) (sys :: nat \<Rightarrow> int \<times> int) (now :: timestamp) (me :: nat) s (a :: activation). fresh_ids s \<longrightarrow> (\<forall>r s'. a = Inr (r, s') \<longrightarrow> grows s s')"
  have "?P p sys now me s (Inr (r, s'))"
  proof (rule run_prog.raw_induct [where P = ?P, OF _ assms(1)])
    fix run :: "co_prog \<Rightarrow> (nat \<Rightarrow> int \<times> int) \<Rightarrow> timestamp \<Rightarrow> nat \<Rightarrow> scheduler \<Rightarrow> activation option" and p sys now me s a
    assume IH: "\<And>p sys now me s a. run p sys now me s = Some a \<Longrightarrow> ?P p sys now me s a"
      and step: "(case co_call p sys now me s of GoesOn q s1 \<Rightarrow> run q sys now me s1 | Leaves a \<Rightarrow> Some a) = Some a"
    show "?P p sys now me s a"
    proof (cases "co_call p sys now me s")
      case (GoesOn q t)
      with step have "run q sys now me t = Some a" by simp
      from IH [OF this] co_call_grows(1) [of s p sys now me q t] GoesOn show ?thesis
        by (auto intro: grows_trans dest: grows_fresh)
    next
      case (Leaves b)
      with step show ?thesis using co_call_grows(2) [of s p sys now me] by auto
    qed
  qed
  with assms show ?thesis by blast
qed

section \<open>Coroutines that come back\<close>

text \<open>\<open>settles b D p\<close>: whatever the system answers, \<open>p\<close> makes finitely many calls before it yields or ends, and schedules only coroutines among \<open>D\<close>, itself and those it has
  made; if \<open>b\<close> does not hold, it queues none at all.\<close>

inductive settles :: "bool \<Rightarrow> nat set \<Rightarrow> co_prog \<Rightarrow> bool" for b where
  settles_return: "settles b D Return"
| settles_yield: "settles b D (Yield p)"
| settles_sleep: "settles b D (Sleep d p)"
| settles_local: "settles b D p \<Longrightarrow> settles b D (Local p)"
| settles_read: "(\<And>n. settles b D (k n)) \<Longrightarrow> settles b D (Read f k)"
| settles_write: "(\<And>n. settles b D (k n)) \<Longrightarrow> settles b D (Write f k)"
| settles_accept: "(\<And>n. settles b D (k n)) \<Longrightarrow> settles b D (Accept f k)"
| settles_connect: "(\<And>n. settles b D (k n)) \<Longrightarrow> settles b D (Connect f k)"
| settles_connecting: "(\<And>n. settles b D (k n)) \<Longrightarrow> settles b D (Connecting k)"
| settles_sleeping: "settles b D p \<Longrightarrow> settles b D (Sleeping i p)"
| settles_current: "(\<And>i. settles b (insert i D) (k i)) \<Longrightarrow> settles b D (Current k)"
| settles_new: "(\<And>i. settles b (insert i D) (k i)) \<Longrightarrow> settles b D (New g k)"
| settles_schedule: "b \<Longrightarrow> i \<in> D \<Longrightarrow> settles b D p \<Longrightarrow> settles b D (Schedule i p)"
| settles_create: "b \<Longrightarrow> settles b D p \<Longrightarrow> settles b D (Create g p)"

text \<open>The state in which a coroutine runs, and what it may do to the queue.\<close>

definition runs_in :: "nat \<Rightarrow> nat set \<Rightarrow> scheduler \<Rightarrow> bool" where
  "runs_in me D s \<longleftrightarrow> sched_ok s \<and> current_co s = Some me \<and> insert me D \<subseteq> dom (coroutines s)"

definition comes_back :: "bool \<Rightarrow> scheduler \<Rightarrow> activation option \<Rightarrow> bool" where
  "comes_back b s a \<longleftrightarrow> (\<exists>r s'. a = Some (Inr (r, s')) \<and> sched_ok s' \<and> (\<not> b \<longrightarrow> ready_queue s' = ready_queue s))"

lemma sched_ok_queue:
  "sched_ok s \<Longrightarrow> i \<in> dom (coroutines s) \<Longrightarrow> sched_ok (schedule i s)"
  "sched_ok s \<Longrightarrow> sched_ok (snd (new_coroutine g s))"
  by (simp_all add: sched_ok_def schedule_def new_coroutine_def Let_def subset_insertI2 fresh_ids_def)

lemma runs_in_steps:
  assumes "runs_in me D s"
  shows "runs_in me D (s\<lparr>sys_calls := c\<rparr>)" and "runs_in me (insert me D) s"
    and "new_coroutine g s = (i, t) \<Longrightarrow> runs_in me (insert i D) t \<and> ready_queue t = ready_queue s"
    and "i \<in> D \<Longrightarrow> runs_in me D (schedule i s)" and "runs_in me D (create_coroutine g s)"
proof -
  have ok: "sched_ok s" and s: "current_co s = Some me" "insert me D \<subseteq> dom (coroutines s)" using assms by (simp_all add: runs_in_def)
  show "runs_in me D (s\<lparr>sys_calls := c\<rparr>)" using ok s by (simp add: runs_in_def sched_ok_def)
  show "runs_in me (insert me D) s" using ok s by (simp add: runs_in_def)
  show "runs_in me (insert i D) t \<and> ready_queue t = ready_queue s" if "new_coroutine g s = (i, t)"
    using sched_ok_queue(2) [OF ok, of g] s that by (auto simp: runs_in_def new_coroutine_def Let_def)
  show "runs_in me D (schedule i s)" if "i \<in> D"
    using sched_ok_queue(1) [OF ok, of i] s that by (auto simp: runs_in_def schedule_def)
  show "runs_in me D (create_coroutine g s)"
    using sched_ok_queue(1) [OF sched_ok_queue(2) [OF ok], of "next_co_id s" g] s
    by (auto simp: runs_in_def create_coroutine_def schedule_def new_coroutine_def Let_def)
qed

lemma comes_back_wait:
  assumes "runs_in me D s"
  shows "comes_back b s (Some (map_sum id (\<lambda>s2. (r, s2)) (wait_for_read f s)))"
    and "comes_back b s (Some (map_sum id (\<lambda>s2. (r, s2)) (wait_for_write f s)))"
  using wait_for_read_ok [of s me f] wait_for_write_ok [of s me f] assms by (auto simp: runs_in_def comes_back_def same_queue_def)

lemma comes_back_calls [simp]: "comes_back b (s\<lparr>sys_calls := c\<rparr>) a = comes_back b s a"
  by (simp add: comes_back_def)

text \<open>After a system call, the coroutine goes on, or waits, in a state that differs only in the number of calls.\<close>

lemma comes_back_sys:
  assumes "runs_in me D s" and "\<And>n t. runs_in me D t \<Longrightarrow> comes_back b t (run_prog (k n) sys now me t)"
    and "\<exists>f. co_call p sys now me s = yields q (wait_for_read f (snd (next_sys sys s))) \<or>
      co_call p sys now me s = yields q (wait_for_write f (snd (next_sys sys s))) \<or> (\<exists>n. co_call p sys now me s = GoesOn (k n) (snd (next_sys sys s)))"
  shows "comes_back b s (run_prog p sys now me s)"
proof -
  let ?t = "snd (next_sys sys s)"
  have t: "runs_in me D ?t" using runs_in_steps(1) [OF assms(1)] by (simp add: next_sys_def)
  have "comes_back b ?t (run_prog p sys now me s)"
    using assms(2) [OF t] comes_back_wait [OF t] assms(3) by (auto simp: run_prog.simps [of p] yields_def)
  then show ?thesis by (simp add: next_sys_def)
qed

lemma settles_runs: "settles b D p \<Longrightarrow> runs_in me D s \<Longrightarrow> comes_back b s (run_prog p sys now me s)"
proof (induction arbitrary: s rule: settles.induct)
  case (settles_sleep D d p)
  obtain t l where "run_after now d (WakeSleeper (next_flag s) me) (sched_loop s) = (t, l)" by fastforce
  moreover from this have "loop_poller l = loop_poller (sched_loop s)"
    by (auto simp: run_after_def with_wheel_def split: prod.splits)
  ultimately show ?case
    using settles_sleep by (subst run_prog.simps) (simp add: co_call_def yields_def sleep_timer_def comes_back_def runs_in_def sched_ok_def Let_def)
next
  case (settles_read D k f)
  show ?case
    by (rule comes_back_sys [OF settles_read.prems settles_read.IH, where q = "Read f k"])
      (auto simp: co_call_def split: prod.splits)
next
  case (settles_write D k f)
  show ?case
    by (rule comes_back_sys [OF settles_write.prems settles_write.IH, where q = "Write f k"])
      (auto simp: co_call_def split: prod.splits)
next
  case (settles_accept D k f)
  show ?case
    by (rule comes_back_sys [OF settles_accept.prems settles_accept.IH, where q = "Accept f k"])
      (auto simp: co_call_def split: prod.splits)
next
  case (settles_connect D k f)
  show ?case
    by (rule comes_back_sys [OF settles_connect.prems settles_connect.IH, where q = "Connecting k"])
      (auto simp: co_call_def split: prod.splits)
next
  case (settles_connecting D k)
  show ?case
    by (rule comes_back_sys [OF settles_connecting.prems settles_connecting.IH, where q = Return])
      (auto simp: co_call_def split: prod.splits)
next
  case (settles_current D k)
  then show ?case using runs_in_steps(2) by (subst run_prog.simps) (simp add: co_call_def)
next
  case (settles_new D k g)
  then show ?case using runs_in_steps(3) [OF settles_new.prems, of g]
    by (subst run_prog.simps) (fastforce simp: co_call_def comes_back_def split: prod.splits)
next
  case (settles_schedule i D p)
  then show ?case using runs_in_steps(4) by (subst run_prog.simps) (simp add: co_call_def comes_back_def)
next
  case (settles_create D p g)
  then show ?case using runs_in_steps(5) by (subst run_prog.simps) (simp add: co_call_def comes_back_def)
qed (subst run_prog.simps, auto simp: co_call_def yields_def comes_back_def runs_in_def)+

section \<open>One round\<close>

definition saved :: "co_prog option \<Rightarrow> coroutine" where
  "saved r = (case r of None \<Rightarrow> \<lparr>co_state = DONE, co_prog = Return\<rparr> | Some p \<Rightarrow> \<lparr>co_state = SUSPENDED, co_prog = p\<rparr>)"

definition activated :: "nat \<Rightarrow> coroutine \<Rightarrow> scheduler \<Rightarrow> scheduler" where
  "activated i co s = (set_co i (co\<lparr>co_state := RUNNING\<rparr>) s)\<lparr>current_co := Some i\<rparr>"

lemma dom_lt: "fresh_ids s \<Longrightarrow> i \<in> dom (coroutines s) \<Longrightarrow> i < next_co_id s"
  by (metis domIff fresh_ids_def not_le)

lemma activated_ok:
  assumes "sched_ok s" and "coroutines s i = Some co" and "D \<subseteq> dom (coroutines s)"
  shows "runs_in i D (activated i co s)"
proof -
  have "insert i (dom (coroutines s)) = dom (coroutines s)" using assms(2) by auto
  then show ?thesis
    using assms dom_lt [of s i] by (auto simp: runs_in_def sched_ok_def activated_def set_co_def fresh_ids_def)
qed

lemma resume_eq:
  assumes "coroutines s i = Some co" and "run_prog (co_prog co) sys now i (activated i co s) = Some (Inr (r, t))"
  shows "resume sys now i s = Some (Inr ((set_co i (saved r) t)\<lparr>current_co := None\<rparr>))"
  using assms by (simp add: resume_def activated_def saved_def)

text \<open>Resuming a coroutine that comes back: it is suspended or finished, the others are as they were, and the queue has at most grown.\<close>

lemma resume_ok:
  assumes "sched_ok s" and "coroutines s i = Some co" and "D \<subseteq> dom (coroutines s)" and "settles b D (co_prog co)"
  shows "\<exists>r s' new. resume sys now i s = Some (Inr s') \<and> sched_ok s' \<and> ready_queue s' = ready_queue s @ new \<and> (\<not> b \<longrightarrow> new = []) \<and>
    coroutines s' i = Some (saved r) \<and> dom (coroutines s) \<subseteq> dom (coroutines s') \<and> (\<forall>j \<in> dom (coroutines s). j \<noteq> i \<longrightarrow> coroutines s' j = coroutines s j)"
proof -
  let ?s = "activated i co s"
  have act: "runs_in i D ?s" by (rule activated_ok [OF assms(1-3)])
  have fields: "ready_queue ?s = ready_queue s" "coroutines ?s = (coroutines s)(i \<mapsto> co\<lparr>co_state := RUNNING\<rparr>)" "next_co_id ?s = next_co_id s"
    by (simp_all add: activated_def set_co_def)
  obtain r t where t: "run_prog (co_prog co) sys now i ?s = Some (Inr (r, t))" "sched_ok t" "\<not> b \<longrightarrow> ready_queue t = ready_queue s"
    using settles_runs [OF assms(4) act, of sys now] by (auto simp: comes_back_def fields(1))
  have lt: "j < next_co_id s" if "j \<in> dom (coroutines s)" for j
    using dom_lt assms(1) that by (simp add: sched_ok_def)
  from run_prog_grows [OF t(1)] act have "grows ?s t" by (simp add: runs_in_def sched_ok_def)
  then obtain new where new: "ready_queue t = ready_queue s @ new" and old: "\<And>j. j < next_co_id s \<Longrightarrow> coroutines t j = coroutines ?s j"
    by (auto simp: grows_def fields(1,3))
  let ?t = "(set_co i (saved r) t)\<lparr>current_co := None\<rparr>"
  have i: "coroutines t i \<noteq> None" using old [OF lt [of i]] assms(2) fields(2) by auto
  then have "insert i (dom (coroutines t)) = dom (coroutines t)" by auto
  then have "sched_ok ?t"
    using t(2) dom_lt [of t i] i by (auto simp: sched_ok_def set_co_def fresh_ids_def)
  moreover have "coroutines t j = coroutines s j" if "j \<in> dom (coroutines s)" "j \<noteq> i" for j
    using old [OF lt [OF that(1)]] that(2) fields(2) by simp
  moreover from this have "dom (coroutines s) \<subseteq> dom (coroutines ?t)" by (fastforce simp: set_co_def)
  ultimately show ?thesis
    using resume_eq [OF assms(2) t(1)] new t(3) by (intro exI [of _ r] exI [of _ ?t] exI [of _ new]) (simp add: set_co_def)
qed

definition unfinished :: "scheduler \<Rightarrow> nat \<Rightarrow> bool" where
  "unfinished s i \<longleftrightarrow> co_state (the (coroutines s i)) \<noteq> DONE"

lemma unfinished_queue [simp]: "unfinished (s\<lparr>ready_queue := q\<rparr>) = unfinished s"
  by (simp add: unfinished_def fun_eq_iff)

text \<open>The coroutines at the front of the queue are resumed in order; what they queue meanwhile comes behind what was queued before.\<close>

lemma tick_round:
  "sched_ok s \<Longrightarrow> ready_queue s = q @ rest \<Longrightarrow> distinct q \<Longrightarrow> D \<subseteq> dom (coroutines s) \<Longrightarrow>
   \<forall>i \<in> set q. settles b D (co_prog (the (coroutines s i))) \<Longrightarrow>
   \<exists>s' new. (\<forall>m. tick_loop (length q + m) sys now s trail = tick_loop m sys now s' (trail @ filter (unfinished s) q)) \<and>
     sched_ok s' \<and> ready_queue s' = rest @ new \<and> (\<not> b \<longrightarrow> new = []) \<and> dom (coroutines s) \<subseteq> dom (coroutines s') \<and>
     (\<forall>i \<in> set q. co_state (the (coroutines s' i)) \<in> {SUSPENDED, DONE}) \<and>
     (\<forall>i \<in> dom (coroutines s). i \<notin> set q \<longrightarrow> coroutines s' i = coroutines s i)"
proof (induction q arbitrary: s rest trail)
  case Nil
  then show ?case by (intro exI [of _ s] exI [of _ "[]"]) simp
next
  case (Cons i q)
  let ?s = "s\<lparr>ready_queue := q @ rest\<rparr>"
  have s: "sched_ok ?s" "i \<notin> set q" "distinct q" "set q \<subseteq> dom (coroutines s)"
    using Cons.prems by (auto simp: sched_ok_def)
  obtain co where co: "coroutines s i = Some co"
    using Cons.prems(1,2) by (auto simp: sched_ok_def)
  show ?case
  proof (cases "co_state co = DONE")
    case True
    then have tl: "tick_loop (Suc n) sys now s trail = tick_loop n sys now ?s trail" for n
      using Cons.prems(2) co by (subst tick_loop.simps) simp
    from Cons.IH [OF s(1) _ s(3), of rest trail] Cons.prems(4,5) obtain s' new where
      "\<And>m. tick_loop (length q + m) sys now ?s trail = tick_loop m sys now s' (trail @ filter (unfinished ?s) q)"
      "sched_ok s'" "ready_queue s' = rest @ new" "\<not> b \<longrightarrow> new = []" "dom (coroutines s) \<subseteq> dom (coroutines s')"
      "\<forall>i \<in> set q. co_state (the (coroutines s' i)) \<in> {SUSPENDED, DONE}" "\<forall>i \<in> dom (coroutines s). i \<notin> set q \<longrightarrow> coroutines s' i = coroutines s i"
      by auto
    moreover from this(7) have "coroutines s' i = Some co" using co s(2) by auto
    moreover have "\<not> unfinished s i" using co True by (simp add: unfinished_def)
    ultimately show ?thesis
      using tl co True by (intro exI [of _ s'] exI [of _ new]) auto
  next
    case False
    from resume_ok [OF s(1), of i co D b sys now] co Cons.prems(4,5) obtain r s2 new where
      s2: "resume sys now i ?s = Some (Inr s2)" "sched_ok s2" "ready_queue s2 = q @ rest @ new" "\<not> b \<longrightarrow> new = []" "coroutines s2 i = Some (saved r)"
        "dom (coroutines s) \<subseteq> dom (coroutines s2)" "\<forall>j \<in> dom (coroutines s). j \<noteq> i \<longrightarrow> coroutines s2 j = coroutines s j"
      by auto
    have q: "coroutines s2 j = coroutines s j" if "j \<in> set q" for j
      using bspec [OF s2(7) subsetD [OF s(4) that]] that s(2) by auto
    then have alive: "filter (unfinished s2) q = filter (unfinished s) q"
      by (intro filter_cong) (auto simp: unfinished_def)
    have tl: "tick_loop (Suc n) sys now s trail = tick_loop n sys now s2 (trail @ [i])" for n
      using Cons.prems(2) co False s2(1) by (subst tick_loop.simps) simp
    have "D \<subseteq> dom (coroutines s2)" using Cons.prems(4) s2(6) by (rule order_trans)
    moreover have "\<forall>j \<in> set q. settles b D (co_prog (the (coroutines s2 j)))" using Cons.prems(5) q by simp
    moreover have "ready_queue s2 = q @ (rest @ new)" using s2(3) by simp
    ultimately obtain s' new' where
      s': "\<forall>m. tick_loop (length q + m) sys now s2 (trail @ [i]) = tick_loop m sys now s' ((trail @ [i]) @ filter (unfinished s2) q)"
      "sched_ok s'" "ready_queue s' = (rest @ new) @ new'" "\<not> b \<longrightarrow> new' = []" "dom (coroutines s2) \<subseteq> dom (coroutines s')"
      "\<forall>i \<in> set q. co_state (the (coroutines s' i)) \<in> {SUSPENDED, DONE}" "\<forall>i \<in> dom (coroutines s2). i \<notin> set q \<longrightarrow> coroutines s' i = coroutines s2 i"
      using Cons.IH [OF s2(2) _ s(3), of "rest @ new" "trail @ [i]"] by blast
    have "coroutines s' i = Some (saved r)" using bspec [OF s'(7), of i] s2(5) s(2) by auto
    then have "co_state (the (coroutines s' i)) \<in> {SUSPENDED, DONE}" by (simp add: saved_def split: option.splits)
    moreover have "coroutines s' j = coroutines s j" if "j \<in> dom (coroutines s)" "j \<notin> set (i # q)" for j
      using bspec [OF s'(7) subsetD [OF s2(6) that(1)]] bspec [OF s2(7) that(1)] that(2) by simp
    moreover have "unfinished s i" using co False by (simp add: unfinished_def)
    ultimately show ?thesis
      using tl s' alive s2(4,6) by (intro exI [of _ s'] exI [of _ "new @ new'"]) auto
  qed
qed

section \<open>Properties\<close>

text \<open>C21. One round of \<open>tick\<close>. The coroutines in the queue, each queued once, come back: up to its next \<open>yield\<close> or its end each makes finitely many calls, whatever the system
  answers, and schedules only coroutines that exist. Then \<open>tick\<close> first resumes every one of them that has not finished exactly once, in the order in which they
  were queued, before any coroutine they queue or create meanwhile; each is then suspended or finished, a coroutine that merely
  yields is not queued again, and the others are as they were. When they queue none, \<open>tick\<close> then returns, and its
  result says whether any coroutine waits for a descriptor.\<close>

theorem tick_resumes_ready:
  assumes "sched_ok s" and "distinct (ready_queue s)" and "ready_queue s \<noteq> []"
    and "\<forall>i \<in> set (ready_queue s). settles b (dom (coroutines s)) (co_prog (the (coroutines s i)))"
  shows "\<exists>s'. (\<forall>m. tick_loop (length (ready_queue s) + m) sys now s [] = tick_loop m sys now s' (filter (unfinished s) (ready_queue s))) \<and>
    sched_ok s' \<and> (\<forall>i \<in> set (ready_queue s). co_state (the (coroutines s' i)) \<in> {SUSPENDED, DONE}) \<and>
    (\<forall>i \<in> dom (coroutines s). i \<notin> set (ready_queue s) \<longrightarrow> coroutines s' i = coroutines s i) \<and>
    (\<not> b \<longrightarrow> ready_queue s' = [] \<and>
       (\<forall>m. sched_tick (length (ready_queue s) + m) sys now s = Some (Inr (waiting_for_read s' \<noteq> [] \<or> waiting_for_write s' \<noteq> [], s'))))"
proof -
  obtain s' new where s': "\<And>m. tick_loop (length (ready_queue s) + m) sys now s [] = tick_loop m sys now s' (filter (unfinished s) (ready_queue s))"
    "sched_ok s'" "ready_queue s' = new" "\<not> b \<longrightarrow> new = []"
    "\<forall>i \<in> set (ready_queue s). co_state (the (coroutines s' i)) \<in> {SUSPENDED, DONE}"
    "\<forall>i \<in> dom (coroutines s). i \<notin> set (ready_queue s) \<longrightarrow> coroutines s' i = coroutines s i"
    using tick_round [OF assms(1) _ assms(2) order_refl assms(4), of "[]" sys now "[]"] by auto
  have "sched_tick (length (ready_queue s) + m) sys now s = Some (Inr (waiting_for_read s' \<noteq> [] \<or> waiting_for_write s' \<noteq> [], s'))" if "\<not> b" for m
    using s'(1) [of m] s'(3,4) assms(3) that by (auto simp: sched_tick_def tick_loop.simps [of m])
  with s' show ?thesis by (intro exI [of _ s']) simp
qed

definition demo_sched :: "co_prog \<Rightarrow> scheduler" where
  "demo_sched p = create_coroutine p (Scheduler_new
     \<lparr>loop_poller = \<lparr>heap = Map.empty, channels = [], channel_list = []\<rparr>, loop_wheel = TimerWheel_new 10 6000 0, wakeup_fd = 5,
      wakeup_write_fd = 5, wakeup_dev = Eventfd, wakeup_count = 0, wakeup_channel = 0, looping = True, quit_flag = False,
      event_handling = True, calling_pending_tasks = False, thread_id = 1, pending_tasks = []\<rparr> 1)"

lemma demo_sched_ok: "sched_ok (demo_sched p)" "ready_queue (demo_sched p) = [1]"
  "coroutines (demo_sched p) = [1 \<mapsto> \<lparr>co_state = READY, co_prog = p\<rparr>]" "current_co (demo_sched p) = None"
  "channels (loop_poller (sched_loop (demo_sched p))) = []" "sys_calls (demo_sched p) = 0" "next_co_id (demo_sched p) = 2"
  by (auto simp: demo_sched_def create_coroutine_def new_coroutine_def Scheduler_new_def schedule_def sched_ok_def fresh_ids_def poller_ok_def Let_def)

theorem tick_resumes_ready_witness:
  "\<exists>s'. sched_tick 1 (\<lambda>k. (0, 0)) 0 (demo_sched (Local (Yield Return))) = Some (Inr (waiting_for_read s' \<noteq> [] \<or> waiting_for_write s' \<noteq> [], s')) \<and>
     ready_queue s' = [] \<and> co_state (the (coroutines s' 1)) \<in> {SUSPENDED, DONE}"
proof -
  let ?p = "Local (Yield Return)"
  have "settles False D ?p" for D by (intro settles.intros)
  then have "\<forall>i \<in> set (ready_queue (demo_sched ?p)). settles False (dom (coroutines (demo_sched ?p))) (co_prog (the (coroutines (demo_sched ?p) i)))"
    by (simp add: demo_sched_ok(2,3))
  from tick_resumes_ready [OF demo_sched_ok(1) _ _ this, of "\<lambda>k. (0, 0)" 0] show ?thesis
    by (auto simp: demo_sched_ok(2))
qed

text \<open>Without these conditions \<open>tick\<close> need not return. A coroutine may compute for ever; and a coroutine that schedules itself again before it yields keeps the queue
  from ever being empty, although it yields each time: the loop of \<open>tick\<close> runs until the queue is empty.\<close>

primcorec spins :: co_prog where
  "spins = Local spins"

datatype requeue_at = asks: Asks | queues: Queues (queued: nat) | rests: Rests

primcorec requeues :: "requeue_at \<Rightarrow> co_prog" where
  "requeues st =
     (case st of
        Asks \<Rightarrow> Current (\<lambda>me. requeues (Queues me))
      | Queues me \<Rightarrow> Schedule me (requeues Rests)
      | Rests \<Rightarrow> Yield (requeues Asks))"

lemma requeues_runs:
  "run_prog (requeues Asks) sys now me s = Some (Inr (Some (requeues Asks), schedule me s))"
proof -
  have p: "requeues Asks = Current (\<lambda>me. requeues (Queues me))" "requeues (Queues me) = Schedule me (requeues Rests)"
    "requeues Rests = Yield (requeues Asks)" by (subst requeues.code, simp)+
  show ?thesis
    by (subst run_prog.simps, subst p(1), simp add: co_call_def, subst run_prog.simps, subst p(2), simp add: co_call_def,
        subst run_prog.simps, subst p(3), simp add: co_call_def yields_def)
qed

lemma requeueing_tick_never_returns:
  "ready_queue s = [i] \<Longrightarrow> coroutines s i = Some co \<Longrightarrow> co_prog co = requeues Asks \<Longrightarrow> co_state co \<noteq> DONE \<Longrightarrow> tick_loop n sys now s trail = None"
proof (induction n arbitrary: s co trail)
  case 0
  then show ?case by (simp add: tick_loop.simps)
next
  case (Suc n)
  have "resume sys now i (s\<lparr>ready_queue := []\<rparr>) = Some (Inr ((set_co i (saved (Some (requeues Asks))) (schedule i (activated i co (s\<lparr>ready_queue := []\<rparr>))))\<lparr>current_co := None\<rparr>))"
    by (rule resume_eq [of _ _ co]) (use Suc.prems(2) in simp, simp only: Suc.prems(3) requeues_runs)
  then show ?case
    using Suc.prems by (subst tick_loop.simps) (simp add: Suc.IH schedule_def set_co_def activated_def saved_def)
qed

lemma spinning_never_returns: "run_prog spins sys now me s = None"
proof (rule ccontr)
  assume "run_prog spins sys now me s \<noteq> None"
  then obtain a where a: "run_prog spins sys now me s = Some a" by blast
  let ?P = "\<lambda>(p :: co_prog) (sys :: nat \<Rightarrow> int \<times> int) (now :: timestamp) (me :: nat) (s :: scheduler) (a :: activation). p \<noteq> spins"
  have "?P spins sys now me s a"
  proof (rule run_prog.raw_induct [where P = ?P, OF _ a])
    fix run :: "co_prog \<Rightarrow> (nat \<Rightarrow> int \<times> int) \<Rightarrow> timestamp \<Rightarrow> nat \<Rightarrow> scheduler \<Rightarrow> activation option" and p sys now me s a
    assume "\<And>p sys now me s a. run p sys now me s = Some a \<Longrightarrow> ?P p sys now me s a"
      and "(case co_call p sys now me s of GoesOn q s1 \<Rightarrow> run q sys now me s1 | Leaves a \<Rightarrow> Some a) = Some a"
    moreover have "co_call spins sys now me s = GoesOn spins s" by (subst spins.code) (simp add: co_call_def)
    ultimately show "?P p sys now me s a" by force
  qed
  then show False by simp
qed

text \<open>C25. A read that would block suspends its coroutine and wakes it again. With the coroutine alone in the queue, and a descriptor that no channel watches yet, the cycle ends
  with the coroutine suspended, waiting for its descriptor, and the descriptor watched for
  reading; when the loop reports the descriptor, the coroutine alone is queued, and the next
  cycle repeats the read and runs what follows it with its result.\<close>

theorem blocked_read_resumes:
  assumes "sched_ok s" and "ready_queue s = [i]" and "coroutines s i = Some \<lparr>co_state = st, co_prog = Read f k\<rparr>" and "st \<noteq> DONE"
    and "sys (sys_calls s) = (- 1, EAGAIN)" and "sys (sys_calls s + 1) = (n, e)" and "0 \<le> n"
    and "map_of (channels (loop_poller (sched_loop s))) f = None"
  shows "\<exists>s1 a ch. (\<forall>m. sched_tick (Suc m) sys now s = Some (Inr (True, s1))) \<and>
    coroutines s1 i = Some \<lparr>co_state = SUSPENDED, co_prog = Read f k\<rparr> \<and> map_of (waiting_for_read s1) f = Some i \<and>
    map_of (channels (loop_poller (sched_loop s1))) f = Some a \<and> heap (loop_poller (sched_loop s1)) a = Some ch \<and>
    is_reading ch \<and> read_callback ch \<and>
    ready_queue (on_fd_ready f s1) = [i] \<and>
    (\<forall>m. tick_loop (Suc m) sys now' (on_fd_ready f s1) [] =
       (case run_prog (k n) sys now' i
          ((activated i \<lparr>co_state = SUSPENDED, co_prog = Read f k\<rparr> ((on_fd_ready f s1)\<lparr>ready_queue := []\<rparr>))\<lparr>sys_calls := sys_calls s + 2\<rparr>) of
          None \<Rightarrow> None
        | Some (Inl x) \<Rightarrow> Some (Inl x)
        | Some (Inr (r, t)) \<Rightarrow> tick_loop m sys now' ((set_co i (saved r) t)\<lparr>current_co := None\<rparr>) [i]))"
proof -
  let ?co = "\<lparr>co_state = st, co_prog = Read f k\<rparr>" and ?q = "s\<lparr>ready_queue := []\<rparr>"
  have q: "sched_ok ?q" "coroutines ?q i = Some ?co" using assms(1,3) by (simp_all add: sched_ok_def)
  let ?a = "(activated i ?co ?q)\<lparr>sys_calls := sys_calls s + 1\<rparr>"
  have "runs_in i {} ?a" by (rule runs_in_steps(1) [OF activated_ok [OF q]]) simp
  then have a: "sched_ok ?a" "current_co ?a = Some i" "i \<in> dom (coroutines ?a)" by (simp_all add: runs_in_def)
  from wait_for_read_ok [OF this, of f] obtain w c ch where w: "wait_for_read f ?a = Inr w" "same_queue ?a w" "sys_calls w = sys_calls s + 1"
      "map_of (waiting_for_read w) f = Some i" "map_of (channels (loop_poller (sched_loop w))) f = Some c"
      "heap (loop_poller (sched_loop w)) c = Some ch" "is_reading ch" "read_callback ch"
    using assms(8) by (auto simp: activated_def set_co_def)
  have first: "run_prog (Read f k) sys now i (activated i ?co ?q) = Some (Inr (Some (Read f k), w))"
    using assms(5) w(1) by (subst run_prog.simps) (simp add: co_call_def yields_def next_sys_def would_block_def activated_def set_co_def)
  let ?s1 = "(set_co i (saved (Some (Read f k))) w)\<lparr>current_co := None\<rparr>"
  have res: "resume sys now i ?q = Some (Inr ?s1)" using resume_eq [OF q(2)] first by simp
  have s1: "ready_queue ?s1 = []" "coroutines ?s1 i = Some \<lparr>co_state = SUSPENDED, co_prog = Read f k\<rparr>"
      "map_of (waiting_for_read ?s1) f = Some i" "sys_calls ?s1 = sys_calls s + 1"
    using w(2-4) by (simp_all add: set_co_def saved_def same_queue_def activated_def)
  have "waiting_for_read ?s1 \<noteq> []" using s1(3) by (cases "waiting_for_read ?s1") simp_all
  then have tick1: "sched_tick (Suc m) sys now s = Some (Inr (True, ?s1))" for m
    using assms(2-4) res s1(1) by (simp add: sched_tick_def tick_loop.simps)
  have ready: "on_fd_ready f ?s1 = schedule i (?s1\<lparr>waiting_for_read := AList.delete f (waiting_for_read ?s1)\<rparr>)"
    unfolding on_fd_ready_def s1(3) by simp
  let ?s2 = "on_fd_ready f ?s1" and ?co2 = "\<lparr>co_state = SUSPENDED, co_prog = Read f k\<rparr>"
  let ?q2 = "?s2\<lparr>ready_queue := []\<rparr>"
  have q2: "ready_queue ?s2 = [i]" "coroutines ?q2 i = Some ?co2" "sys_calls ?q2 = sys_calls s + 1"
    unfolding ready schedule_def using s1(1,2,4) by simp_all
  have again: "run_prog (Read f k) sys now' i (activated i ?co2 ?q2) =
      run_prog (k n) sys now' i ((activated i ?co2 ?q2)\<lparr>sys_calls := sys_calls s + 2\<rparr>)"
    using assms(6,7) q2(3) by (subst run_prog.simps) (simp add: co_call_def next_sys_def activated_def set_co_def)
  have "tick_loop (Suc m) sys now' ?s2 [] =
      (case run_prog (k n) sys now' i ((activated i ?co2 ?q2)\<lparr>sys_calls := sys_calls s + 2\<rparr>) of
         None \<Rightarrow> None | Some (Inl x) \<Rightarrow> Some (Inl x)
       | Some (Inr (r, t)) \<Rightarrow> tick_loop m sys now' ((set_co i (saved r) t)\<lparr>current_co := None\<rparr>) [i])" for m
    using q2 again by (subst tick_loop.simps) (simp add: resume_def activated_def saved_def split: option.splits sum.splits)
  then show ?thesis
    using tick1 s1(2,3) w(5-8) q2(1) by (intro exI [of _ ?s1] exI [of _ c] exI [of _ ch]) (simp add: set_co_def)
qed

theorem blocked_read_resumes_witness:
  "let sys = (\<lambda>c. if c = 0 then (- 1, EAGAIN) else (4, 0)); s = demo_sched (Read 7 (\<lambda>n. Return))
   in \<exists>s1 s3. sched_tick 1 sys 0 s = Some (Inr (True, s1)) \<and> map_of (waiting_for_read s1) 7 = Some 1 \<and>
     tick_loop 1 sys 0 (on_fd_ready 7 s1) [] = Some (Inr ([1], s3)) \<and> coroutines s3 1 = Some \<lparr>co_state = DONE, co_prog = Return\<rparr>"
proof -
  let ?sys = "\<lambda>c::nat. if c = 0 then (- 1, EAGAIN) else (4, 0)" and ?s = "demo_sched (Read 7 (\<lambda>n. Return))"
  obtain s1 where s1: "\<And>m. sched_tick (Suc m) ?sys 0 ?s = Some (Inr (True, s1))" "map_of (waiting_for_read s1) 7 = Some 1"
      "ready_queue (on_fd_ready 7 s1) = [1]"
      "\<And>m. tick_loop (Suc m) ?sys 0 (on_fd_ready 7 s1) [] =
         (case run_prog Return ?sys 0 1 ((activated 1 \<lparr>co_state = SUSPENDED, co_prog = Read 7 (\<lambda>n. Return)\<rparr> ((on_fd_ready 7 s1)\<lparr>ready_queue := []\<rparr>))\<lparr>sys_calls := sys_calls ?s + 2\<rparr>) of
            None \<Rightarrow> None | Some (Inl x) \<Rightarrow> Some (Inl x)
          | Some (Inr (r, t)) \<Rightarrow> tick_loop m ?sys 0 ((set_co 1 (saved r) t)\<lparr>current_co := None\<rparr>) [1])"
    using blocked_read_resumes [OF demo_sched_ok(1,2), of "Read 7 (\<lambda>n. Return)" READY 7 "\<lambda>n. Return" ?sys 4 0 0 0]
    by (auto simp: demo_sched_ok(3,5,6))
  have "\<exists>s3. tick_loop (Suc 0) ?sys 0 (on_fd_ready 7 s1) [] = Some (Inr ([1], s3)) \<and> coroutines s3 1 = Some \<lparr>co_state = DONE, co_prog = Return\<rparr>"
    unfolding s1(4) by (subst run_prog.simps) (simp add: co_call_def tick_loop.simps set_co_def activated_def saved_def)
  with s1(1) [of 0] s1(2) show ?thesis unfolding Let_def by (metis One_nat_def)
qed

text \<open>A coroutine that waits to write a descriptor which a channel already watches is not heard: the channel allocated for it is not registered, so
  the descriptor is not among those \<open>select\<close> is asked about for writing, and the coroutine waits until the other
  event occurs. The channel of an earlier wait for reading is never removed, so this is the case for every descriptor read before.\<close>

lemma write_wait_unwatched:
  assumes "sched_ok s" and "current_co s = Some i" and "i \<in> dom (coroutines s)"
    and "map_of (channels (loop_poller (sched_loop s))) f = Some a" and "heap (loop_poller (sched_loop s)) a = Some ch" and "\<not> is_writing ch"
  shows "\<exists>s'. wait_for_write f s = Inr s' \<and> map_of (waiting_for_write s') f = Some i \<and>
    (\<forall>fds m. rebuild_fds (loop_poller (sched_loop s')) = Inr (fds, m) \<longrightarrow> f \<notin> write_fds fds)"
proof -
  let ?p = "loop_poller (sched_loop s)"
  obtain s' where s': "wait_for_write f s = Inr s'" "sched_ok s'" "map_of (waiting_for_write s') f = Some i"
      "channels (loop_poller (sched_loop s')) = channels ?p"
      "\<And>b. b < next_chan s \<Longrightarrow> heap (loop_poller (sched_loop s')) b = heap ?p b"
    using wait_for_write_ok [OF assms(1-3), of f] assms(4) by auto
  have "a < next_chan s"
    using assms(1,5) by (metis option.distinct(1) not_le sched_ok_def)
  then have heap': "heap (loop_poller (sched_loop s')) a = Some ch" using s'(5) assms(5) by simp
  have "f \<notin> write_fds fds" if r: "rebuild_fds (loop_poller (sched_loop s')) = Inr (fds, m)" for fds m
  proof
    assume "f \<in> write_fds fds"
    then obtain fa ch' where fa: "fa \<in> set (channels ?p)" "heap (loop_poller (sched_loop s')) (snd fa) = Some ch'" "fd ch' = f" "is_writing ch'"
      unfolding rebuild_fds_spec(2) [OF r] s'(4) by auto
    have ok: "poller_ok (loop_poller (sched_loop s'))" using s'(2) by (simp add: sched_ok_def)
    from poller_ok_heap [OF this, of fa] fa s'(4) have "fst fa = f" by auto
    moreover have "map_of (channels ?p) (fst fa) = Some (snd fa)"
      using fa(1) ok s'(4) by (simp add: poller_ok_def)
    ultimately have "snd fa = a" using assms(4) by simp
    with fa(2,4) heap' assms(6) show False by simp
  qed
  with s'(1,3) show ?thesis by blast
qed

end
