(* ===== verification/Coro_Context.thy ===== *)
theory Coro_Context
  imports Coro_Scheduler
begin

text \<open>
  Context switching (\<open>src/hound/src/coro/context.h\<close>, \<open>context.cpp\<close>, POSIX branch) and the coroutine object that uses it (\<open>coroutine.h\<close>, \<open>coroutine.cpp\<close>). A context holds
  the point at which its code goes on; the processor follows the switches, and every switch saves where it left. The theory \<open>Coro_Scheduler\<close>
  treats resuming a coroutine as one operation on what is left of its function; here that operation is shown to be what the switches do.
\<close>

section \<open>Contexts\<close>

text \<open>Where code can be when it switches: at the start of \<open>entry_point\<close>, inside the function of a coroutine with the rest of it to run, behind the final switch of \<open>entry_point\<close>, or
  behind the switch of \<open>resume\<close>.\<close>

datatype code = EntryPoint | InBody co_prog | AfterFinalSwap | InResume nat

record co_context =
  uctx :: "code option"
  stack :: "nat option"
  valid :: bool

definition Context_new :: co_context where
  "Context_new = \<lparr>uctx = None, stack = None, valid = False\<rparr>"

text \<open>\<open>make\<close>, with whether \<open>malloc\<close> and \<open>getcontext\<close> succeed.\<close>

definition Context_make :: "bool \<Rightarrow> bool \<Rightarrow> nat \<Rightarrow> co_context \<Rightarrow> co_fault + co_context" where
  "Context_make malloc_ok get_ok bytes c =
     (if \<not> malloc_ok then Inl CoAbort
      else if \<not> get_ok then Inl CoAbort
      else Inr (c\<lparr>uctx := Some EntryPoint, stack := Some bytes, valid := True\<rparr>))"

text \<open>\<open>swap\<close> from code that will go on at \<open>here\<close>: the context saved to, and where execution continues. Switching to a context that was never saved or made is a fault.\<close>

definition Context_swap :: "code \<Rightarrow> co_context \<Rightarrow> co_context \<Rightarrow> co_fault + co_context \<times> code" where
  "Context_swap here from to =
     (case uctx to of None \<Rightarrow> Inl CoAbort | Some next \<Rightarrow> Inr (from\<lparr>uctx := Some here\<rparr>, next))"

definition Context_destroy :: "co_context \<Rightarrow> co_context" where
  "Context_destroy c = c\<lparr>stack := None, valid := False\<rparr>"

section \<open>Coroutine objects\<close>

record co_object =
  obj_state :: co_state
  obj_func :: "co_prog option"
  obj_ctx :: co_context
  obj_sched :: co_context

text \<open>The current coroutine of the thread is \<open>current_co\<close> of the scheduler's state; the field \<open>coroutines\<close> of that state is not used here.\<close>

record machine =
  m_sched :: scheduler
  m_objs :: "nat \<rightharpoonup> co_object"

definition Coroutine_new :: "co_prog \<Rightarrow> co_object" where
  "Coroutine_new func = \<lparr>obj_state = READY, obj_func = Some func, obj_ctx = Context_new, obj_sched = Context_new\<rparr>"

definition set_obj :: "nat \<Rightarrow> co_object \<Rightarrow> machine \<Rightarrow> machine" where
  "set_obj i ob m = m\<lparr>m_objs := (m_objs m)(i \<mapsto> ob)\<rparr>"

text \<open>What is left of a coroutine's function, read off its context: the abstract coroutine, and the abstract state of the scheduler.\<close>

definition rest_of :: "co_object \<Rightarrow> co_prog" where
  "rest_of ob =
     (case uctx (obj_ctx ob) of
        Some (InBody p) \<Rightarrow> p
      | Some AfterFinalSwap \<Rightarrow> Return
      | _ \<Rightarrow> (case obj_func ob of Some p \<Rightarrow> p | None \<Rightarrow> Return))"

definition view :: "co_object \<Rightarrow> coroutine" where
  "view ob = \<lparr>co_state = obj_state ob, co_prog = rest_of ob\<rparr>"

definition abs_sched :: "machine \<Rightarrow> scheduler" where
  "abs_sched m = (m_sched m)\<lparr>coroutines := map_option view \<circ> m_objs m\<rparr>"

text \<open>\<open>resume\<close> up to its switch into the coroutine.\<close>

definition resume_enter :: "bool \<Rightarrow> bool \<Rightarrow> nat \<Rightarrow> machine \<Rightarrow> co_fault + code \<times> machine" where
  "resume_enter malloc_ok get_ok i m =
     (case m_objs m i of
        None \<Rightarrow> Inl CoAbort
      | Some ob \<Rightarrow>
          (case (if valid (obj_ctx ob) then Inr (obj_ctx ob) else Context_make malloc_ok get_ok (128 * 1024) (obj_ctx ob)) of
             Inl e \<Rightarrow> Inl e
           | Inr ctx \<Rightarrow>
               (case Context_swap (InResume i) (obj_sched ob) ctx of
                  Inl e \<Rightarrow> Inl e
                | Inr (kept, next) \<Rightarrow>
                    Inr (next, (set_obj i (ob\<lparr>obj_state := RUNNING, obj_ctx := ctx, obj_sched := kept\<rparr>) m)
                           \<lparr>m_sched := (m_sched m)\<lparr>current_co := Some i\<rparr>\<rparr>))))"

text \<open>The switch back to the scheduler, from code that goes on at \<open>here\<close>.\<close>

definition leave :: "code \<Rightarrow> nat \<Rightarrow> co_object \<Rightarrow> machine \<Rightarrow> co_fault + code \<times> machine" where
  "leave here i ob m =
     (case Context_swap here (obj_ctx ob) (obj_sched ob) of
        Inl e \<Rightarrow> Inl e
      | Inr (kept, next) \<Rightarrow> Inr (next, set_obj i (ob\<lparr>obj_ctx := kept\<rparr>) m))"

definition Coroutine_yield :: "co_prog \<Rightarrow> machine \<Rightarrow> co_fault + code \<times> machine" where
  "Coroutine_yield rest m =
     (case current_co (m_sched m) of
        None \<Rightarrow> Inl CoAbort
      | Some i \<Rightarrow>
          (case m_objs m i of
             None \<Rightarrow> Inl CoAbort
           | Some ob \<Rightarrow> leave (InBody rest) i (ob\<lparr>obj_state := SUSPENDED\<rparr>) m))"

text \<open>\<open>entry_point\<close>: its start, and what follows when the function has returned.\<close>

definition entry_start :: "machine \<Rightarrow> co_fault + code \<times> machine" where
  "entry_start m =
     (case current_co (m_sched m) of
        None \<Rightarrow> Inl CoAbort
      | Some i \<Rightarrow>
          (case m_objs m i of
             None \<Rightarrow> Inl CoAbort
           | Some ob \<Rightarrow> (case obj_func ob of None \<Rightarrow> Inl CoAbort | Some p \<Rightarrow> Inr (InBody p, m))))"

definition entry_finish :: "machine \<Rightarrow> co_fault + code \<times> machine" where
  "entry_finish m =
     (case current_co (m_sched m) of
        None \<Rightarrow> Inl CoAbort
      | Some i \<Rightarrow>
          (case m_objs m i of
             None \<Rightarrow> Inl CoAbort
           | Some ob \<Rightarrow> leave AfterFinalSwap i (ob\<lparr>obj_state := DONE, obj_func := None\<rparr>) m))"

text \<open>The coroutines a function makes while it runs become objects.\<close>

definition adopt :: "scheduler \<Rightarrow> machine \<Rightarrow> machine" where
  "adopt s m = m\<lparr>m_sched := s,
     m_objs := (\<lambda>i. case m_objs m i of Some ob \<Rightarrow> Some ob | None \<Rightarrow> map_option (\<lambda>co. Coroutine_new (co_prog co)) (coroutines s i))\<rparr>"

text \<open>The code at each point: the function of the coroutine runs up to its next \<open>yield\<close> or its end, if it gets there.\<close>

fun cpu_step :: "(nat \<Rightarrow> int \<times> int) \<Rightarrow> timestamp \<Rightarrow> code \<Rightarrow> machine \<Rightarrow> (co_fault + code \<times> machine) option" where
  "cpu_step sys now EntryPoint m = Some (entry_start m)"
| "cpu_step sys now (InBody p) m =
     (case current_co (m_sched m) of
        None \<Rightarrow> Some (Inl CoAbort)
      | Some i \<Rightarrow>
          (case run_prog p sys now i (abs_sched m) of
             None \<Rightarrow> None
           | Some (Inl e) \<Rightarrow> Some (Inl e)
           | Some (Inr (rest, s)) \<Rightarrow>
               Some (case rest of
                       Some q \<Rightarrow> Coroutine_yield q (adopt s m)
                     | None \<Rightarrow> entry_finish (adopt s m))))"
| "cpu_step sys now AfterFinalSwap m = Some (Inl CoAbort)"
| "cpu_step sys now (InResume i) m = Some (Inr (InResume i, m))"

text \<open>The processor until it is back in \<open>resume\<close>, which then clears the current coroutine. The first argument bounds the number of steps; \<open>resume_by_switching\<close> shows that two are enough
  for a function that comes back, and that there is no result only when it does not.\<close>

fun cpu_run :: "nat \<Rightarrow> (nat \<Rightarrow> int \<times> int) \<Rightarrow> timestamp \<Rightarrow> code \<Rightarrow> machine \<Rightarrow> (co_fault + machine) option" where
  "cpu_run n sys now (InResume i) m = Some (Inr (m\<lparr>m_sched := (m_sched m)\<lparr>current_co := None\<rparr>\<rparr>))"
| "cpu_run 0 sys now c m = None"
| "cpu_run (Suc n) sys now c m =
     (case cpu_step sys now c m of
        None \<Rightarrow> None
      | Some (Inl e) \<Rightarrow> Some (Inl e)
      | Some (Inr (c', m')) \<Rightarrow> cpu_run n sys now c' m')"

definition Coroutine_resume ::
  "nat \<Rightarrow> (nat \<Rightarrow> int \<times> int) \<Rightarrow> timestamp \<Rightarrow> bool \<Rightarrow> bool \<Rightarrow> nat \<Rightarrow> machine \<Rightarrow> (co_fault + machine) option" where
  "Coroutine_resume n sys now malloc_ok get_ok i m =
     (case resume_enter malloc_ok get_ok i m of
        Inl e \<Rightarrow> Some (Inl e)
      | Inr (c, m') \<Rightarrow> cpu_run n sys now c m')"

text \<open>The loop of \<open>tick\<close> over coroutine objects.\<close>

fun switching_tick :: "nat \<Rightarrow> (nat \<Rightarrow> int \<times> int) \<Rightarrow> timestamp \<Rightarrow> machine \<Rightarrow> nat list \<Rightarrow> (co_fault + nat list \<times> machine) option" where
  "switching_tick n sys now m trail =
     (case ready_queue (m_sched m) of
        [] \<Rightarrow> Some (Inr (trail, m))
      | i # q \<Rightarrow>
          (case n of
             0 \<Rightarrow> None
           | Suc n' \<Rightarrow>
               (let m1 = m\<lparr>m_sched := (m_sched m)\<lparr>ready_queue := q\<rparr>\<rparr>
                in case m_objs m1 i of
                     None \<Rightarrow> Some (Inl CoAbort)
                   | Some ob \<Rightarrow>
                       if obj_state ob = DONE then switching_tick n' sys now m1 trail
                       else (case Coroutine_resume 2 sys now True True i m1 of
                               None \<Rightarrow> None
                             | Some (Inl e) \<Rightarrow> Some (Inl e)
                             | Some (Inr m2) \<Rightarrow> switching_tick n' sys now m2 (trail @ [i])))))"

declare switching_tick.simps [simp del]

section \<open>Invariant\<close>

text \<open>Outside \<open>resume\<close>: a coroutine that has not run has no context yet, a suspended one goes on in its function, and a finished one behind its final switch.\<close>

fun obj_ok :: "co_object \<Rightarrow> bool" where
  "obj_ok ob =
     (case obj_state ob of
        READY \<Rightarrow> \<not> valid (obj_ctx ob) \<and> uctx (obj_ctx ob) = None \<and> stack (obj_ctx ob) = None \<and> obj_func ob \<noteq> None
      | RUNNING \<Rightarrow> False
      | SUSPENDED \<Rightarrow> valid (obj_ctx ob) \<and> (\<exists>p. uctx (obj_ctx ob) = Some (InBody p)) \<and> stack (obj_ctx ob) = Some (128 * 1024)
      | DONE \<Rightarrow> valid (obj_ctx ob) \<and> uctx (obj_ctx ob) = Some AfterFinalSwap \<and> stack (obj_ctx ob) = Some (128 * 1024) \<and> obj_func ob = None)"

definition machine_ok :: "machine \<Rightarrow> bool" where
  "machine_ok m \<longleftrightarrow> current_co (m_sched m) = None \<and> (\<forall>i ob. m_objs m i = Some ob \<longrightarrow> obj_ok ob) \<and>
     (\<forall>i \<ge> next_co_id (m_sched m). m_objs m i = None)"

section \<open>Switching implements resuming\<close>

lemma abs_sched_simps [simp]:
  "coroutines (abs_sched m) i = map_option view (m_objs m i)" "current_co (abs_sched m) = current_co (m_sched m)"
  by (simp_all add: abs_sched_def)

lemma resume_enter_ok:
  assumes "machine_ok m" and "m_objs m i = Some ob" and "obj_state ob \<noteq> DONE"
  shows "\<exists>c m1 ob1. resume_enter True True i m = Inr (c, m1) \<and> m_objs m1 = (m_objs m)(i \<mapsto> ob1) \<and>
    abs_sched m1 = (set_co i ((view ob)\<lparr>co_state := RUNNING\<rparr>) (abs_sched m))\<lparr>current_co := Some i\<rparr> \<and> current_co (m_sched m1) = Some i \<and> next_co_id (m_sched m1) = next_co_id (m_sched m) \<and>
    uctx (obj_sched ob1) = Some (InResume i) \<and> valid (obj_ctx ob1) \<and> stack (obj_ctx ob1) = Some (128 * 1024) \<and>
    (c = EntryPoint \<and> obj_func ob1 = Some (rest_of ob) \<or> c = InBody (rest_of ob))"
proof -
  have ok: "obj_ok ob" using assms(1,2) by (simp add: machine_ok_def)
  define ctx where "ctx = (if valid (obj_ctx ob) then obj_ctx ob else (obj_ctx ob)\<lparr>uctx := Some EntryPoint, stack := Some (128 * 1024), valid := True\<rparr>)"
  let ?ob1 = "ob\<lparr>obj_state := RUNNING, obj_ctx := ctx, obj_sched := (obj_sched ob)\<lparr>uctx := Some (InResume i)\<rparr>\<rparr>"
  let ?m1 = "(set_obj i ?ob1 m)\<lparr>m_sched := (m_sched m)\<lparr>current_co := Some i\<rparr>\<rparr>"
  obtain c where c: "uctx ctx = Some c" "c = EntryPoint \<and> obj_func ob = Some (rest_of ob) \<or> c = InBody (rest_of ob)" "rest_of ?ob1 = rest_of ob"
    "valid ctx" "stack ctx = Some (128 * 1024)"
    using ok assms(3) by (cases "obj_state ob") (auto simp: ctx_def rest_of_def)
  then have "resume_enter True True i m = Inr (c, ?m1)"
    using assms(2) by (auto simp: resume_enter_def Context_make_def Context_swap_def ctx_def)
  moreover have "abs_sched ?m1 = (set_co i ((view ob)\<lparr>co_state := RUNNING\<rparr>) (abs_sched m))\<lparr>current_co := Some i\<rparr>"
    using c(3) by (auto simp: abs_sched_def set_co_def set_obj_def view_def fun_eq_iff)
  ultimately show ?thesis
    using c by (intro exI [of _ c] exI [of _ ?m1] exI [of _ ?ob1]) (simp add: set_obj_def)
qed

definition after_body :: "co_prog option \<Rightarrow> co_object \<Rightarrow> co_object" where
  "after_body rest ob =
     (case rest of
        Some q \<Rightarrow> ob\<lparr>obj_state := SUSPENDED, obj_ctx := (obj_ctx ob)\<lparr>uctx := Some (InBody q)\<rparr>\<rparr>
      | None \<Rightarrow> ob\<lparr>obj_state := DONE, obj_func := None, obj_ctx := (obj_ctx ob)\<lparr>uctx := Some AfterFinalSwap\<rparr>\<rparr>)"

text \<open>What a stretch of the function leaves of the objects: those that existed are as they were, and the new ones are ready.\<close>

definition objs_fresh :: "machine \<Rightarrow> bool" where
  "objs_fresh m \<longleftrightarrow> (\<forall>i \<ge> next_co_id (m_sched m). m_objs m i = None)"

lemma abs_fresh: "objs_fresh m \<Longrightarrow> fresh_ids (abs_sched m)"
  by (simp add: objs_fresh_def fresh_ids_def abs_sched_def)

lemma view_new: "co_state co = READY \<Longrightarrow> view (Coroutine_new (co_prog co)) = co"
  by (simp add: view_def rest_of_def Coroutine_new_def Context_new_def)

lemma adopt_ok:
  assumes "objs_fresh m" and "run_prog p sys now i (abs_sched m) = Some (Inr (rest, s))"
  shows "abs_sched (adopt s m) = s" and "objs_fresh (adopt s m)" and "current_co s = current_co (m_sched m)"
    and "m_objs m j = Some ob \<Longrightarrow> m_objs (adopt s m) j = Some ob"
    and "m_objs m j = None \<Longrightarrow> m_objs (adopt s m) j = Some ob \<Longrightarrow> obj_ok ob"
proof -
  have g: "grows (abs_sched m) s" by (rule run_prog_grows [OF assms(2) abs_fresh [OF assms(1)]])
  have old: "coroutines s j = map_option view (m_objs m j)" if "j < next_co_id (m_sched m)" for j
    using g that by (simp add: grows_def abs_sched_def)
  have "map_option view (m_objs (adopt s m) j) = coroutines s j" for j
  proof (cases "j < next_co_id (m_sched m)")
    case True
    then show ?thesis using old [OF True] by (cases "m_objs m j") (simp_all add: adopt_def)
  next
    case False
    then have j: "next_co_id (m_sched m) \<le> j" by simp
    then have "m_objs m j = None" using assms(1) by (simp add: objs_fresh_def)
    moreover have "\<forall>i \<ge> next_co_id (m_sched m). \<forall>co. coroutines s i = Some co \<longrightarrow> co_state co = READY"
      using g by (simp add: grows_def abs_sched_def)
    then have "\<forall>co. coroutines s j = Some co \<longrightarrow> co_state co = READY" using j by blast
    ultimately show ?thesis by (cases "coroutines s j") (simp_all add: adopt_def view_new)
  qed
  then show "abs_sched (adopt s m) = s" by (simp add: abs_sched_def comp_def adopt_def)
  have "next_co_id (m_sched m) \<le> next_co_id s" "fresh_ids s" using g by (simp_all add: grows_def abs_sched_def)
  then show "objs_fresh (adopt s m)" using assms(1) by (simp add: objs_fresh_def fresh_ids_def adopt_def)
  show "current_co s = current_co (m_sched m)" using g by (simp add: grows_def abs_sched_def)
  show "m_objs m j = Some ob \<Longrightarrow> m_objs (adopt s m) j = Some ob" by (simp add: adopt_def)
  show "m_objs m j = None \<Longrightarrow> m_objs (adopt s m) j = Some ob \<Longrightarrow> obj_ok ob"
    by (auto simp: adopt_def Coroutine_new_def Context_new_def)
qed

lemma body_step:
  assumes "objs_fresh m" and "current_co (m_sched m) = Some i" and "m_objs m i = Some ob" and "uctx (obj_sched ob) = Some (InResume i)"
    and "run_prog p sys now i (abs_sched m) = Some (Inr (rest, s))"
  shows "cpu_step sys now (InBody p) m = Some (Inr (InResume i, set_obj i (after_body rest ob) (adopt s m)))"
  using adopt_ok(3) [OF assms(1,5)] adopt_ok(4) [OF assms(1,5,3)] assms
  by (cases rest) (simp_all add: Coroutine_yield_def entry_finish_def leave_def Context_swap_def set_obj_def after_body_def adopt_def)

lemma after_body_ok:
  assumes "valid (obj_ctx ob)" and "stack (obj_ctx ob) = Some (128 * 1024)"
  shows "obj_ok (after_body rest ob)"
    and "view (after_body rest ob) = (case rest of None \<Rightarrow> \<lparr>co_state = DONE, co_prog = Return\<rparr> | Some p \<Rightarrow> \<lparr>co_state = SUSPENDED, co_prog = p\<rparr>)"
  using assms by (cases rest; simp add: after_body_def view_def rest_of_def)+

lemma view_fields: "co_state (view ob) = obj_state ob" "co_prog (view ob) = rest_of ob"
  by (simp_all add: view_def)

text \<open>The machine after a stretch of a coroutine, back in \<open>resume\<close>.\<close>

definition switched_back :: "nat \<Rightarrow> co_object \<Rightarrow> machine \<Rightarrow> activation \<Rightarrow> co_fault + machine" where
  "switched_back i ob m a = map_sum id (\<lambda>(rest, s). (set_obj i (after_body rest ob) (adopt s m))\<lparr>m_sched := s\<lparr>current_co := None\<rparr>\<rparr>) a"

lemma cpu_run_body:
  assumes "objs_fresh m" and "current_co (m_sched m) = Some i" and "m_objs m i = Some ob" and "uctx (obj_sched ob) = Some (InResume i)"
    and "c = EntryPoint \<and> obj_func ob = Some p \<or> c = InBody p"
  shows "cpu_run 2 sys now c m = map_option (switched_back i ob m) (run_prog p sys now i (abs_sched m))"
proof -
  have body: "cpu_run (Suc n) sys now (InBody p) m = map_option (switched_back i ob m) (run_prog p sys now i (abs_sched m))" for n
  proof (cases "run_prog p sys now i (abs_sched m)")
    case None
    then show ?thesis using assms(2) by simp
  next
    case (Some a)
    show ?thesis
    proof (cases a)
      case (Inl e)
      then show ?thesis using Some assms(2) by (simp add: switched_back_def)
    next
      case (Inr r)
      moreover obtain rest s where "r = (rest, s)" by fastforce
      ultimately show ?thesis
        using body_step [OF assms(1-4), of p sys now rest s] Some
        by (simp add: switched_back_def set_obj_def adopt_def del: cpu_step.simps(2))
    qed
  qed
  from assms(5) show ?thesis
  proof
    assume "c = InBody p"
    then show ?thesis using body [of 1] by (simp add: numeral_2_eq_2)
  next
    assume "c = EntryPoint \<and> obj_func ob = Some p"
    then have "cpu_run 2 sys now c m = cpu_run (Suc 0) sys now (InBody p) m"
      using assms(2,3) by (simp add: numeral_2_eq_2 entry_start_def del: cpu_step.simps(2))
    then show ?thesis using body [of 0] by simp
  qed
qed

lemma switched_back_ok:
  assumes "objs_fresh m" and "m_objs m i = Some ob" and "valid (obj_ctx ob)" and "stack (obj_ctx ob) = Some (128 * 1024)"
    and "\<forall>j ob'. j \<noteq> i \<and> m_objs m j = Some ob' \<longrightarrow> obj_ok ob'" and "run_prog p sys now i (abs_sched m) = Some (Inr (rest, s))"
    and "switched_back i ob m (Inr (rest, s)) = Inr m'"
  shows "abs_sched m' = (set_co i (saved rest) s)\<lparr>current_co := None\<rparr>" and "machine_ok m'"
    and "j \<noteq> i \<Longrightarrow> m_objs m j = Some ob' \<Longrightarrow> m_objs m' j = Some ob'"
proof -
  note ad = adopt_ok [OF assms(1,6)]
  have m': "m' = (set_obj i (after_body rest ob) (adopt s m))\<lparr>m_sched := s\<lparr>current_co := None\<rparr>\<rparr>"
    using assms(7) by (simp add: switched_back_def)
  have view: "view (after_body rest ob) = saved rest" using after_body_ok(2) [OF assms(3,4)] by (simp add: saved_def)
  have "coroutines s = map_option view \<circ> m_objs (adopt s m)" using arg_cong [OF ad(1), of coroutines] by (simp add: abs_sched_def)
  then show "abs_sched m' = (set_co i (saved rest) s)\<lparr>current_co := None\<rparr>"
    by (auto simp: m' abs_sched_def set_co_def set_obj_def view fun_eq_iff)
  have "obj_ok ob'" if "m_objs (adopt s m) j = Some ob'" "j \<noteq> i" for j ob'
    using that assms(5) ad(4) [of j] ad(5) [of j ob'] by (cases "m_objs m j") (auto simp del: obj_ok.simps)
  moreover have "i < next_co_id (m_sched (adopt s m))" using ad(2) ad(4) [OF assms(2)] by (metis not_le objs_fresh_def option.distinct(1))
  ultimately show "machine_ok m'"
    using after_body_ok(1) [OF assms(3,4), of rest] ad(2)
    by (auto simp: m' machine_ok_def set_obj_def objs_fresh_def adopt_def simp del: obj_ok.simps split: if_splits)
  show "j \<noteq> i \<Longrightarrow> m_objs m j = Some ob' \<Longrightarrow> m_objs m' j = Some ob'" using ad(4) [of j ob'] by (simp add: m' set_obj_def)
qed

text \<open>Switching contexts does what the scheduler expects of \<open>resume\<close>. For a coroutine that is not finished, the processor comes back to \<open>resume\<close> exactly when the coroutine's function yields or ends, after at most the
  start of \<open>entry_point\<close> and one stretch of the function; what has happened by then is exactly the abstract \<open>resume\<close> of \<open>Coro_Scheduler\<close>, faults included,
  and every context again holds where its coroutine has to go on.\<close>

lemma resume_by_switching:
  assumes "machine_ok m" and "m_objs m i = Some ob" and "obj_state ob \<noteq> DONE"
  shows "resume sys now i (abs_sched m) = map_option (map_sum id abs_sched) (Coroutine_resume 2 sys now True True i m) \<and>
    (\<forall>m'. Coroutine_resume 2 sys now True True i m = Some (Inr m') \<longrightarrow> machine_ok m' \<and> (\<forall>j ob'. j \<noteq> i \<and> m_objs m j = Some ob' \<longrightarrow> m_objs m' j = Some ob'))"
proof -
  obtain c m1 ob1 where m1: "resume_enter True True i m = Inr (c, m1)" "m_objs m1 = (m_objs m)(i \<mapsto> ob1)"
    "abs_sched m1 = (set_co i ((view ob)\<lparr>co_state := RUNNING\<rparr>) (abs_sched m))\<lparr>current_co := Some i\<rparr>" "current_co (m_sched m1) = Some i"
    "next_co_id (m_sched m1) = next_co_id (m_sched m)"
    "uctx (obj_sched ob1) = Some (InResume i)" "valid (obj_ctx ob1)" "stack (obj_ctx ob1) = Some (128 * 1024)"
    "c = EntryPoint \<and> obj_func ob1 = Some (rest_of ob) \<or> c = InBody (rest_of ob)"
    using resume_enter_ok [OF assms] by blast
  let ?run = "run_prog (rest_of ob) sys now i (abs_sched m1)"
  have "i < next_co_id (m_sched m)" using assms(1,2) by (metis machine_ok_def not_le option.distinct(1))
  then have fresh: "objs_fresh m1" using assms(1) m1(2,5) by (simp add: objs_fresh_def machine_ok_def)
  have i: "m_objs m1 i = Some ob1" and others: "\<forall>j ob'. j \<noteq> i \<and> m_objs m1 j = Some ob' \<longrightarrow> obj_ok ob'"
    using m1(2) assms(1) by (simp_all add: machine_ok_def del: obj_ok.simps)
  have run: "Coroutine_resume 2 sys now True True i m = map_option (switched_back i ob1 m1) ?run"
    using cpu_run_body [OF fresh m1(4) i m1(6,9), of sys now] m1(1) by (simp add: Coroutine_resume_def)
  have act: "activated i (view ob) (abs_sched m) = abs_sched m1" using m1(3) by (simp add: activated_def)
  have co: "coroutines (abs_sched m) i = Some (view ob)" using assms(2) by simp
  show ?thesis
  proof (cases "\<exists>rest s. ?run = Some (Inr (rest, s))")
    case True
    then obtain rest s where r: "?run = Some (Inr (rest, s))" by blast
    obtain m' where m': "switched_back i ob1 m1 (Inr (rest, s)) = Inr m'" by (simp add: switched_back_def)
    note ok = switched_back_ok [OF fresh i m1(7,8) others r m']
    have "resume sys now i (abs_sched m) = Some (Inr (abs_sched m'))"
      using resume_eq [OF co, of sys now rest s] r act view_fields(2) [of ob] ok(1) by simp
    then show ?thesis using run r m' ok(2,3) m1(2) by auto
  next
    case False
    then have "?run = None \<or> (\<exists>e. ?run = Some (Inl e))" by (cases ?run) (auto simp: sum.split_sel, metis old.prod.exhaust sum.exhaust)
    then show ?thesis
      using run co m1(3) view_fields(2) [of ob] by (auto simp: resume_def switched_back_def)
  qed
qed

text \<open>A finished coroutine must not be resumed: its context stands behind the final switch, and the next instruction there is \<open>LOG_FATAL\<close>. The scheduler skips it.\<close>

lemma resume_done_aborts:
  assumes "machine_ok m" and "m_objs m i = Some ob" and "obj_state ob = DONE"
  shows "Coroutine_resume (Suc n) sys now malloc_ok get_ok i m = Some (Inl CoAbort)"
proof -
  have "obj_ok ob" using assms(1,2) by (simp add: machine_ok_def del: obj_ok.simps)
  then show ?thesis
    using assms(2,3) by (simp add: Coroutine_resume_def resume_enter_def Context_swap_def)
qed

lemma abs_sched_queue: "abs_sched (m\<lparr>m_sched := (m_sched m)\<lparr>ready_queue := q\<rparr>\<rparr>) = (abs_sched m)\<lparr>ready_queue := q\<rparr>"
  "ready_queue (abs_sched m) = ready_queue (m_sched m)"
  by (simp_all add: abs_sched_def)

section \<open>Properties\<close>

text \<open>C22. The scheduler can rely on switching contexts. A cycle of the scheduler in which every resumption is carried out by switching, from \<open>resume\<close> into the saved or new
  context of the coroutine and back by \<open>yield\<close> or the end of \<open>entry_point\<close>, has the result of the cycle of \<open>Coro_Scheduler\<close>, which runs what is left of each
  coroutine's function: the same coroutines are resumed in the same order, with the same faults, and the contexts then hold the coroutines of the resulting state. The coroutines' functions may
  create and schedule coroutines, and may run forever: then neither cycle has a result.\<close>

theorem tick_by_switching:
  assumes "machine_ok m"
  shows "tick_loop n sys now (abs_sched m) trail = map_option (map_sum id (map_prod id abs_sched)) (switching_tick n sys now m trail) \<and>
    (\<forall>trail' m'. switching_tick n sys now m trail = Some (Inr (trail', m')) \<longrightarrow> machine_ok m')"
  using assms
proof (induction n arbitrary: m trail)
  case 0
  then show ?case
    by (subst (1 2) switching_tick.simps, subst tick_loop.simps) (auto simp: abs_sched_queue split: list.splits)
next
  case (Suc n)
  show ?case
  proof (cases "ready_queue (m_sched m)")
    case Nil
    then show ?thesis
      using Suc.prems by (subst (1 2) switching_tick.simps, subst tick_loop.simps) (simp add: abs_sched_queue)
  next
    case (Cons i q)
    let ?m1 = "m\<lparr>m_sched := (m_sched m)\<lparr>ready_queue := q\<rparr>\<rparr>"
    have ok: "machine_ok ?m1" using Suc.prems by (simp add: machine_ok_def)
    have abs: "coroutines ((abs_sched m)\<lparr>ready_queue := q\<rparr>) i = map_option view (m_objs m i)" by simp
    consider "m_objs m i = None" | ob where "m_objs m i = Some ob" "obj_state ob = DONE" | ob where "m_objs m i = Some ob" "obj_state ob \<noteq> DONE" by auto
    then show ?thesis
    proof cases
      case (3 ob)
      let ?r = "Coroutine_resume 2 sys now True True i ?m1"
      have r: "resume sys now i (abs_sched ?m1) = map_option (map_sum id abs_sched) ?r" "\<forall>m'. ?r = Some (Inr m') \<longrightarrow> machine_ok m'"
        using resume_by_switching [OF ok, of i ob sys now] 3 by simp_all
      show ?thesis
      proof (cases ?r)
        case None
        then show ?thesis
          using r 3 Cons by (subst (1 2) switching_tick.simps, subst tick_loop.simps) (simp add: abs_sched_queue abs view_fields Let_def id_def)
      next
        case (Some x)
        then show ?thesis
          using r 3 Cons Suc.IH by (subst (1 2) switching_tick.simps, subst tick_loop.simps)
            (cases x; simp add: abs_sched_queue abs view_fields Let_def id_def)
      qed
    qed (use Cons ok Suc.IH [OF ok] in \<open>subst (1 2) switching_tick.simps, subst tick_loop.simps, simp add: abs_sched_queue abs view_fields Let_def id_def\<close>)+
  qed
qed

definition demo_machine :: "co_prog \<Rightarrow> machine" where
  "demo_machine p = \<lparr>m_sched = demo_sched p, m_objs = [1 \<mapsto> Coroutine_new p]\<rparr>"

lemma demo_machine_ok: "machine_ok (demo_machine p)" "abs_sched (demo_machine p) = demo_sched p"
proof -
  show "machine_ok (demo_machine p)"
    by (simp add: machine_ok_def demo_machine_def demo_sched_ok Coroutine_new_def Context_new_def)
  have "map_option view \<circ> [1 \<mapsto> Coroutine_new p] = coroutines (demo_sched p)"
    by (auto simp: demo_sched_ok(3) view_def rest_of_def Coroutine_new_def Context_new_def fun_eq_iff)
  then show "abs_sched (demo_machine p) = demo_sched p"
    by (simp add: abs_sched_def demo_machine_def)
qed

theorem tick_by_switching_witness:
  "\<exists>m'. switching_tick 1 (\<lambda>k. (0, 0)) 0 (demo_machine (Yield Return)) [] = Some (Inr ([1], m')) \<and> machine_ok m' \<and>
     coroutines (abs_sched m') 1 = Some \<lparr>co_state = SUSPENDED, co_prog = Return\<rparr>"
proof -
  let ?m = "demo_machine (Yield Return)" and ?sys = "\<lambda>k :: nat. (0, 0) :: int \<times> int"
  have "\<exists>s'. tick_loop 1 ?sys 0 (demo_sched (Yield Return)) [] = Some (Inr ([1], s')) \<and>
      coroutines s' 1 = Some \<lparr>co_state = SUSPENDED, co_prog = Return\<rparr>"
    by (simp add: demo_sched_ok(2,3) resume_def set_co_def tick_loop.simps, subst run_prog.simps)
      (simp add: co_call_def yields_def set_co_def tick_loop.simps)
  then obtain s' where s': "tick_loop 1 ?sys 0 (demo_sched (Yield Return)) [] = Some (Inr ([1], s'))"
    "coroutines s' 1 = Some \<lparr>co_state = SUSPENDED, co_prog = Return\<rparr>" by blast
  have "tick_loop 1 ?sys 0 (demo_sched (Yield Return)) [] = map_option (map_sum id (map_prod id abs_sched)) (switching_tick 1 ?sys 0 ?m [])"
    "\<forall>trail' m'. switching_tick 1 ?sys 0 ?m [] = Some (Inr (trail', m')) \<longrightarrow> machine_ok m'"
    using tick_by_switching [OF demo_machine_ok(1), of 1 ?sys 0 "Yield Return" "[]"] unfolding demo_machine_ok(2) by blast+
  then show ?thesis
    using s' by (fastforce simp: map_sum_Inr_iff)
qed

end
