(* ===== verification/Fiber_Context.thy ===== *)
theory Fiber_Context
  imports Coro_Context
begin

text \<open>
  The Windows branch of context switching (\<open>src/hound/src/coro/context.cpp\<close>, \<open>context.h\<close>) under the coroutine object of \<open>coroutine.cpp\<close>. There a context is the handle of a fiber, or null;
  the system keeps for every fiber where it goes on. Whether \<open>CreateFiber\<close> succeeds is a parameter.
\<close>

section \<open>Fibers\<close>

record fibers =
  fib_code :: "nat \<rightharpoonup> code"
  cur_fiber :: "nat option"
  next_fiber :: nat

record fiber_ctx =
  fiber :: "nat option"
  fib_valid :: bool

datatype fiber_fault = SwitchToNull | SwitchToDeleted | FiberAbort

definition Fiber_new :: fiber_ctx where
  "Fiber_new = \<lparr>fiber = None, fib_valid = False\<rparr>"

text \<open>\<open>make\<close> first turns the thread into a fiber, if it is none yet, and drops that fiber's handle.\<close>

definition convert_thread :: "fibers \<Rightarrow> fibers" where
  "convert_thread fs = (case cur_fiber fs of None \<Rightarrow> fs\<lparr>cur_fiber := Some (next_fiber fs), next_fiber := next_fiber fs + 1\<rparr> | Some _ \<Rightarrow> fs)"

definition Fiber_make :: "bool \<Rightarrow> fiber_ctx \<Rightarrow> fibers \<Rightarrow> fiber_fault + fiber_ctx \<times> fibers" where
  "Fiber_make create_ok c fs =
     (let fs1 = convert_thread fs; n = next_fiber fs1
      in if \<not> create_ok then Inl FiberAbort
         else Inr (c\<lparr>fiber := Some n, fib_valid := True\<rparr>, fs1\<lparr>fib_code := (fib_code fs1)(n \<mapsto> EntryPoint), next_fiber := n + 1\<rparr>))"

text \<open>\<open>swap\<close> looks only at the context it switches to; the fiber that was running is saved by the system.\<close>

definition Fiber_swap :: "code \<Rightarrow> fiber_ctx \<Rightarrow> fiber_ctx \<Rightarrow> fibers \<Rightarrow> fiber_fault + code \<times> fibers" where
  "Fiber_swap here from to fs =
     (case fiber to of
        None \<Rightarrow> Inl SwitchToNull
      | Some n \<Rightarrow>
          (case fib_code fs n of
             None \<Rightarrow> Inl SwitchToDeleted
           | Some next \<Rightarrow>
               Inr (next, fs\<lparr>fib_code := (case cur_fiber fs of None \<Rightarrow> fib_code fs | Some u \<Rightarrow> (fib_code fs)(u \<mapsto> here)), cur_fiber := Some n\<rparr>)))"

definition Fiber_destroy :: "fiber_ctx \<Rightarrow> fibers \<Rightarrow> fiber_ctx \<times> fibers" where
  "Fiber_destroy c fs =
     (case fiber c of
        None \<Rightarrow> (c\<lparr>fib_valid := False\<rparr>, fs)
      | Some n \<Rightarrow> (c\<lparr>fiber := None, fib_valid := False\<rparr>, fs\<lparr>fib_code := (fib_code fs)(n := None)\<rparr>))"

section \<open>Coroutines on fibers\<close>

record win_co =
  wco_state :: co_state
  wco_func :: "co_prog option"
  wco_ctx :: fiber_ctx
  wco_sched :: fiber_ctx

record win_machine =
  wm_fibers :: fibers
  wm_objs :: "nat \<rightharpoonup> win_co"
  wm_current :: "nat option"

definition win_Coroutine_new :: "co_prog \<Rightarrow> win_co" where
  "win_Coroutine_new func = \<lparr>wco_state = READY, wco_func = Some func, wco_ctx = Fiber_new, wco_sched = Fiber_new\<rparr>"

definition win_resume_enter :: "bool \<Rightarrow> nat \<Rightarrow> win_machine \<Rightarrow> fiber_fault + code \<times> win_machine" where
  "win_resume_enter create_ok i m =
     (case wm_objs m i of
        None \<Rightarrow> Inl FiberAbort
      | Some ob \<Rightarrow>
          (case (if fib_valid (wco_ctx ob) then Inr (wco_ctx ob, wm_fibers m) else Fiber_make create_ok (wco_ctx ob) (wm_fibers m)) of
             Inl e \<Rightarrow> Inl e
           | Inr (ctx, fs) \<Rightarrow>
               map_sum id (\<lambda>(next, fs1). (next, m\<lparr>wm_fibers := fs1, wm_current := Some i, wm_objs := (wm_objs m)(i \<mapsto> ob\<lparr>wco_state := RUNNING, wco_ctx := ctx\<rparr>)\<rparr>))
                 (Fiber_swap (InResume i) (wco_sched ob) ctx fs)))"

text \<open>The switch back, from \<open>yield\<close> and from the end of \<open>entry_point\<close>.\<close>

definition win_leave :: "code \<Rightarrow> (win_co \<Rightarrow> win_co) \<Rightarrow> win_machine \<Rightarrow> fiber_fault + code \<times> win_machine" where
  "win_leave here upd m =
     (case wm_current m of
        None \<Rightarrow> Inl FiberAbort
      | Some i \<Rightarrow>
          (case wm_objs m i of
             None \<Rightarrow> Inl FiberAbort
           | Some ob \<Rightarrow>
               map_sum id (\<lambda>(next, fs). (next, m\<lparr>wm_fibers := fs, wm_objs := (wm_objs m)(i \<mapsto> upd ob)\<rparr>))
                 (Fiber_swap here (wco_ctx ob) (wco_sched ob) (wm_fibers m))))"

definition win_yield :: "co_prog \<Rightarrow> win_machine \<Rightarrow> fiber_fault + code \<times> win_machine" where
  "win_yield rest m = win_leave (InBody rest) (\<lambda>ob. ob\<lparr>wco_state := SUSPENDED\<rparr>) m"

definition win_finish :: "win_machine \<Rightarrow> fiber_fault + code \<times> win_machine" where
  "win_finish m = win_leave AfterFinalSwap (\<lambda>ob. ob\<lparr>wco_state := DONE, wco_func := None\<rparr>) m"

text \<open>A run: coroutines are created, resumed and destroyed, and the running one yields or finishes.\<close>

definition win_destroy_co :: "nat \<Rightarrow> win_machine \<Rightarrow> win_machine" where
  "win_destroy_co i m =
     (case wm_objs m i of
        None \<Rightarrow> m
      | Some ob \<Rightarrow>
          let (c, fs) = Fiber_destroy (wco_sched ob) (wm_fibers m); (d, fs1) = Fiber_destroy (wco_ctx ob) fs
          in m\<lparr>wm_fibers := fs1, wm_objs := (wm_objs m)(i := None)\<rparr>)"

inductive win_step :: "win_machine \<Rightarrow> fiber_fault + win_machine \<Rightarrow> bool" where
  w_create: "wm_objs m i = None \<Longrightarrow> win_step m (Inr (m\<lparr>wm_objs := (wm_objs m)(i \<mapsto> win_Coroutine_new p)\<rparr>))"
| w_resume: "wm_objs m i \<noteq> None \<Longrightarrow> win_step m (map_sum id snd (win_resume_enter ok i m))"
| w_yield: "wm_current m \<noteq> None \<Longrightarrow> win_step m (map_sum id snd (win_yield rest m))"
| w_finish: "wm_current m \<noteq> None \<Longrightarrow> win_step m (map_sum id snd (win_finish m))"
| w_destroy: "wm_current m \<noteq> Some i \<Longrightarrow> win_step m (Inr (win_destroy_co i m))"

definition win_machine_new :: win_machine where
  "win_machine_new = \<lparr>wm_fibers = \<lparr>fib_code = Map.empty, cur_fiber = None, next_fiber = 1\<rparr>, wm_objs = Map.empty, wm_current = None\<rparr>"

inductive win_reach :: "fiber_fault + win_machine \<Rightarrow> bool" where
  reach_new: "win_reach (Inr win_machine_new)"
| reach_step: "win_reach (Inr m) \<Longrightarrow> win_step m r \<Longrightarrow> win_reach r"

section \<open>The scheduler's context\<close>

text \<open>Nothing ever gives the scheduler's context a fiber, and the coroutine that runs is not destroyed.\<close>

definition unset_sched :: "win_machine \<Rightarrow> bool" where
  "unset_sched m \<longleftrightarrow> (\<forall>i ob. wm_objs m i = Some ob \<longrightarrow> fiber (wco_sched ob) = None) \<and> (\<forall>i. wm_current m = Some i \<longrightarrow> wm_objs m i \<noteq> None)"

lemma leave_null:
  assumes "unset_sched m" and "wm_current m \<noteq> None"
  shows "win_leave here upd m = Inl SwitchToNull"
proof -
  obtain i ob where "wm_current m = Some i" "wm_objs m i = Some ob" "fiber (wco_sched ob) = None"
    using assms unfolding unset_sched_def by (metis option.exhaust)
  then show ?thesis by (simp add: win_leave_def Fiber_swap_def)
qed

lemma resume_unset:
  assumes "unset_sched m" and "win_resume_enter ok i m = Inr (c, m')"
  shows "unset_sched m'"
  using assms by (auto simp: win_resume_enter_def unset_sched_def map_sum_Inr_iff split: option.splits sum.splits if_splits)

lemma reach_unset: "win_reach r \<Longrightarrow> r = Inr m \<Longrightarrow> unset_sched m"
proof (induction arbitrary: m rule: win_reach.induct)
  case reach_new
  then show ?case by (auto simp: win_machine_new_def unset_sched_def)
next
  case (reach_step k r)
  then have k: "unset_sched k" by simp
  from reach_step.hyps(2) show ?case
  proof cases
    case (w_create i p)
    then show ?thesis using k reach_step.prems by (auto simp: unset_sched_def win_Coroutine_new_def Fiber_new_def)
  next
    case (w_resume i ok)
    then have "map_sum id snd (win_resume_enter ok i k) = Inr m" using reach_step.prems by simp
    then show ?thesis using resume_unset [OF k] by (auto simp: map_sum_Inr_iff)
  next
    case (w_yield rest)
    then show ?thesis using leave_null [OF k] reach_step.prems by (simp add: win_yield_def)
  next
    case w_finish
    then show ?thesis using leave_null [OF k] reach_step.prems by (simp add: win_finish_def)
  next
    case (w_destroy i)
    then show ?thesis using k reach_step.prems by (auto simp: unset_sched_def win_destroy_co_def split: option.splits prod.splits if_splits)
  qed
qed

section \<open>Properties\<close>

text \<open>C37. On Windows no coroutine gives control back. In every state a program with coroutines can reach there, entering a new coroutine succeeds when the system can create its fiber, and execution goes on in \<open>entry_point\<close>; but whenever
  a coroutine runs, its next \<open>yield\<close>, and the switch at the end of \<open>entry_point\<close>, passes a null pointer to \<open>SwitchToFiber\<close>: the context of the scheduler never gets a fiber.\<close>

theorem fibers_cannot_return:
  assumes "win_reach (Inr m)"
  shows "(\<forall>i ob. wm_objs m i = Some ob \<and> \<not> fib_valid (wco_ctx ob) \<longrightarrow> (\<exists>m'. win_resume_enter True i m = Inr (EntryPoint, m') \<and> wm_current m' = Some i)) \<and>
    (wm_current m \<noteq> None \<longrightarrow> win_yield rest m = Inl SwitchToNull \<and> win_finish m = Inl SwitchToNull)"
  using leave_null [OF reach_unset [OF assms refl]]
  by (auto simp: win_yield_def win_finish_def win_resume_enter_def Fiber_make_def Fiber_swap_def Let_def)

theorem fibers_cannot_return_witness:
  "\<exists>m. win_reach (Inr m) \<and> wm_current m = Some 1 \<and> win_yield Return m = Inl SwitchToNull"
proof -
  let ?m = "win_machine_new\<lparr>wm_objs := [1 \<mapsto> win_Coroutine_new (Yield Return)]\<rparr>"
  have "win_reach (Inr ?m)"
    using reach_step [OF reach_new w_create [of win_machine_new 1 "Yield Return"]] by (simp add: win_machine_new_def)
  moreover have ob: "wm_objs ?m 1 = Some (win_Coroutine_new (Yield Return))" "\<not> fib_valid (wco_ctx (win_Coroutine_new (Yield Return)))"
    by (simp_all add: win_Coroutine_new_def Fiber_new_def)
  obtain m' where m': "win_resume_enter True 1 ?m = Inr (EntryPoint, m')" "wm_current m' = Some 1"
    using fibers_cannot_return [OF \<open>win_reach (Inr ?m)\<close>] ob by blast
  ultimately have "win_reach (Inr m')" using reach_step [OF _ w_resume [of ?m 1 True]] by simp
  with fibers_cannot_return [OF this, of Return] m'(2) show ?thesis by auto
qed

end
