(* ===== verification/Example_Http.thy ===== *)
theory Example_Http
  imports Server_Life
begin

text \<open>
  The demonstration server (\<open>src/hound/examples/http_server.cpp\<close>): its routes and handlers on the HTTP server, and what a client of it gets.
\<close>

section \<open>Handlers\<close>

text \<open>The six handlers \<open>main\<close> registers. String literals are their bytes, non-ASCII characters in UTF-8.\<close>

datatype page = Index | ApiStatus | ApiUsers | ApiUser | CreateUser | Hello

definition index_html :: string where
  "index_html =
     ''<!DOCTYPE html>'' @ [LF] @
     ''<html><head><title>Hound</title></head>'' @ [LF] @
     ''<body>'' @ [LF] @
     ''<h1>'' @ [CHR 0xF0, CHR 0x9F, CHR 0x90, CHR 0xB6] @ '' Hound HTTP Server</h1>'' @ [LF] @
     ''<p>Running on C++17 Reactor framework</p>'' @ [LF] @
     ''<ul>'' @ [LF] @
     ''<li><a href='' @ [CHR 0x27] @ ''/api/status'' @ [CHR 0x27] @ ''>GET /api/status</a> '' @ [CHR 0xE2, CHR 0x80, CHR 0x94] @ '' Server info</li>'' @ [LF] @
     ''<li><a href='' @ [CHR 0x27] @ ''/api/users'' @ [CHR 0x27] @ ''>GET /api/users</a> '' @ [CHR 0xE2, CHR 0x80, CHR 0x94] @ '' List users</li>'' @ [LF] @
     ''<li>POST /api/users '' @ [CHR 0xE2, CHR 0x80, CHR 0x94] @ '' Create user</li>'' @ [LF] @
     ''<li>GET /api/users/:id '' @ [CHR 0xE2, CHR 0x80, CHR 0x94] @ '' Get user by ID</li>'' @ [LF] @
     ''</ul>'' @ [LF] @
     ''<p><em>Hand-crafted HTTP/1.1 with coroutine support</em></p>'' @ [LF] @
     ''</body></html>'' @ [LF]"

definition status_json :: string where
  "status_json = ''{\"server\":\"Hound\",\"version\":\"0.2.0\",\"modules\":[\"I/O\",\"Reactor\",\"Coroutine\",\"HTTP\"]}''"

definition users_json :: string where
  "users_json = ''[{\"id\":1,\"name\":\"Alice\"},{\"id\":2,\"name\":\"Bob\"},{\"id\":3,\"name\":\"Charlie\"}]''"

text \<open>\<open>s.substr(pos)\<close>, which throws \<open>std::out_of_range\<close> when \<open>pos\<close> is behind the end of \<open>s\<close>.\<close>

definition substr_from :: "nat \<Rightarrow> string \<Rightarrow> string option" where
  "substr_from pos s = (if pos \<le> length s then Some (drop pos s) else None)"

definition user_body :: "string \<Rightarrow> string" where
  "user_body i = ''{\"id\":'' @ i @ '',\"name\":\"User\",\"source\":\"path-parameter\"}''"

definition user_json :: "http_request \<Rightarrow> http_response option" where
  "user_json req =
     (case substr_from (length ''/api/users/'') (path req) of
        None \<Rightarrow> None
      | Some i \<Rightarrow> Some (json (user_body i)))"

definition created_body :: "string \<Rightarrow> string" where
  "created_body name = ''{\"created\":true,\"name\":\"'' @ name @ ''\"}''"

definition created_json :: "http_request \<Rightarrow> http_response" where
  "created_json req =
     (let name = (case form_data req ''name'' of Some v \<Rightarrow> v | None \<Rightarrow> ''unknown'')
      in json (created_body name))"

definition hello_text :: "http_request \<Rightarrow> http_response \<Rightarrow> http_response" where
  "hello_text req resp =
     (let name = (case str_rfind CHR ''/'' (path req) of Some pos \<Rightarrow> drop (pos + 1) (path req) | None \<Rightarrow> ''world'')
      in resp_set_body (''Hello, '' @ name @ ''!'' @ [LF]) (set_content_type ''text/plain; charset=utf-8'' resp))"

text \<open>A handler, on the response object it is given; \<open>None\<close> when it throws.\<close>

fun run_page :: "page \<Rightarrow> http_request \<Rightarrow> http_response \<Rightarrow> http_response option" where
  "run_page Index req resp = Some (resp_set_body index_html (set_content_type ''text/html; charset=utf-8'' resp))"
| "run_page ApiStatus req resp = Some (json status_json)"
| "run_page ApiUsers req resp = Some (json users_json)"
| "run_page ApiUser req resp = user_json req"
| "run_page CreateUser req resp = Some (created_json req)"
| "run_page Hello req resp = Some (hello_text req resp)"

section \<open>Routes\<close>

definition register_pages :: "page http_server \<Rightarrow> page http_server" where
  "register_pages s =
     (let s1 = http_get ''/'' Index s;
          s2 = http_get ''/api/status'' ApiStatus s1;
          s3 = http_get ''/api/users'' ApiUsers s2;
          s4 = http_get ''/api/users/:id'' ApiUser s3;
          s5 = http_post ''/api/users'' CreateUser s4
      in http_get ''/hello/:name'' Hello s5)"

definition example_server :: "resolver \<Rightarrow> http_task event_loop \<Rightarrow> int set \<Rightarrow> page http_server" where
  "example_server dns l fds = register_pages (HttpServer_new l (parse_address dns ''0.0.0.0'' 8080) 1 fds)"

text \<open>What the registrations mean, segment by segment.\<close>

fun site :: "http_method \<Rightarrow> string list \<Rightarrow> page option" where
  "site m segs =
     (if segs = [] then (if m = GET then Some Index else None)
      else if segs = [''api'', ''status''] then (if m = GET then Some ApiStatus else None)
      else if segs = [''api'', ''users''] then (if m = GET then Some ApiUsers else if m = POST then Some CreateUser else None)
      else if length segs = 3 \<and> take 2 segs = [''api'', ''users''] then (if m = GET then Some ApiUser else None)
      else if length segs = 2 \<and> hd segs = ''hello'' then (if m = GET then Some Hello else None)
      else None)"

definition page_table :: "page registration list" where
  "page_table = [(''GET'', ''/'', Index), (''GET'', ''/api/status'', ApiStatus), (''GET'', ''/api/users'', ApiUsers),
     (''GET'', ''/api/users/:id'', ApiUser), (''POST'', ''/api/users'', CreateUser), (''GET'', ''/hello/:name'', Hello)]"

lemma router_of_example: "srv_router (example_server dns l fds) = routes page_table"
  by (simp add: example_server_def register_pages_def http_get_def http_post_def HttpServer_new_def page_table_def routes_def Let_def)

lemma page_segs:
  "split_path ''/'' = []" "split_path ''/api/status'' = [''api'', ''status'']" "split_path ''/api/users'' = [''api'', ''users'']"
  "split_path ''/api/users/:id'' = [''api'', ''users'', '':id'']" "split_path ''/hello/:name'' = [''hello'', '':name'']"
  by code_simp+

lemma page_kids:
  "spec_kids page_table [] = [''api'', ''hello'']" "spec_kids page_table [''api''] = [''status'', ''users'']"
  "spec_kids page_table [''api'', ''users''] = ['':id'']" "spec_kids page_table [''hello''] = ['':name'']"
  "spec_kids page_table [''api'', ''status''] = []" "spec_kids page_table [''api'', ''users'', '':id''] = []"
  "spec_kids page_table [''hello'', '':name''] = []"
  by (simp_all add: spec_kids_def page_table_def page_segs kids_after_def)

lemma page_walk:
  "spec_walk (spec_kids page_table) [] segs =
     (if segs = [] then Some []
      else if segs = [''api''] then Some [''api'']
      else if segs = [''hello''] then Some [''hello'']
      else if segs = [''api'', ''status''] \<or> segs = [''api'', ''users''] then Some segs
      else if length segs = 3 \<and> take 2 segs = [''api'', ''users''] then Some [''api'', ''users'', '':id'']
      else if length segs = 2 \<and> hd segs = ''hello'' then Some [''hello'', '':name'']
      else None)"
proof (cases segs)
  case (Cons a as)
  then show ?thesis
  proof (cases as)
    case (Cons b bs)
    then show ?thesis
      using \<open>segs = a # as\<close>
      by (cases bs; cases "tl bs") (auto simp: page_kids is_param_seg_def is_wild_seg_def)
  qed (auto simp: page_kids is_param_seg_def is_wild_seg_def)
qed simp

lemma page_handlers:
  "spec_handlers page_table [] = [''GET'' \<mapsto> Index]" "spec_handlers page_table [''api''] = Map.empty" "spec_handlers page_table [''hello''] = Map.empty"
  "spec_handlers page_table [''api'', ''status''] = [''GET'' \<mapsto> ApiStatus]"
  "spec_handlers page_table [''api'', ''users''] = [''GET'' \<mapsto> ApiUsers, ''POST'' \<mapsto> CreateUser]"
  "spec_handlers page_table [''api'', ''users'', '':id''] = [''GET'' \<mapsto> ApiUser]"
  "spec_handlers page_table [''hello'', '':name''] = [''GET'' \<mapsto> Hello]"
  by (simp_all add: spec_handlers_def page_table_def page_segs fun_upd_twist)

lemma method_str_eq: "method_str m = ''GET'' \<longleftrightarrow> m = GET" "method_str m = ''POST'' \<longleftrightarrow> m = POST"
  by (cases m; simp)+

lemma example_route:
  "route (routes page_table) req (Some resp) =
     (case site (req_method req) (split_path (path req)) of
        Some h \<Rightarrow> (Some h, Some resp)
      | None \<Rightarrow> (None, snd (route (routes page_table) req (Some resp)))) \<and>
   (site (req_method req) (split_path (path req)) = None \<longrightarrow>
      (\<exists>r. snd (route (routes page_table) req (Some resp)) = Some r \<and> status_code r = 404))"
proof -
  have ne: "page_table \<noteq> []" by (simp add: page_table_def)
  show ?thesis
    unfolding route_routes spec_route_def page_walk
    by (auto simp: ne page_handlers method_str_eq not_found_def builder_defs Let_def split: option.splits)
qed

lemma example_route_fst: "fst (route (routes page_table) req (Some resp)) = site (req_method req) (split_path (path req))"
  using example_route [of req resp] by (auto split: option.splits simp del: site.simps)

lemma getlines_length: "sum_list (map length (getlines d s)) + length (getlines d s) \<le> length s + 1"
proof (induction d s rule: getlines.induct)
  case (1 d s)
  show ?case
  proof (cases "str_find d s")
    case None
    then show ?thesis by (subst (1 2) getlines.simps) (simp add: None del: str_find_None)
  next
    case (Some i)
    then have "i < length s" using str_find_Some [of d s i] by auto
    moreover have "s \<noteq> []" using Some by auto
    ultimately show ?thesis using 1 [OF _ Some] Some by (subst (1 2) getlines.simps) simp
  qed
qed

lemma split_path_length: "sum_list (map length (split_path p)) + length (split_path p) \<le> length p + 1"
proof -
  have "sum_list (map length (filter Q xs)) + length (filter Q xs) \<le> sum_list (map length xs) + length xs" for Q and xs :: "string list"
    by (induction xs) auto
  then show ?thesis unfolding split_path_def using getlines_length order_trans by blast
qed

lemma api_user_path:
  assumes "site m (split_path p) = Some ApiUser"
  shows "11 \<le> length p"
proof -
  obtain x where "split_path p = [''api'', ''users'', x]" "x \<noteq> []"
  proof -
    have "length (split_path p) = 3" "take 2 (split_path p) = [''api'', ''users'']"
      using assms by (auto split: if_splits)
    then obtain x where x: "split_path p = [''api'', ''users'', x]"
      by (auto simp: numeral_3_eq_3 numeral_2_eq_2 length_Suc_conv)
    moreover have "x \<noteq> []" using split_path_nonempty [of p] x by simp
    ultimately show thesis by (rule that)
  qed
  then show ?thesis using split_path_length [of p] by (cases x) simp_all
qed

lemma run_page_total: "site m (split_path (path req)) = Some h \<Longrightarrow> \<exists>r. run_page h req resp = Some r"
  using api_user_path [of m "path req"] by (cases h) (auto simp: user_json_def substr_from_def simp del: site.simps)

lemma json_shape:
  "bd \<noteq> [] \<Longrightarrow> \<exists>bd' ct. json bd = resp_set_body bd' (set_content_type ct HttpResponse_new) \<and> header_ok (''Content-Type'', ct)"
  by (intro exI [of _ bd] exI [of _ "''application/json; charset=utf-8''"])
    (simp add: json_def HttpResponse_ok_def set_status_def HttpResponse_new_def header_ok_def)

lemma json_bodies: "status_json \<noteq> []" "users_json \<noteq> []" "user_body i \<noteq> []" "created_body n \<noteq> []"
  by (simp_all add: status_json_def users_json_def user_body_def created_body_def)

lemma page_json:
  assumes "run_page h req HttpResponse_new = Some r" and "h \<noteq> Index" and "h \<noteq> Hello"
  shows "\<exists>bd. bd \<noteq> [] \<and> r = json bd"
  using assms json_bodies by (cases h) (auto simp: user_json_def created_json_def Let_def split: option.splits)

lemma page_shape:
  assumes "run_page h req HttpResponse_new = Some r"
  shows "\<exists>bd ct. r = resp_set_body bd (set_content_type ct HttpResponse_new) \<and> header_ok (''Content-Type'', ct)"
proof -
  have ok: "header_ok (''Content-Type'', ''text/html; charset=utf-8'')" "header_ok (''Content-Type'', ''text/plain; charset=utf-8'')"
    by (simp_all add: header_ok_def)
  consider "h = Index" | "h = Hello" | "h \<noteq> Index" "h \<noteq> Hello" by blast
  then show ?thesis
  proof cases
    case 2
    then have "\<exists>bd. r = resp_set_body bd (set_content_type ''text/plain; charset=utf-8'' HttpResponse_new)"
      using assms by (simp add: hello_text_def Let_def) blast
    with ok(2) show ?thesis by blast
  qed (use assms ok(1) page_json [OF assms] json_shape in \<open>(simp, blast) | metis\<close>)+
qed

text \<open>A client that reads such a response gets its body.\<close>

lemma page_client:
  assumes "run_page h req HttpResponse_new = Some r" and "iter_ok iter (set_keep_alive True r)" and "length (resp_body r) < 2 ^ 64"
  shows "client_read (serialize iter (set_keep_alive True r) @ later) =
    Some (''HTTP/1.1 200 OK'', iter (resp_headers (set_keep_alive True r)), resp_body r, later)"
proof -
  let ?r = "set_keep_alive True r"
  obtain bd ct where r: "r = resp_set_body bd (set_content_type ct HttpResponse_new)" and ct: "header_ok (''Content-Type'', ct)"
    using page_shape [OF assms(1)] by blast
  have hs: "resp_headers ?r = [''Content-Type'' \<mapsto> ct, ''Content-Length'' \<mapsto> to_string (int (length bd)), ''Connection'' \<mapsto> ''keep-alive'']"
    by (simp add: r builder_defs Let_def HttpResponse_new_def)
  have len: "header_ok (''Content-Length'', to_string (int (length bd)))"
    using dec_string_no_crlf(1) digit_not_special(5) [OF dec_string_digits [OF hd_in_set]] by (simp add: header_ok_def)
  have "header_ok kv" if "kv \<in> set (iter (resp_headers ?r))" for kv
  proof -
    obtain k v where kv: "kv = (k, v)" by fastforce
    have it: "distinct (map fst (iter (resp_headers ?r)))" "map_of (iter (resp_headers ?r)) = resp_headers ?r"
      using assms(2) unfolding iter_ok_def by blast+
    have "map_of (iter (resp_headers ?r)) k = Some v" by (rule map_of_is_SomeI [OF it(1)]) (use that kv in blast)
    then have "resp_headers ?r k = Some v" unfolding it(2) .
    then show ?thesis
      using ct len unfolding hs kv by (auto simp: header_ok_def split: if_splits)
  qed
  then have "wire_ok iter ?r"
    by (simp add: wire_ok_def wire_headers_def list_all_iff r builder_defs Let_def HttpResponse_new_def)
  moreover have "built ?r" unfolding r by (intro built.intros)
  ultimately have "client_read (serialize iter ?r @ later) =
    Some (''HTTP/1.1 '' @ to_string (status_code ?r) @ '' '' @ status_message ?r, iter (resp_headers ?r) @ map (Pair ''Set-Cookie'') (cookies ?r), resp_body ?r, later)"
    using assms(2,3) hs by (intro client_read_built) (simp_all add: set_keep_alive_def set_header_def)
  moreover have "to_string 200 = ''200''" by code_simp
  ultimately show ?thesis
    by (simp add: r builder_defs Let_def HttpResponse_new_def)
qed

section \<open>Properties\<close>

text \<open>The server runs the handlers above when they do not throw.\<close>

definition pages_run :: "page http_env \<Rightarrow> bool" where
  "pages_run env \<longleftrightarrow> (\<forall>h req resp r. run_page h req resp = Some r \<longrightarrow> http_run env h req resp = r)"

text \<open>C5. The demonstration server end to end. Let one read on an open connection between requests deliver exactly one request for one of its pages, with a body of declared length or none (no chunked transfer encoding, no explicit \<open>Content-Length: 0\<close>), that fits the free
  space of the block, and let \<open>send\<close> take at least one byte. Then the server sends the part \<open>send\<close> takes of one response, from the whole of
  which a client reads status 200, some headers, and exactly the body of that page, whatever the order in which headers are printed; the whole response is sent when \<open>send\<close> takes everything. The
  connection then waits for the next request.\<close>

theorem example_served:
  assumes "srv_router s = srv_router (example_server dns l fds)" and "pages_run env" and "iter_ok (http_iter env) (set_keep_alive True resp)"
    and "map_of (connections s) f = Some c" and "\<not> closed c" and "idle_conn c" and "sends_some env f"
    and "r = (m, target, v, hs, bd)" and "wire_ok_request r" and "length (wire_text r) \<le> writable (wblk (read_buf c))"
    and "http_recv env f (int (writable (wblk (read_buf c)))) = ((int (length (wire_text r)), 0), wire_text r)"
    and "site (method_from_str m) (split_path target) = Some h" and "run_page h (wire_value r) HttpResponse_new = Some resp"
    and "length (resp_body resp) < 2 ^ 64"
  shows "\<exists>s' c' out hdrs. on_message env f s = Inr s' \<and> wire s' f = wire s f @ sent env f out \<and> (sends_all env f \<longrightarrow> wire s' f = wire s f @ out) \<and>
    client_read out = Some (''HTTP/1.1 200 OK'', hdrs, resp_body resp, []) \<and>
    map_of (connections s') f = Some c' \<and> \<not> closed c' \<and> idle_conn c'"
proof -
  have "route (srv_router s) (wire_value r) (Some HttpResponse_new) = (Some h, Some HttpResponse_new)"
    using example_route [of "wire_value r" HttpResponse_new] assms(8,12)
    unfolding assms(1) router_of_example by (simp del: site.simps)
  then have ans: "answer env s (wire_value r) = set_keep_alive True resp"
    using assms(2,13) by (simp add: answer_def pages_run_def assms(8))
  let ?out = "serialize (http_iter env) (set_keep_alive True resp)"
  have "client_read (?out @ []) = Some (''HTTP/1.1 200 OK'', http_iter env (resp_headers (set_keep_alive True resp)), resp_body resp, [])"
    by (rule page_client [OF assms(13,3,14)])
  moreover obtain s' c' where "on_message env f s = Inr s'" "wire s' f = wire s f @ sent env f ?out"
    "map_of (connections s') f = Some c'" "\<not> closed c'" "idle_conn c'"
    using on_message_pipeline [OF assms(4-7), of "[r]"] assms(9-11) by (auto simp: sent_replies_def ans)
  ultimately show ?thesis using sends_all_some(2) [of env f ?out] by (intro exI [of _ s'] exI [of _ c'] exI [of _ ?out]) auto
qed

text \<open>A concrete instance: a server with one idle connection on descriptor 3.\<close>

definition hello_request :: wire_request where
  "hello_request = (''GET'', ''/hello/World'', ''HTTP/1.1'', [(''Host'', ''localhost'')], [])"

definition page_server :: "resolver \<Rightarrow> page http_server" where
  "page_server dns = (example_server dns (srv_loop demo_server) {3, 5})\<lparr>connections := [(3, demo_conn)]\<rparr>"

definition page_env :: "page http_env" where
  "page_env = \<lparr>http_now = 0, http_recv = (\<lambda>f k. ((int (length (wire_text hello_request)), 0), wire_text hello_request)),
     http_send = (\<lambda>f raw k. (int (length raw), 0)), http_files = (\<lambda>name. None),
     http_run = (\<lambda>h req resp. case run_page h req resp of Some r \<Rightarrow> r | None \<Rightarrow> resp),
     http_iter = (\<lambda>m. [(k, v). k \<leftarrow> [''Content-Type'', ''Content-Length'', ''Connection''], v \<leftarrow> (case m k of None \<Rightarrow> [] | Some v \<Rightarrow> [v])])\<rparr>"

lemma hello_body:
  "run_page Hello (wire_value hello_request) HttpResponse_new =
     Some (resp_set_body (''Hello, World!'' @ [LF]) (set_content_type ''text/plain; charset=utf-8'' HttpResponse_new))"
proof -
  have "str_rfind CHR ''/'' ''/hello/World'' = Some 6" by code_simp
  then show ?thesis by (simp add: hello_request_def hello_text_def Let_def)
qed

theorem example_served_witness:
  "\<exists>s' out hdrs. on_message page_env 3 (page_server local_resolver) = Inr s' \<and> wire s' 3 = out \<and>
     client_read out = Some (''HTTP/1.1 200 OK'', hdrs, ''Hello, World!'' @ [LF], [])"
proof -
  let ?resp = "resp_set_body (''Hello, World!'' @ [LF]) (set_content_type ''text/plain; charset=utf-8'' HttpResponse_new)"
  have buf: "read_buf demo_conn = Buffer_new (replicate kBlockSize NUL)" by (simp add: demo_conn_def)
  have conn: "map_of (connections (page_server local_resolver)) 3 = Some demo_conn" "\<not> closed demo_conn" "idle_conn demo_conn"
    by (simp_all add: page_server_def idle_conn_def demo_conn_def demo_buffer)
  have ok: "wire_ok_request hello_request" by (simp add: hello_request_def line_ok_def header_ok_def)
  have len: "length (wire_text hello_request) \<le> writable (wblk (read_buf demo_conn))"
    unfolding buf demo_buffer(4)
    by (simp add: hello_request_def print_head_def request_line_def header_block_def header_line_def crlf_def kBlockSize_def)
  have env: "pages_run page_env" "sends_all page_env 3" "iter_ok (http_iter page_env) (set_keep_alive True ?resp)"
    "http_recv page_env 3 (int (writable (wblk (read_buf demo_conn)))) = ((int (length (wire_text hello_request)), 0), wire_text hello_request)"
    by (auto simp: pages_run_def sends_all_def send_all_of_def page_env_def iter_ok_def builder_defs Let_def HttpResponse_new_def)
  have "site (method_from_str ''GET'') (split_path ''/hello/World'') = Some Hello" by code_simp
  moreover have "wire (page_server local_resolver) 3 = []" by (simp add: page_server_def example_server_def register_pages_def http_get_def http_post_def HttpServer_new_def Let_def)
  moreover have "srv_router (page_server local_resolver) = srv_router (example_server local_resolver (srv_loop demo_server) {3, 5})" by (simp add: page_server_def)
  ultimately show ?thesis
    using example_served [OF _ env(1,3) conn sends_all_some(1) [OF env(2)] hello_request_def ok len env(4) _ hello_body] env(2) by (fastforce simp: resp_set_body_def set_header_def Let_def)
qed

text \<open>The routes of the demonstration server are what they look like: for every method and path, the trie the server builds from the registered patterns finds
  the handler of \<open>site\<close>, and a request \<open>site\<close> does not know is answered with status 404.\<close>

lemma example_site:
  "fst (route (srv_router (example_server dns l fds)) req (Some resp)) = site (req_method req) (split_path (path req)) \<and>
   (site (req_method req) (split_path (path req)) = None \<longrightarrow>
      (\<exists>r. snd (route (srv_router (example_server dns l fds)) req (Some resp)) = Some r \<and> status_code r = 404))"
  using example_route [of req resp] example_route_fst unfolding router_of_example by blast

text \<open>No page throws: the handler of \<open>/api/users/:id\<close> cuts the path at a fixed position, which is inside the path for every request that is routed to it, so
  \<open>substr\<close> never raises \<open>std::out_of_range\<close>.\<close>

lemma pages_never_throw:
  assumes "route (srv_router (example_server dns l fds)) req (Some HttpResponse_new) = (Some h, r)"
  shows "\<exists>resp'. run_page h req resp = Some resp'"
proof -
  have "site (req_method req) (split_path (path req)) = Some h"
    using example_route_fst [of req HttpResponse_new] assms unfolding router_of_example by (simp del: site.simps)
  then show ?thesis by (rule run_page_total)
qed

end
