(* ===== verification/Echo_Reactor.thy ===== *)
theory Echo_Reactor
  imports Loop_Services Socket_Io
begin

text \<open>
  The reactor echo server (\<open>src/hound/examples/echo_server_reactor.cpp\<close>). Unlike the HTTP server it keeps its connections in objects of its own, reached through raw pointers from
  the table of connections and from timer callbacks; objects live in a heap, so that a dangling pointer is a fault.
\<close>

section \<open>State\<close>

text \<open>The closures of the program: the deferred deletion of a connection, and the idle timeout of a connection object. (The status line that \<open>main\<close> prints every five seconds touches none of the server's state.)\<close>

datatype echo_task = DeleteConnection int | IdleTimeout nat

record echo_conn =
  ec_fd :: int
  ec_channel :: addr
  ec_timer :: int
  ec_closed :: bool

record echo_server =
  es_loop :: "echo_task event_loop"
  es_listen_fd :: int
  es_listen_channel :: addr
  es_table :: "(int \<times> nat) list"
  es_conns :: "nat \<rightharpoonup> echo_conn"
  es_next :: nat
  es_next_addr :: addr
  es_open :: "int set"
  es_wire :: "int \<Rightarrow> string"

datatype echo_fault = EchoLoop loop_fault | EchoUseAfterFree | EchoOverrun

record echo_env =
  ec_now :: timestamp
  ec_recv :: "int \<Rightarrow> int \<Rightarrow> (int \<times> int) \<times> string"
  ec_send :: "int \<Rightarrow> string \<Rightarrow> int \<Rightarrow> int \<times> int"

section \<open>Operations\<close>

definition es_on_loop ::
  "(echo_task event_loop \<Rightarrow> loop_fault + echo_task event_loop) \<Rightarrow> echo_server \<Rightarrow> echo_fault + echo_server" where
  "es_on_loop g s = map_sum EchoLoop (\<lambda>l. s\<lparr>es_loop := l\<rparr>) (g (es_loop s))"

abbreviation es_self :: "echo_server \<Rightarrow> nat" where
  "es_self s \<equiv> thread_id (es_loop s)"

definition set_conn :: "nat \<Rightarrow> echo_conn \<Rightarrow> echo_server \<Rightarrow> echo_server" where
  "set_conn q c s = s\<lparr>es_conns := (es_conns s)(q \<mapsto> c)\<rparr>"

text \<open>A new channel at the next free address, registered for reading.\<close>

definition es_new_channel :: "channel \<Rightarrow> echo_server \<Rightarrow> echo_fault + echo_server" where
  "es_new_channel ch s =
     (let a = es_next_addr s;
          p = loop_poller (es_loop s);
          s1 = s\<lparr>es_next_addr := a + 1, es_loop := (es_loop s)\<lparr>loop_poller := p\<lparr>heap := (heap p)(a \<mapsto> ch)\<rparr>\<rparr>\<rparr>
      in es_on_loop (with_poller (es_self s1) (enable_reading a)) s1)"

text \<open>The constructor, from the results of \<open>socket\<close>, \<open>bind\<close> and \<open>listen\<close>.\<close>

definition EchoServer_new :: "int \<Rightarrow> bool \<Rightarrow> bool \<Rightarrow> int set \<Rightarrow> addr \<Rightarrow> echo_task event_loop \<Rightarrow> echo_fault + echo_server" where
  "EchoServer_new f bound listening fds next l =
     (if f = kInvalidFd then Inl (EchoLoop Abort)
      else if \<not> bound then Inl (EchoLoop Abort)
      else if \<not> listening then Inl (EchoLoop Abort)
      else es_new_channel ((Channel_new f)\<lparr>read_callback := True\<rparr>)
             \<lparr>es_loop = l, es_listen_fd = f, es_listen_channel = next, es_table = [], es_conns = Map.empty, es_next = 0,
              es_next_addr = next, es_open = insert f fds, es_wire = (\<lambda>f. [])\<rparr>)"

definition echo_refresh_timeout :: "echo_env \<Rightarrow> nat \<Rightarrow> echo_server \<Rightarrow> echo_fault + echo_server" where
  "echo_refresh_timeout env q s =
     (case es_conns s q of
        None \<Rightarrow> Inl EchoUseAfterFree
      | Some c \<Rightarrow>
          let l1 = (if ec_timer c \<noteq> 0 then cancel_timer (ec_timer c) (es_loop s) else es_loop s);
              (i, l2) = run_after (ec_now env) 10 (IdleTimeout q) l1
          in Inr (set_conn q (c\<lparr>ec_timer := i\<rparr>) (s\<lparr>es_loop := l2\<rparr>)))"

definition close_connection :: "nat \<Rightarrow> echo_server \<Rightarrow> echo_fault + echo_server" where
  "close_connection q s =
     (case es_conns s q of
        None \<Rightarrow> Inl EchoUseAfterFree
      | Some c \<Rightarrow>
          if ec_closed c then Inr s
          else
            let s1 = set_conn q (c\<lparr>ec_closed := True\<rparr>) s;
                s2 = (if ec_timer c \<noteq> 0 then s1\<lparr>es_loop := cancel_timer (ec_timer c) (es_loop s1)\<rparr> else s1)
            in es_on_loop (with_poller (es_self s2) (disable_all (ec_channel c))) s2)"

definition echo_on_close :: "int \<Rightarrow> echo_server \<Rightarrow> echo_fault + echo_server" where
  "echo_on_close f s =
     (case map_of (es_table s) f of
        None \<Rightarrow> Inr s
      | Some q \<Rightarrow>
          sum_bind (close_connection q s)
            (\<lambda>s1. Inr (s1\<lparr>es_loop := queue_in_loop (es_self s1) (DeleteConnection f) (es_loop s1)\<rparr>)))"

text \<open>\<open>on_accept\<close> with the descriptor \<open>accept\<close> returned.\<close>

definition echo_on_accept :: "echo_env \<Rightarrow> int \<Rightarrow> echo_server \<Rightarrow> echo_fault + echo_server" where
  "echo_on_accept env f s =
     (if f = kInvalidFd then Inr s
      else
        let q = es_next s;
            c = \<lparr>ec_fd = f, ec_channel = es_next_addr s, ec_timer = 0, ec_closed = False\<rparr>;
            s1 = (set_conn q c s)\<lparr>es_next := q + 1, es_table := AList.update f q (es_table s), es_open := insert f (es_open s)\<rparr>
        in sum_bind (es_new_channel ((Channel_new f)\<lparr>read_callback := True, close_callback := True, error_callback := True\<rparr>) s1)
             (echo_refresh_timeout env q))"

text \<open>The buffer has 4096 bytes, the read asks for 4095, and the terminating zero is stored behind what was read.\<close>

definition echo_on_message :: "echo_env \<Rightarrow> int \<Rightarrow> echo_server \<Rightarrow> echo_fault + echo_server" where
  "echo_on_message env f s =
     (case map_of (es_table s) f of
        None \<Rightarrow> Inr s
      | Some q \<Rightarrow>
          (case es_conns s q of
             None \<Rightarrow> Inl EchoUseAfterFree
           | Some c \<Rightarrow>
               if ec_closed c then Inr s
               else
                 (case socket_read (\<lambda>f k. fst (ec_recv env f k)) (ec_fd c) 4095 of
                    Inl e \<Rightarrow> echo_on_close f s
                  | Inr n \<Rightarrow>
                      if n = 0 then echo_on_close f s
                      else if n < 0 \<or> 4096 \<le> n then Inl EchoOverrun
                      else
                        let bytes = take (nat n) (snd (ec_recv env (ec_fd c) 4095))
                        in case socket_write (\<lambda>f k. ec_send env f bytes k) (ec_fd c) (of_int n) of
                             Inl e \<Rightarrow> echo_on_close f s
                           | Inr k \<Rightarrow>
                               echo_refresh_timeout env q
                                 (s\<lparr>es_wire := (es_wire s)(ec_fd c := es_wire s (ec_fd c) @ take (nat k) bytes)\<rparr>))))"

text \<open>Deleting a connection object destroys its channel and closes its socket. The task, the timeout, and the destructor of the server.\<close>

definition delete_object :: "nat \<Rightarrow> echo_server \<Rightarrow> echo_fault + echo_server" where
  "delete_object q s =
     (case es_conns s q of
        None \<Rightarrow> Inl EchoUseAfterFree
      | Some c \<Rightarrow>
          sum_bind (es_on_loop (Channel_destroy (es_self s) False (ec_channel c)) s)
            (\<lambda>s1. Inr (s1\<lparr>es_open := es_open s1 - {ec_fd c}, es_conns := (es_conns s1)(q := None)\<rparr>)))"

definition delete_connection :: "int \<Rightarrow> echo_server \<Rightarrow> echo_fault + echo_server" where
  "delete_connection f s =
     (case map_of (es_table s) f of
        None \<Rightarrow> Inr s
      | Some q \<Rightarrow> sum_bind (delete_object q s) (\<lambda>s1. Inr (s1\<lparr>es_table := AList.delete f (es_table s1)\<rparr>)))"

fun run_echo_task :: "echo_task \<Rightarrow> echo_server \<Rightarrow> echo_fault + echo_server" where
  "run_echo_task (DeleteConnection f) s = delete_connection f s"
| "run_echo_task (IdleTimeout q) s = close_connection q s"

definition EchoServer_destroy :: "echo_server \<Rightarrow> echo_fault + echo_server" where
  "EchoServer_destroy s =
     sum_bind (for_each delete_object (map snd (es_table s)) s)
       (\<lambda>s1. sum_bind (es_on_loop (Channel_destroy (es_self s1) False (es_listen_channel s1)) (s1\<lparr>es_table := []\<rparr>))
         (\<lambda>s2. Inr (s2\<lparr>es_open := es_open s2 - {es_listen_fd s2}\<rparr>)))"

section \<open>Events\<close>

text \<open>What the loop does with the server. The tasks queued so far run as one batch, taken from the loop first; a timer fires once it is removed from the wheel.\<close>

datatype echo_event = EchoAccepted echo_env int | EchoReadable echo_env int | EchoHungUp int | EchoTasks | EchoTimer int

fun handle_echo :: "echo_event \<Rightarrow> echo_server \<Rightarrow> echo_fault + echo_server" where
  "handle_echo (EchoAccepted env f) s = echo_on_accept env f s"
| "handle_echo (EchoReadable env f) s = echo_on_message env f s"
| "handle_echo (EchoHungUp f) s = echo_on_close f s"
| "handle_echo EchoTasks s =
     for_each run_echo_task (pending_tasks (es_loop s)) (s\<lparr>es_loop := (es_loop s)\<lparr>pending_tasks := []\<rparr>\<rparr>)"
| "handle_echo (EchoTimer i) s =
     (case loop_timers (es_loop s) i of
        None \<Rightarrow> Inr s
      | Some t \<Rightarrow> run_echo_task t (s\<lparr>es_loop := cancel_timer i (es_loop s)\<rparr>))"

section \<open>Invariant\<close>

definition owns :: "poller \<Rightarrow> int \<Rightarrow> addr \<Rightarrow> bool" where
  "owns p f a \<longleftrightarrow> map_of (channels p) f = Some a \<and> added p a"

text \<open>A pending timer belongs to an open object that remembers it.\<close>

definition timers_live :: "(int \<rightharpoonup> echo_task) \<Rightarrow> (nat \<rightharpoonup> echo_conn) \<Rightarrow> bool" where
  "timers_live ts cs \<longleftrightarrow> ts 0 = None \<and>
     (\<forall>i t. ts i = Some t \<longrightarrow> (\<exists>q c. t = IdleTimeout q \<and> cs q = Some c \<and> ec_timer c = i \<and> \<not> ec_closed c))"

text \<open>The table lists exactly the objects, each under its descriptor.\<close>

definition table_agrees :: "(int \<times> nat) list \<Rightarrow> (nat \<rightharpoonup> echo_conn) \<Rightarrow> bool" where
  "table_agrees tab cs \<longleftrightarrow> distinct (map fst tab) \<and> (\<forall>f q. map_of tab f = Some q \<longleftrightarrow> (\<exists>c. cs q = Some c \<and> ec_fd c = f))"

definition echo_inv :: "echo_server \<Rightarrow> bool" where
  "echo_inv s \<longleftrightarrow> poller_ok (loop_poller (es_loop s)) \<and> (\<forall>a \<ge> es_next_addr s. heap (loop_poller (es_loop s)) a = None) \<and>
     (\<forall>q \<ge> es_next s. es_conns s q = None) \<and> dom (map_of (channels (loop_poller (es_loop s)))) \<subseteq> es_open s \<and>
     owns (loop_poller (es_loop s)) (es_listen_fd s) (es_listen_channel s) \<and> map_of (es_table s) (es_listen_fd s) = None \<and>
     table_agrees (es_table s) (es_conns s) \<and> (\<forall>q c. es_conns s q = Some c \<longrightarrow> owns (loop_poller (es_loop s)) (ec_fd c) (ec_channel c)) \<and>
     loop_timers_ok (es_loop s) \<and> timers_live (loop_timers (es_loop s)) (es_conns s)"

lemma echo_invD:
  assumes "echo_inv s"
  shows "poller_ok (loop_poller (es_loop s))" "es_next_addr s \<le> a \<Longrightarrow> heap (loop_poller (es_loop s)) a = None" "es_next s \<le> q \<Longrightarrow> es_conns s q = None"
    "map_of (channels (loop_poller (es_loop s))) f = Some a \<Longrightarrow> f \<in> es_open s" "owns (loop_poller (es_loop s)) (es_listen_fd s) (es_listen_channel s)"
    "map_of (es_table s) (es_listen_fd s) = None" "table_agrees (es_table s) (es_conns s)"
    "es_conns s q = Some c \<Longrightarrow> owns (loop_poller (es_loop s)) (ec_fd c) (ec_channel c)" "loop_timers_ok (es_loop s)" "timers_live (loop_timers (es_loop s)) (es_conns s)"
  using assms by (auto simp: echo_inv_def)

lemma table_agreesD: "table_agrees tab cs \<Longrightarrow> map_of tab f = Some q \<longleftrightarrow> (\<exists>c. cs q = Some c \<and> ec_fd c = f)"
  by (simp add: table_agrees_def)

lemma owns_keeps: "owns p f a \<Longrightarrow> channels p' = channels p \<Longrightarrow> keeps_added p p' \<Longrightarrow> owns p' f a"
  by (simp add: owns_def keeps_added_def)

lemma loop_timers_poller [simp]: "loop_timers (l\<lparr>loop_poller := p\<rparr>) = loop_timers l" "loop_timers_ok (l\<lparr>loop_poller := p\<rparr>) = loop_timers_ok l"
  by (simp_all add: loop_timers_def loop_timers_ok_def)

lemma loop_timers_queue [simp]: "loop_timers (queue_in_loop self t l) = loop_timers l" "loop_timers_ok (queue_in_loop self t l) = loop_timers_ok l"
  "loop_poller (queue_in_loop self t l) = loop_poller l" "pending_tasks (queue_in_loop self t l) = pending_tasks l @ [t]"
  by (simp_all add: loop_timers_def loop_timers_ok_def queue_in_loop_def push_task_def wakeup_def Let_def)

lemma loop_timers_tasks [simp]: "loop_timers (l\<lparr>pending_tasks := ts\<rparr>) = loop_timers l" "loop_timers_ok (l\<lparr>pending_tasks := ts\<rparr>) = loop_timers_ok l"
  by (simp_all add: loop_timers_def loop_timers_ok_def)

lemma cancel_fields [simp]: "loop_poller (cancel_timer i l) = loop_poller l" "pending_tasks (cancel_timer i l) = pending_tasks l" "thread_id (cancel_timer i l) = thread_id l"
  by (simp_all add: cancel_timer_def)

lemma timers_liveD:
  assumes "timers_live ts cs" and "ts i = Some t"
  obtains q c where "t = IdleTimeout q" "cs q = Some c" "ec_timer c = i" "\<not> ec_closed c"
  using assms unfolding timers_live_def by blast

lemma timers_live_zero: "timers_live ts cs \<Longrightarrow> ts 0 = None"
  by (simp add: timers_live_def)

lemma timers_live_cancel: "timers_live ts cs \<Longrightarrow> timers_live (ts(i := None)) cs"
  by (simp add: timers_live_def)

lemma timers_live_close:
  assumes "timers_live ts cs" and "cs q = Some c"
  shows "timers_live (ts(ec_timer c := None)) (cs(q \<mapsto> c\<lparr>ec_closed := True\<rparr>))"
  unfolding timers_live_def
proof (intro conjI allI impI)
  fix i t assume "(ts(ec_timer c := None)) i = Some t"
  then have "ts i = Some t" "i \<noteq> ec_timer c" by (simp_all split: if_splits)
  moreover from this(1) obtain r d where "t = IdleTimeout r" "cs r = Some d" "ec_timer d = i" "\<not> ec_closed d"
    using timers_liveD [OF assms(1)] by blast
  ultimately show "\<exists>r d. t = IdleTimeout r \<and> (cs(q \<mapsto> c\<lparr>ec_closed := True\<rparr>)) r = Some d \<and> ec_timer d = i \<and> \<not> ec_closed d"
    using assms(2) by (intro exI [of _ r] exI [of _ d]) auto
qed (use timers_live_zero [OF assms(1)] in simp)

lemma timers_live_renew:
  assumes "timers_live ts cs" and "cs q = Some c" and "\<not> ec_closed c" and "j \<noteq> 0"
  shows "timers_live (ts(ec_timer c := None, j \<mapsto> IdleTimeout q)) (cs(q \<mapsto> c\<lparr>ec_timer := j\<rparr>))"
  unfolding timers_live_def
proof (intro conjI allI impI)
  fix i t assume "(ts(ec_timer c := None, j \<mapsto> IdleTimeout q)) i = Some t"
  then consider "i = j" "t = IdleTimeout q" | "ts i = Some t" "i \<noteq> ec_timer c"
    by (cases "i = j"; cases "i = ec_timer c") simp_all
  then show "\<exists>r d. t = IdleTimeout r \<and> (cs(q \<mapsto> c\<lparr>ec_timer := j\<rparr>)) r = Some d \<and> ec_timer d = i \<and> \<not> ec_closed d"
  proof cases
    case 1
    then show ?thesis using assms(3) by (intro exI [of _ q] exI [of _ "c\<lparr>ec_timer := j\<rparr>"]) simp
  next
    case 2
    from timers_liveD [OF assms(1) 2(1)] obtain r d where "t = IdleTimeout r" "cs r = Some d" "ec_timer d = i" "\<not> ec_closed d"
      by blast
    then show ?thesis using assms(2) 2(2) by (intro exI [of _ r] exI [of _ d]) auto
  qed
qed (use assms timers_live_zero in simp)

section \<open>Every event keeps the invariant\<close>

text \<open>Changing an object's timer or flag, and the loop around it.\<close>

lemma echo_inv_object:
  assumes "echo_inv s" and "es_conns s q = Some c" and "ec_fd c' = ec_fd c" and "ec_channel c' = ec_channel c"
    and "poller_ok (loop_poller l)" and "channels (loop_poller l) = channels (loop_poller (es_loop s))"
    and "\<forall>a. heap (loop_poller (es_loop s)) a = None \<longrightarrow> heap (loop_poller l) a = None" and "keeps_added (loop_poller (es_loop s)) (loop_poller l)"
    and "loop_timers_ok l" and "timers_live (loop_timers l) ((es_conns s)(q \<mapsto> c'))"
  shows "echo_inv (s\<lparr>es_conns := (es_conns s)(q \<mapsto> c'), es_loop := l\<rparr>)"
proof -
  have "table_agrees (es_table s) ((es_conns s)(q \<mapsto> c'))"
    using echo_invD(7) [OF assms(1)] assms(2,3) by (auto simp: table_agrees_def)
  moreover have "owns (loop_poller l) (ec_fd d) (ec_channel d)" if "((es_conns s)(q \<mapsto> c')) r = Some d" for r d
    using that assms(2-4) owns_keeps [OF echo_invD(8) [OF assms(1)] assms(6,8)] by (auto split: if_splits)
  moreover have "es_conns s r = None" if "es_next s \<le> r" for r using echo_invD(3) [OF assms(1) that] .
  moreover have "q < es_next s" using echo_invD(3) [OF assms(1), of q] assms(2) by (cases "q < es_next s") auto
  ultimately show ?thesis
    using assms(1,5-7,9,10) owns_keeps [OF echo_invD(5) [OF assms(1)] assms(6,8)] unfolding echo_inv_def by simp
qed

lemma echo_refresh_ok:
  assumes "echo_inv s" and "es_conns s q = Some c" and "\<not> ec_closed c"
  shows "\<exists>i l. echo_refresh_timeout env q s = Inr (s\<lparr>es_conns := (es_conns s)(q \<mapsto> c\<lparr>ec_timer := i\<rparr>), es_loop := l\<rparr>) \<and>
    echo_inv (s\<lparr>es_conns := (es_conns s)(q \<mapsto> c\<lparr>ec_timer := i\<rparr>), es_loop := l\<rparr>) \<and>
    loop_poller l = loop_poller (es_loop s) \<and> pending_tasks l = pending_tasks (es_loop s) \<and> loop_timers l i = Some (IdleTimeout q)"
proof -
  obtain i l where r: "loop_service.renew (ec_now env, 10) (ec_timer c) (IdleTimeout q) (es_loop s) = (i, l)" by fastforce
  note new = loop_service.renew_ok [OF echo_invD(9) [OF assms(1)] timers_live_zero [OF echo_invD(10) [OF assms(1)]] r]
  have l: "loop_poller l = loop_poller (es_loop s)" "pending_tasks l = pending_tasks (es_loop s)"
    using r unfolding loop_service.renew_def by (auto simp: run_after_def with_wheel_def split: prod.splits if_splits)
  have "echo_refresh_timeout env q s = Inr (s\<lparr>es_conns := (es_conns s)(q \<mapsto> c\<lparr>ec_timer := i\<rparr>), es_loop := l\<rparr>)"
    using assms(2) r by (simp add: echo_refresh_timeout_def loop_service.renew_def set_conn_def)
  moreover have "echo_inv (s\<lparr>es_conns := (es_conns s)(q \<mapsto> c\<lparr>ec_timer := i\<rparr>), es_loop := l\<rparr>)"
    using timers_live_renew [OF echo_invD(10) [OF assms(1)] assms(2,3) new(2)] new(1,3) echo_invD(1) [OF assms(1)]
    by (intro echo_inv_object [OF assms(1,2)]) (simp_all add: l)
  ultimately show ?thesis using l new(3) by fastforce
qed

lemma close_connection_ok:
  assumes "echo_inv s" and "es_conns s q = Some c"
  shows "\<exists>l. close_connection q s = Inr (s\<lparr>es_conns := (es_conns s)(q \<mapsto> c\<lparr>ec_closed := True\<rparr>), es_loop := l\<rparr>) \<and>
    echo_inv (s\<lparr>es_conns := (es_conns s)(q \<mapsto> c\<lparr>ec_closed := True\<rparr>), es_loop := l\<rparr>) \<and>
    pending_tasks l = pending_tasks (es_loop s) \<and> channels (loop_poller l) = channels (loop_poller (es_loop s)) \<and>
    (\<not> ec_closed c \<longrightarrow> (\<exists>ch. heap (loop_poller l) (ec_channel c) = Some ch \<and> events ch = kNoneEvent))"
proof (cases "ec_closed c")
  case True
  then have "s\<lparr>es_conns := (es_conns s)(q \<mapsto> c\<lparr>ec_closed := True\<rparr>), es_loop := es_loop s\<rparr> = s"
    using assms(2) by (simp add: fun_upd_idem)
  then show ?thesis using assms True by (intro exI [of _ "es_loop s"]) (simp add: close_connection_def)
next
  case False
  let ?p = "loop_poller (es_loop s)"
  define l where "l = (if ec_timer c \<noteq> 0 then cancel_timer (ec_timer c) (es_loop s) else es_loop s)"
  have l: "loop_poller l = ?p" "pending_tasks l = pending_tasks (es_loop s)" by (simp_all add: l_def)
  have own: "map_of (channels ?p) (ec_fd c) = Some (ec_channel c)"
    using echo_invD(8) [OF assms] by (simp add: owns_def)
  obtain ch where ch: "heap ?p (ec_channel c) = Some ch" "fd ch = ec_fd c"
    using poller_okD(2) [OF echo_invD(1) [OF assms(1)] own] by blast
  obtain p' where p': "disable_all (ec_channel c) ?p = Inr p'" "poller_ok p'" "channels p' = channels ?p"
    "heap p' = (heap ?p)(ec_channel c \<mapsto> ch\<lparr>events := kNoneEvent, added_to_loop := True, index := 0\<rparr>)"
    using with_events_ok [OF echo_invD(1) [OF assms(1)] ch(1), of "\<lambda>e. kNoneEvent"] own ch(2) by (auto simp: disable_all_def)
  have "timers_live (loop_timers l) ((es_conns s)(q \<mapsto> c\<lparr>ec_closed := True\<rparr>))" "loop_timers_ok l"
    using timers_live_close [OF echo_invD(10) [OF assms(1)] assms(2)] cancel_timer_pending [OF echo_invD(9) [OF assms(1)]] echo_invD(9) [OF assms(1)]
      timers_live_zero [OF echo_invD(10) [OF assms(1)]] by (auto simp: l_def fun_upd_idem)
  then have "echo_inv (s\<lparr>es_conns := (es_conns s)(q \<mapsto> c\<lparr>ec_closed := True\<rparr>), es_loop := l\<lparr>loop_poller := p'\<rparr>\<rparr>)"
    using p'(2-4) ch(1) by (intro echo_inv_object [OF assms]) (auto simp: keeps_added_def added_def)
  moreover have "close_connection q s = Inr (s\<lparr>es_conns := (es_conns s)(q \<mapsto> c\<lparr>ec_closed := True\<rparr>), es_loop := l\<lparr>loop_poller := p'\<rparr>\<rparr>)"
    using assms(2) False p'(1) by (simp add: close_connection_def es_on_loop_def set_conn_def with_poller_def assert_in_loop_thread_def
        is_in_loop_thread_def l_def Let_def)
  ultimately show ?thesis using p'(3,4) l(2) by (intro exI [of _ "l\<lparr>loop_poller := p'\<rparr>"]) simp
qed

lemma echo_inv_loop:
  assumes "loop_poller l = loop_poller (es_loop s)" and "loop_timers l = loop_timers (es_loop s)" and "loop_timers_ok l = loop_timers_ok (es_loop s)"
  shows "echo_inv (s\<lparr>es_loop := l\<rparr>) = echo_inv s"
  using assms by (simp add: echo_inv_def)

text \<open>A pending task deletes a connection of the table that has been closed.\<close>

definition doomed :: "(int \<times> nat) list \<Rightarrow> (nat \<rightharpoonup> echo_conn) \<Rightarrow> echo_task \<Rightarrow> bool" where
  "doomed tab cs t \<longleftrightarrow> (\<exists>f q c. t = DeleteConnection f \<and> map_of tab f = Some q \<and> cs q = Some c \<and> ec_closed c)"

definition echo_ok :: "echo_server \<Rightarrow> bool" where
  "echo_ok s \<longleftrightarrow> echo_inv s \<and> (\<forall>t \<in> set (pending_tasks (es_loop s)). doomed (es_table s) (es_conns s) t)"

lemma echo_okD: "echo_ok s \<Longrightarrow> echo_inv s" "echo_ok s \<Longrightarrow> t \<in> set (pending_tasks (es_loop s)) \<Longrightarrow> doomed (es_table s) (es_conns s) t"
  by (simp_all add: echo_ok_def)

lemma doomed_upd: "doomed tab cs t \<Longrightarrow> cs q = Some c \<Longrightarrow> (ec_closed c \<longrightarrow> ec_closed c') \<Longrightarrow> doomed tab (cs(q \<mapsto> c')) t"
  by (fastforce simp: doomed_def)

lemma echo_refresh_safe:
  assumes "echo_ok s" and "es_conns s q = Some c" and "\<not> ec_closed c"
  shows "\<exists>s'. echo_refresh_timeout env q s = Inr s' \<and> echo_ok s'"
  using echo_refresh_ok [OF echo_okD(1) [OF assms(1)] assms(2,3), of env] echo_okD(2) [OF assms(1)] doomed_upd [where cs = "es_conns s" and q = q and c = c] assms(2) assms(3)
  by (fastforce simp: echo_ok_def)

lemma close_connection_safe:
  assumes "echo_ok s" and "es_conns s q = Some c"
  shows "\<exists>s'. close_connection q s = Inr s' \<and> echo_ok s'"
  using close_connection_ok [OF echo_okD(1) [OF assms(1)] assms(2)] echo_okD(2) [OF assms(1)] doomed_upd [where cs = "es_conns s" and q = q and c = c] assms(2)
  by (fastforce simp: echo_ok_def)

text \<open>\<open>on_close\<close> of a connection in the table closes it and queues its deletion.\<close>

lemma echo_on_close_ok:
  assumes "echo_ok s" and "map_of (es_table s) f = Some q" and "es_conns s q = Some c"
  shows "\<exists>l. echo_on_close f s = Inr (s\<lparr>es_conns := (es_conns s)(q \<mapsto> c\<lparr>ec_closed := True\<rparr>), es_loop := l\<rparr>) \<and>
    echo_ok (s\<lparr>es_conns := (es_conns s)(q \<mapsto> c\<lparr>ec_closed := True\<rparr>), es_loop := l\<rparr>) \<and>
    pending_tasks l = pending_tasks (es_loop s) @ [DeleteConnection f]"
proof -
  let ?cs = "(es_conns s)(q \<mapsto> c\<lparr>ec_closed := True\<rparr>)"
  obtain l where l: "close_connection q s = Inr (s\<lparr>es_conns := ?cs, es_loop := l\<rparr>)" "echo_inv (s\<lparr>es_conns := ?cs, es_loop := l\<rparr>)"
    "pending_tasks l = pending_tasks (es_loop s)"
    using close_connection_ok [OF echo_okD(1) [OF assms(1)] assms(3)] by blast
  let ?l = "queue_in_loop (thread_id l) (DeleteConnection f) l"
  have "echo_inv (s\<lparr>es_conns := ?cs, es_loop := ?l\<rparr>)"
    using l(2) echo_inv_loop [of ?l "s\<lparr>es_conns := ?cs, es_loop := l\<rparr>"] by simp
  moreover have "doomed (es_table s) ?cs (DeleteConnection f)"
    using assms(2) by (simp add: doomed_def)
  moreover have "doomed (es_table s) ?cs t" if "t \<in> set (pending_tasks (es_loop s))" for t
    by (rule doomed_upd [OF echo_okD(2) [OF assms(1) that], of q c]) (simp_all add: assms(3))
  ultimately show ?thesis using l(1,3) assms(2) by (intro exI [of _ ?l]) (simp add: echo_on_close_def echo_ok_def)
qed

lemma in_table:
  assumes "echo_inv s" and "map_of (es_table s) f = Some q"
  obtains c where "es_conns s q = Some c" "ec_fd c = f"
  using table_agreesD [OF echo_invD(7) [OF assms(1)]] assms(2) by blast

lemma echo_on_close_safe:
  assumes "echo_ok s"
  shows "\<exists>s'. echo_on_close f s = Inr s' \<and> echo_ok s'"
proof (cases "map_of (es_table s) f")
  case None
  then show ?thesis using assms by (simp add: echo_on_close_def)
next
  case (Some q)
  then show ?thesis using echo_on_close_ok [OF assms Some] in_table [OF echo_okD(1) [OF assms] Some] by metis
qed

text \<open>A read is never longer than asked for.\<close>

definition echo_recv_ok :: "echo_env \<Rightarrow> bool" where
  "echo_recv_ok env \<longleftrightarrow> (\<forall>f. fst (fst (ec_recv env f 4095)) \<le> 4095)"

lemma count_4095 [simp]: "count_to_int 4095 = 4095"
  by (simp add: count_to_int_def)

lemma echo_ok_wire [simp]: "echo_ok (s\<lparr>es_wire := w\<rparr>) = echo_ok s"
  by (simp add: echo_ok_def echo_inv_def)

lemma echo_on_message_safe:
  assumes "echo_ok s" and "echo_recv_ok env"
  shows "\<exists>s'. echo_on_message env f s = Inr s' \<and> echo_ok s'"
proof (cases "map_of (es_table s) f")
  case None
  then show ?thesis using assms by (simp add: echo_on_message_def)
next
  case (Some q)
  then obtain c where c: "es_conns s q = Some c" using in_table [OF echo_okD(1) [OF assms(1)]] by blast
  have bound: "n \<le> 4095 \<and> 0 \<le> n" if "socket_read (\<lambda>f k. fst (ec_recv env f k)) (ec_fd c) 4095 = Inr n" for n
    using that assms(2) [unfolded echo_recv_ok_def, rule_format, of "ec_fd c"]
    by (auto simp: socket_read_def io_error_def make_errno_result_def case_prod_beta split: if_splits)
  show ?thesis
    using Some c bound echo_on_close_safe [OF assms(1), of f] assms(1)
      echo_refresh_safe [of "s\<lparr>es_wire := w\<rparr>" q c env for w, simplified, OF assms(1) c]
    by (fastforce simp: echo_on_message_def Let_def split: sum.splits)
qed

text \<open>Accepting on a descriptor that was not open.\<close>

lemma table_insert:
  assumes "table_agrees tab cs" and "cs q = None" and "map_of tab (ec_fd c) = None"
  shows "table_agrees (AList.update (ec_fd c) q tab) (cs(q \<mapsto> c))"
proof -
  have "ec_fd d \<noteq> ec_fd c" if "cs r = Some d" for r d
    using table_agreesD [OF assms(1)] assms(3) that by (metis option.distinct(1))
  moreover have "map_of tab g \<noteq> Some q" for g
    using table_agreesD [OF assms(1)] assms(2) by simp
  ultimately show ?thesis
    using assms(1) by (fastforce simp: table_agrees_def update_conv' distinct_update simp del: map_of_eq_Some_iff)
qed

lemma doomed_insert:
  assumes "doomed tab cs t" and "cs q = None" and "map_of tab f = None"
  shows "doomed (AList.update f q tab) (cs(q \<mapsto> c)) t"
proof -
  obtain g r d where g: "t = DeleteConnection g" "map_of tab g = Some r" "cs r = Some d" "ec_closed d"
    using assms(1) by (auto simp: doomed_def)
  moreover have "g \<noteq> f" "r \<noteq> q" using g(2,3) assms(2,3) by auto
  ultimately show ?thesis by (auto simp: doomed_def update_conv' simp del: map_of_eq_Some_iff)
qed

lemma timers_live_insert: "timers_live ts cs \<Longrightarrow> cs q = None \<Longrightarrow> timers_live ts (cs(q \<mapsto> c))"
  unfolding timers_live_def by (metis fun_upd_other option.distinct(1))

lemma owns_insert:
  assumes "owns p f a" and "map_of (channels p) g = None" and "heap p b = None"
    and "channels p' = AList.update g b (channels p)" and "heap p' = (heap p)(b \<mapsto> ch)"
  shows "owns p' f a"
  using assms by (auto simp: owns_def added_def update_conv')

lemma fresh_fd:
  assumes "echo_inv s" and "f \<notin> es_open s"
  shows "map_of (channels (loop_poller (es_loop s))) f = None" "map_of (es_table s) f = None" "f \<noteq> es_listen_fd s"
proof -
  show free: "map_of (channels (loop_poller (es_loop s))) f = None"
    using echo_invD(4) [OF assms(1)] assms(2) by (metis not_None_eq)
  show "f \<noteq> es_listen_fd s" using echo_invD(5) [OF assms(1)] free by (auto simp: owns_def)
  show "map_of (es_table s) f = None"
  proof (rule ccontr)
    assume "map_of (es_table s) f \<noteq> None"
    then obtain q c where "es_conns s q = Some c" "ec_fd c = f" using in_table [OF assms(1)] by blast
    then show False using echo_invD(8) [OF assms(1)] free by (fastforce simp: owns_def)
  qed
qed

lemma echo_accept_ok:
  assumes "echo_ok s" and "f \<notin> es_open s" and "f \<noteq> kInvalidFd"
  shows "\<exists>s' c. echo_on_accept env f s = Inr s' \<and> echo_ok s' \<and> map_of (es_table s') f = Some (es_next s) \<and> es_conns s' (es_next s) = Some c \<and>
    ec_fd c = f \<and> \<not> ec_closed c \<and> es_open s' = insert f (es_open s) \<and> es_wire s' = es_wire s \<and> loop_timers (es_loop s') (ec_timer c) = Some (IdleTimeout (es_next s)) \<and>
    pending_tasks (es_loop s') = pending_tasks (es_loop s) \<and> (\<forall>r. r \<noteq> es_next s \<longrightarrow> es_conns s' r = es_conns s r)"
proof -
  let ?p = "loop_poller (es_loop s)" and ?q = "es_next s" and ?a = "es_next_addr s"
  let ?c = "\<lparr>ec_fd = f, ec_channel = ?a, ec_timer = 0, ec_closed = False\<rparr>"
  let ?ch = "(Channel_new f)\<lparr>read_callback := True, close_callback := True, error_callback := True\<rparr>"
  note inv = echo_okD(1) [OF assms(1)]
  note fresh = fresh_fd [OF inv assms(2)]
  have none: "es_conns s ?q = None" "heap ?p ?a = None" using echo_invD(2,3) [OF inv] by simp_all
  have "fd ?ch = f" by (simp add: Channel_new_def)
  then obtain p' ch where p': "enable_reading ?a (?p\<lparr>heap := (heap ?p)(?a \<mapsto> ?ch)\<rparr>) = Inr p'" "poller_ok p'"
      "heap p' = (heap ?p)(?a \<mapsto> ch)" "channels p' = AList.update f ?a (channels ?p)" "added_to_loop ch"
    using open_channel_ok [OF echo_invD(1) [OF inv] none(2), of ?ch] fresh(1) by auto
  define s1 where "s1 = s\<lparr>es_conns := (es_conns s)(?q \<mapsto> ?c), es_next := ?q + 1, es_table := AList.update f ?q (es_table s),
    es_open := insert f (es_open s), es_next_addr := ?a + 1, es_loop := (es_loop s)\<lparr>loop_poller := p'\<rparr>\<rparr>"
  have "owns p' f ?a" using p'(3-5) by (simp add: owns_def added_def update_conv')
  then have "owns p' (ec_fd d) (ec_channel d)" if "es_conns s1 r = Some d" for r d
    using that owns_insert [OF echo_invD(8) [OF inv] fresh(1) none(2) p'(4,3)] by (auto simp: s1_def split: if_splits)
  moreover have "table_agrees (es_table s1) (es_conns s1)"
    using table_insert [OF echo_invD(7) [OF inv] none(1), of ?c] fresh(2) by (simp add: s1_def)
  moreover have "owns p' (es_listen_fd s) (es_listen_channel s)"
    by (rule owns_insert [OF echo_invD(5) [OF inv] fresh(1) none(2) p'(4,3)])
  moreover have "map_of (es_table s1) (es_listen_fd s) = None"
    using echo_invD(6) [OF inv] fresh(3) by (simp add: s1_def update_conv')
  moreover have "timers_live (loop_timers (es_loop s)) (es_conns s1)"
    using timers_live_insert [OF echo_invD(10) [OF inv] none(1)] by (simp add: s1_def)
  moreover have "dom (map_of (channels p')) \<subseteq> insert f (es_open s)"
    using inv p'(4) by (auto simp: echo_inv_def update_conv')
  ultimately have inv1: "echo_inv s1"
    using echo_invD(2,3,9) [OF inv] p'(2,3) unfolding echo_inv_def by (simp add: s1_def)
  have "doomed (es_table s1) (es_conns s1) t" if "t \<in> set (pending_tasks (es_loop s))" for t
    using doomed_insert [OF echo_okD(2) [OF assms(1) that] none(1) fresh(2)] by (simp add: s1_def)
  moreover have "echo_on_accept env f s = echo_refresh_timeout env ?q s1"
    using assms(3) p'(1) by (simp add: echo_on_accept_def es_new_channel_def es_on_loop_def with_poller_def assert_in_loop_thread_def
        is_in_loop_thread_def set_conn_def s1_def Let_def)
  moreover have "es_conns s1 ?q = Some ?c" "map_of (es_table s1) f = Some ?q" "es_open s1 = insert f (es_open s)" "es_wire s1 = es_wire s"
    "pending_tasks (es_loop s1) = pending_tasks (es_loop s)" "\<forall>r. r \<noteq> ?q \<longrightarrow> es_conns s1 r = es_conns s r" by (simp_all add: s1_def update_conv')
  ultimately show ?thesis
    using echo_refresh_ok [OF inv1, of ?q ?c env] doomed_upd [of "es_table s1" "es_conns s1" _ ?q ?c] by (fastforce simp: echo_ok_def)
qed

text \<open>Deleting an object that owns its channel.\<close>

lemma delete_object_ok:
  assumes "poller_ok (loop_poller (es_loop s))" and "es_conns s q = Some c" and "owns (loop_poller (es_loop s)) (ec_fd c) (ec_channel c)"
  shows "\<exists>p'. delete_object q s = Inr (s\<lparr>es_loop := (es_loop s)\<lparr>loop_poller := p'\<rparr>, es_open := es_open s - {ec_fd c}, es_conns := (es_conns s)(q := None)\<rparr>) \<and>
    poller_ok p' \<and> channels p' = AList.delete (ec_fd c) (channels (loop_poller (es_loop s))) \<and>
    heap p' = (heap (loop_poller (es_loop s)))(ec_channel c := None)"
proof -
  obtain p' where "Channel_destroy (es_self s) False (ec_channel c) (es_loop s) = Inr ((es_loop s)\<lparr>loop_poller := p'\<rparr>)" "poller_ok p'"
    "channels p' = AList.delete (ec_fd c) (channels (loop_poller (es_loop s)))" "heap p' = (heap (loop_poller (es_loop s)))(ec_channel c := None)"
    using destroy_channel_ok [OF assms(1), of "ec_fd c" "ec_channel c"] assms(3) by (auto simp: owns_def)
  then show ?thesis using assms(2) by (auto simp: delete_object_def es_on_loop_def)
qed

lemma owns_delete:
  assumes "poller_ok p" and "owns p f a" and "owns p g b" and "f \<noteq> g" and "channels p' = AList.delete g (channels p)" and "heap p' = (heap p)(b := None)"
  shows "owns p' f a"
proof -
  have "a \<noteq> b" using channel_inj [OF assms(1), of f a g] assms(2-4) by (auto simp: owns_def)
  then show ?thesis using assms(2,4-6) by (simp add: owns_def added_def delete_conv')
qed

lemma delete_connection_ok:
  assumes "echo_inv s" and "map_of (es_table s) f = Some q" and "es_conns s q = Some c" and "ec_closed c"
  shows "\<exists>p'. delete_connection f s = Inr (s\<lparr>es_loop := (es_loop s)\<lparr>loop_poller := p'\<rparr>, es_open := es_open s - {f},
      es_conns := (es_conns s)(q := None), es_table := AList.delete f (es_table s)\<rparr>) \<and>
    echo_inv (s\<lparr>es_loop := (es_loop s)\<lparr>loop_poller := p'\<rparr>, es_open := es_open s - {f},
      es_conns := (es_conns s)(q := None), es_table := AList.delete f (es_table s)\<rparr>)"
proof -
  let ?p = "loop_poller (es_loop s)" and ?cs = "(es_conns s)(q := None)"
  note agree = echo_invD(7) [OF assms(1)] and ok = echo_invD(1) [OF assms(1)] and own = echo_invD(8) [OF assms(1)]
  have f: "ec_fd c = f" using table_agreesD [OF agree] assms(2,3) by auto
  obtain p' where p': "delete_object q s = Inr (s\<lparr>es_loop := (es_loop s)\<lparr>loop_poller := p'\<rparr>, es_open := es_open s - {f}, es_conns := ?cs\<rparr>)"
      "poller_ok p'" "channels p' = AList.delete f (channels ?p)" "heap p' = (heap ?p)(ec_channel c := None)"
    using delete_object_ok [OF ok assms(3) own [OF assms(3)]] f by auto
  have other: "ec_fd d \<noteq> f" if "es_conns s r = Some d" "r \<noteq> q" for r d
    using table_agreesD [OF agree, of f] assms(2) that by (metis option.inject)
  have own': "owns p' g a" if "owns ?p g a" "g \<noteq> f" for g a
    using owns_delete [OF ok that(1) own [OF assms(3), unfolded f] that(2) p'(3,4)] .
  have "owns p' (ec_fd d) (ec_channel d)" if "?cs r = Some d" for r d
    using that other own own' by (auto split: if_splits)
  moreover have "f \<noteq> es_listen_fd s" using echo_invD(6) [OF assms(1)] assms(2) by auto
  then have "owns p' (es_listen_fd s) (es_listen_channel s)" using own' [OF echo_invD(5) [OF assms(1)]] by simp
  moreover have "table_agrees (AList.delete f (es_table s)) ?cs"
    using agree other assms(2,3) f by (auto simp: table_agrees_def delete_conv' distinct_delete split: if_splits simp del: map_of_eq_Some_iff)
  moreover have "timers_live (loop_timers (es_loop s)) ?cs"
    using echo_invD(10) [OF assms(1)] assms(3,4) unfolding timers_live_def by (metis fun_upd_other option.inject)
  moreover have "dom (map_of (channels p')) \<subseteq> es_open s - {f}" "map_of (AList.delete f (es_table s)) (es_listen_fd s) = None"
    using assms(1) p'(3) by (auto simp: echo_inv_def delete_conv')
  ultimately show ?thesis
    using p' echo_invD(2,3,9) [OF assms(1)] assms(2) by (intro exI [of _ p']) (auto simp: delete_connection_def echo_inv_def)
qed

text \<open>A batch of deletions. An entry that is gone already is skipped.\<close>

definition deletable :: "echo_server \<Rightarrow> echo_task \<Rightarrow> bool" where
  "deletable s t \<longleftrightarrow> (\<exists>f. t = DeleteConnection f \<and> (\<forall>q c. map_of (es_table s) f = Some q \<and> es_conns s q = Some c \<longrightarrow> ec_closed c))"

lemma drain_ok:
  assumes "echo_inv s" and "\<forall>t \<in> set ts. deletable s t"
  shows "\<exists>s'. for_each run_echo_task ts s = Inr s' \<and> echo_inv s' \<and> pending_tasks (es_loop s') = pending_tasks (es_loop s) \<and>
    (\<forall>f. DeleteConnection f \<in> set ts \<longrightarrow> map_of (es_table s') f = None) \<and> (\<forall>f. map_of (es_table s) f = None \<longrightarrow> map_of (es_table s') f = None) \<and>
    (\<forall>f. DeleteConnection f \<in> set ts \<and> map_of (es_table s) f \<noteq> None \<longrightarrow> f \<notin> es_open s') \<and> es_open s' \<subseteq> es_open s \<and>
    (\<forall>r d. es_conns s r = Some d \<and> DeleteConnection (ec_fd d) \<notin> set ts \<longrightarrow> es_conns s' r = Some d)"
  using assms
proof (induction ts arbitrary: s)
  case (Cons t ts)
  obtain f where t: "t = DeleteConnection f" "\<And>q c. map_of (es_table s) f = Some q \<Longrightarrow> es_conns s q = Some c \<Longrightarrow> ec_closed c"
    using Cons.prems(2) by (auto simp: deletable_def)
  show ?case
  proof (cases "map_of (es_table s) f")
    case None
    then have "run_echo_task t s = Inr s" by (simp add: t delete_connection_def)
    then show ?thesis using Cons.IH [OF Cons.prems(1)] Cons.prems(2) None t(1) by fastforce
  next
    case (Some q)
    obtain c where c: "es_conns s q = Some c" "ec_fd c = f" using in_table [OF Cons.prems(1) Some] by blast
    obtain s1 where s1: "delete_connection f s = Inr s1" "echo_inv s1" "es_table s1 = AList.delete f (es_table s)" "es_conns s1 = (es_conns s)(q := None)"
        "pending_tasks (es_loop s1) = pending_tasks (es_loop s)" "es_open s1 = es_open s - {f}"
      using delete_connection_ok [OF Cons.prems(1) Some c(1) t(2) [OF Some c(1)]] by auto
    have "deletable s1 u" if "u \<in> set ts" for u
      using Cons.prems(2) that s1(3,4) by (fastforce simp: deletable_def delete_conv' split: if_splits simp del: map_of_eq_Some_iff)
    then obtain s' where s': "for_each run_echo_task ts s1 = Inr s'" "echo_inv s'" "pending_tasks (es_loop s') = pending_tasks (es_loop s1)"
      "\<forall>g. DeleteConnection g \<in> set ts \<longrightarrow> map_of (es_table s') g = None" "\<forall>g. map_of (es_table s1) g = None \<longrightarrow> map_of (es_table s') g = None"
      "\<forall>g. DeleteConnection g \<in> set ts \<and> map_of (es_table s1) g \<noteq> None \<longrightarrow> g \<notin> es_open s'" "es_open s' \<subseteq> es_open s1"
      "\<forall>r d. es_conns s1 r = Some d \<and> DeleteConnection (ec_fd d) \<notin> set ts \<longrightarrow> es_conns s' r = Some d"
      using Cons.IH [OF s1(2)] by blast
    have "es_conns s' r = Some d" if "es_conns s r = Some d" "DeleteConnection (ec_fd d) \<notin> set (t # ts)" for r d
      using that s'(8) s1(4) c t(1) by (cases "r = q") auto
    moreover have "map_of (es_table s') g = None" if "g = f \<or> map_of (es_table s) g = None" for g
      using that s'(5) s1(3) by (auto simp: delete_conv')
    moreover have "g \<notin> es_open s'" if "g = f \<or> DeleteConnection g \<in> set ts \<and> map_of (es_table s) g \<noteq> None" for g
      using that s'(6,7) s1(3,6) by (cases "g = f") (auto simp: delete_conv')
    ultimately show ?thesis using s'(1-4,7) s1(1,5,6) t(1) by (intro exI [of _ s']) auto
  qed
qed simp

section \<open>Runs\<close>

definition echo_event_ok :: "echo_event \<Rightarrow> echo_server \<Rightarrow> bool" where
  "echo_event_ok ev s =
     (case ev of
        EchoAccepted env f \<Rightarrow> f = kInvalidFd \<or> f \<notin> es_open s
      | EchoReadable env f \<Rightarrow> echo_recv_ok env
      | _ \<Rightarrow> True)"

inductive echo_step :: "echo_fault + echo_server \<Rightarrow> echo_fault + echo_server \<Rightarrow> bool" where
  "echo_event_ok ev s \<Longrightarrow> echo_step (Inr s) (handle_echo ev s)"

definition echo_started :: "echo_fault + echo_server \<Rightarrow> bool" where
  "echo_started r \<longleftrightarrow>
     (\<exists>self kind rd wr now l f fds. EventLoop_new self kind (Inr (rd, wr)) now = Inr l \<and> rd \<in> fds \<and> f \<notin> fds \<and> f \<noteq> kInvalidFd \<and>
        r = EchoServer_new f True True fds 1 l)"

definition echo_alive :: "echo_fault + echo_server \<Rightarrow> bool" where
  "echo_alive r \<longleftrightarrow> (\<exists>s. r = Inr s \<and> echo_ok s)"

lemma echo_new_ok:
  assumes "EventLoop_new self kind (Inr (rd, wr)) now = Inr l" and "rd \<in> fds" and "f \<notin> fds" and "f \<noteq> kInvalidFd"
  shows "\<exists>s. EchoServer_new f True True fds 1 l = Inr s \<and> echo_ok s \<and> es_open s = insert f fds \<and> es_next s = 0"
proof -
  let ?ch = "(Channel_new f)\<lparr>read_callback := True\<rparr>" and ?p = "loop_poller l"
  note p = EventLoop_new_poller [OF assms(1)]
  have "heap ?p 1 = None" "map_of (channels ?p) (fd ?ch) = None" "poller_ok ?p"
    using wakeup_poller(1,3) [of rd 0] wakeup_poller(2) [of 1 rd 0] assms(2,3) by (auto simp: p Channel_new_def)
  from open_channel_ok [OF this(3,1,2)] obtain p' ch where p': "enable_reading 1 (?p\<lparr>heap := (heap ?p)(1 \<mapsto> ?ch)\<rparr>) = Inr p'" "poller_ok p'"
      "heap p' = (heap ?p)(1 \<mapsto> ch)" "channels p' = AList.update f 1 (channels ?p)" "added_to_loop ch"
    by (auto simp: Channel_new_def)
  then show ?thesis
    using assms(2,4) new_loop_timers [OF assms(1)] EventLoop_new_fields(1,4) [OF assms(1)] wakeup_poller(2) [of _ rd 0] wakeup_poller(3) [of rd 0]
    by (auto simp: EchoServer_new_def es_new_channel_def es_on_loop_def with_poller_def assert_in_loop_thread_def is_in_loop_thread_def
        echo_ok_def echo_inv_def p owns_def added_def update_conv' table_agrees_def timers_live_def Let_def split: if_splits)
qed

lemma echo_tasks_ok:
  assumes "echo_ok s"
  shows "\<exists>s'. handle_echo EchoTasks s = Inr s' \<and> echo_ok s' \<and> pending_tasks (es_loop s') = [] \<and>
    (\<forall>f. DeleteConnection f \<in> set (pending_tasks (es_loop s)) \<longrightarrow> map_of (es_table s') f = None \<and> f \<notin> es_open s') \<and>
    (\<forall>r d. es_conns s r = Some d \<and> DeleteConnection (ec_fd d) \<notin> set (pending_tasks (es_loop s)) \<longrightarrow> es_conns s' r = Some d)"
proof -
  let ?s = "s\<lparr>es_loop := (es_loop s)\<lparr>pending_tasks := []\<rparr>\<rparr>" and ?ts = "pending_tasks (es_loop s)"
  have "echo_inv ?s" using echo_okD(1) [OF assms] by (subst echo_inv_loop) simp_all
  moreover have "deletable ?s t" if "t \<in> set ?ts" for t
    using echo_okD(2) [OF assms that] by (auto simp: deletable_def doomed_def simp del: map_of_eq_Some_iff)
  ultimately obtain s' where "for_each run_echo_task ?ts ?s = Inr s'" "echo_inv s'" "pending_tasks (es_loop s') = []"
    "\<forall>f. DeleteConnection f \<in> set ?ts \<longrightarrow> map_of (es_table s') f = None"
    "\<forall>f. DeleteConnection f \<in> set ?ts \<and> map_of (es_table s) f \<noteq> None \<longrightarrow> f \<notin> es_open s'"
    "\<forall>r d. es_conns s r = Some d \<and> DeleteConnection (ec_fd d) \<notin> set ?ts \<longrightarrow> es_conns s' r = Some d"
    using drain_ok [of ?s ?ts] by auto
  moreover have "map_of (es_table s) f \<noteq> None" if "DeleteConnection f \<in> set ?ts" for f
    using echo_okD(2) [OF assms that] by (auto simp: doomed_def)
  ultimately show ?thesis by (simp add: echo_ok_def)
qed

lemma echo_ok_cancel: "echo_ok s \<Longrightarrow> echo_ok (s\<lparr>es_loop := cancel_timer i (es_loop s)\<rparr>)"
  using timers_live_cancel cancel_timer_pending [of "es_loop s" i] by (simp add: echo_ok_def echo_inv_def)

text \<open>A timer that fires closes the object it belongs to.\<close>

lemma echo_timer_ok:
  assumes "echo_ok s" and "loop_timers (es_loop s) i = Some t"
  shows "\<exists>q c l. t = IdleTimeout q \<and> es_conns s q = Some c \<and> ec_timer c = i \<and> \<not> ec_closed c \<and>
    handle_echo (EchoTimer i) s = Inr (s\<lparr>es_conns := (es_conns s)(q \<mapsto> c\<lparr>ec_closed := True\<rparr>), es_loop := l\<rparr>) \<and>
    echo_ok (s\<lparr>es_conns := (es_conns s)(q \<mapsto> c\<lparr>ec_closed := True\<rparr>), es_loop := l\<rparr>) \<and> pending_tasks l = pending_tasks (es_loop s) \<and>
    (\<exists>ch. heap (loop_poller l) (ec_channel c) = Some ch \<and> events ch = kNoneEvent)"
proof -
  obtain q c where c: "t = IdleTimeout q" "es_conns s q = Some c" "ec_timer c = i" "\<not> ec_closed c"
    using timers_liveD [OF echo_invD(10) [OF echo_okD(1) [OF assms(1)]] assms(2)] by blast
  let ?s = "s\<lparr>es_loop := cancel_timer i (es_loop s)\<rparr>"
  note ok = echo_ok_cancel [OF assms(1), of i]
  from close_connection_ok [OF echo_okD(1) [OF ok], of q c] close_connection_safe [OF ok, of q c] c assms(2) show ?thesis by auto
qed

lemma handle_echo_safe:
  assumes "echo_ok s" and "echo_event_ok ev s"
  shows "\<exists>s'. handle_echo ev s = Inr s' \<and> echo_ok s'"
proof (cases ev)
  case (EchoAccepted env f)
  then show ?thesis using assms echo_accept_ok [OF assms(1), of f env]
    by (cases "f = kInvalidFd") (auto simp: echo_event_ok_def echo_on_accept_def)
next
  case (EchoTimer i)
  then show ?thesis using assms(1) echo_timer_ok [OF assms(1), of i] by (cases "loop_timers (es_loop s) i") auto
next
  case EchoTasks
  then show ?thesis using echo_tasks_ok [OF assms(1)] by metis
qed (use assms echo_on_message_safe echo_on_close_safe in \<open>auto simp: echo_event_ok_def\<close>)

interpretation echo_system: step_system echo_started echo_step echo_alive
proof
  show "echo_alive r" if "echo_started r" for r
    using that echo_new_ok unfolding echo_started_def echo_alive_def by metis
  show "echo_alive r'" if "echo_alive r" "echo_step r r'" for r r'
    using that(2,1) handle_echo_safe by cases (auto simp: echo_alive_def)
qed

lemma echo_reached: "echo_started r \<Longrightarrow> echo_step\<^sup>*\<^sup>* r r' \<Longrightarrow> \<exists>s. r' = Inr s \<and> echo_ok s"
  using echo_system.inv_reached by (simp add: echo_alive_def)

section \<open>Destruction\<close>

definition fd_of :: "echo_server \<Rightarrow> nat \<Rightarrow> int" where
  "fd_of s q = (case es_conns s q of None \<Rightarrow> kInvalidFd | Some c \<Rightarrow> ec_fd c)"

text \<open>Deleting several objects with different descriptors.\<close>

lemma delete_objects_ok:
  assumes "poller_ok (loop_poller (es_loop s))" and "owns (loop_poller (es_loop s)) g b" and "distinct (map (fd_of s) qs)" and "g \<notin> fd_of s ` set qs"
    and "\<forall>q \<in> set qs. \<exists>c. es_conns s q = Some c \<and> owns (loop_poller (es_loop s)) (ec_fd c) (ec_channel c)"
  shows "\<exists>p'. for_each delete_object qs s = Inr (s\<lparr>es_loop := (es_loop s)\<lparr>loop_poller := p'\<rparr>, es_open := es_open s - fd_of s ` set qs,
      es_conns := es_conns s |` (- set qs)\<rparr>) \<and> poller_ok p' \<and> owns p' g b"
  using assms
proof (induction qs arbitrary: s)
  case Nil
  then show ?case by (intro exI [of _ "loop_poller (es_loop s)"]) simp
next
  case (Cons q qs)
  let ?p = "loop_poller (es_loop s)"
  obtain c where c: "es_conns s q = Some c" "owns ?p (ec_fd c) (ec_channel c)" using Cons.prems(5) by auto
  have fdq: "fd_of s q = ec_fd c" by (simp add: fd_of_def c)
  obtain p1 where p1: "delete_object q s = Inr (s\<lparr>es_loop := (es_loop s)\<lparr>loop_poller := p1\<rparr>, es_open := es_open s - {ec_fd c}, es_conns := (es_conns s)(q := None)\<rparr>)"
      "poller_ok p1" "channels p1 = AList.delete (ec_fd c) (channels ?p)" "heap p1 = (heap ?p)(ec_channel c := None)"
    using delete_object_ok [OF Cons.prems(1) c] by blast
  let ?s1 = "s\<lparr>es_loop := (es_loop s)\<lparr>loop_poller := p1\<rparr>, es_open := es_open s - {ec_fd c}, es_conns := (es_conns s)(q := None)\<rparr>"
  have q: "q \<notin> set qs" using Cons.prems(3) by auto
  then have same: "fd_of ?s1 r = fd_of s r" if "r \<in> set qs" for r using that by (auto simp: fd_of_def)
  then have fds: "map (fd_of ?s1) qs = map (fd_of s) qs" "fd_of ?s1 ` set qs = fd_of s ` set qs" by auto
  note keep = owns_delete [OF Cons.prems(1) _ c(2) _ p1(3,4)]
  have "owns p1 g b" using keep [OF Cons.prems(2)] Cons.prems(4) fdq by auto
  moreover have "\<exists>d. es_conns ?s1 r = Some d \<and> owns p1 (ec_fd d) (ec_channel d)" if r: "r \<in> set qs" for r
  proof -
    obtain d where d: "es_conns s r = Some d" "owns ?p (ec_fd d) (ec_channel d)" using Cons.prems(5) r by auto
    moreover have "ec_fd d \<noteq> ec_fd c" using Cons.prems(3) r fdq d(1) by (force simp: fd_of_def)
    ultimately show ?thesis using keep [OF d(2)] q r by auto
  qed
  ultimately obtain p' where p': "for_each delete_object qs ?s1 = Inr (?s1\<lparr>es_loop := (es_loop ?s1)\<lparr>loop_poller := p'\<rparr>, es_open := es_open ?s1 - fd_of s ` set qs,
      es_conns := es_conns ?s1 |` (- set qs)\<rparr>)" "poller_ok p'" "owns p' g b"
    using Cons.IH [of ?s1] Cons.prems(3,4) p1(2) unfolding fds by (simp del: fun_upd_apply) blast
  have "(es_conns s)(q := None) |` (- set qs) = es_conns s |` (- set (q # qs))"
    by (auto simp: restrict_map_def fun_eq_iff)
  moreover have "es_open s - {ec_fd c} - fd_of s ` set qs = es_open s - fd_of s ` set (q # qs)"
    by (auto simp: fdq)
  ultimately show ?case using p1(1) p' by (intro exI [of _ p']) simp
qed

lemma table_objects:
  assumes "table_agrees tab (es_conns s)"
  shows "map (fd_of s) (map snd tab) = map fst tab" and "q \<in> set (map snd tab) \<longleftrightarrow> es_conns s q \<noteq> None"
proof -
  have agree: "(f, q) \<in> set tab \<longleftrightarrow> (\<exists>c. es_conns s q = Some c \<and> ec_fd c = f)" for f q
    using assms unfolding table_agrees_def by (metis map_of_eq_Some_iff)
  show "map (fd_of s) (map snd tab) = map fst tab"
    by (auto simp: fd_of_def agree split: option.splits)
  have "q \<in> set (map snd tab) \<longleftrightarrow> (\<exists>f. (f, q) \<in> set tab)" by force
  then show "q \<in> set (map snd tab) \<longleftrightarrow> es_conns s q \<noteq> None" by (auto simp: agree)
qed

lemma EchoServer_destroy_ok:
  assumes "echo_ok s"
  shows "\<exists>s'. EchoServer_destroy s = Inr s' \<and> es_conns s' = Map.empty \<and> es_table s' = [] \<and>
    es_open s' = es_open s - insert (es_listen_fd s) (fst ` set (es_table s)) \<and> loop_timers (es_loop s') = loop_timers (es_loop s)"
proof -
  note inv = echo_okD(1) [OF assms]
  note objs = table_objects [OF echo_invD(7) [OF inv]]
  let ?qs = "map snd (es_table s)"
  have "es_listen_fd s \<notin> fst ` set (es_table s)"
    using echo_invD(6) [OF inv] by (metis map_of_eq_None_iff)
  moreover have fds: "fd_of s ` set ?qs = fst ` set (es_table s)" using objs(1) by (metis set_map)
  moreover have "distinct (map (fd_of s) ?qs)" unfolding objs(1) using echo_invD(7) [OF inv] by (simp add: table_agrees_def)
  moreover have "\<exists>c. es_conns s q = Some c \<and> owns (loop_poller (es_loop s)) (ec_fd c) (ec_channel c)" if "q \<in> set ?qs" for q
    using that objs(2) echo_invD(8) [OF inv] by blast
  ultimately obtain p' where p': "for_each delete_object ?qs s = Inr (s\<lparr>es_loop := (es_loop s)\<lparr>loop_poller := p'\<rparr>,
      es_open := es_open s - fst ` set (es_table s), es_conns := es_conns s |` (- set ?qs)\<rparr>)" "poller_ok p'" "owns p' (es_listen_fd s) (es_listen_channel s)"
    using delete_objects_ok [OF echo_invD(1,5) [OF inv], of ?qs] by auto
  moreover have "es_conns s |` (- set ?qs) = Map.empty" using objs(2) by (auto simp: restrict_map_def fun_eq_iff)
  moreover obtain p2 where "Channel_destroy (es_self s) False (es_listen_channel s) ((es_loop s)\<lparr>loop_poller := p'\<rparr>) = Inr ((es_loop s)\<lparr>loop_poller := p2\<rparr>)"
    using destroy_channel_ok [of "(es_loop s)\<lparr>loop_poller := p'\<rparr>"] p'(2,3) by (auto simp: owns_def)
  ultimately show ?thesis by (auto simp: EchoServer_destroy_def es_on_loop_def)
qed

section \<open>Leaks\<close>

text \<open>A connection that is closed, but whose deletion nobody has queued.\<close>

definition leaked :: "int \<Rightarrow> nat \<Rightarrow> echo_server \<Rightarrow> bool" where
  "leaked f q s \<longleftrightarrow> (\<exists>c. es_conns s q = Some c \<and> ec_fd c = f \<and> ec_closed c) \<and> DeleteConnection f \<notin> set (pending_tasks (es_loop s))"

lemma leaked_open:
  assumes "echo_ok s" and "leaked f q s"
  shows "map_of (es_table s) f = Some q" "f \<in> es_open s"
proof -
  note inv = echo_okD(1) [OF assms(1)]
  obtain c where c: "es_conns s q = Some c" "ec_fd c = f" using assms(2) by (auto simp: leaked_def)
  then show "map_of (es_table s) f = Some q" using table_agreesD [OF echo_invD(7) [OF inv]] by auto
  show "f \<in> es_open s" using echo_invD(8) [OF inv c(1)] echo_invD(4) [OF inv] c(2) by (auto simp: owns_def)
qed

lemma leaked_close:
  assumes "echo_ok s" and "leaked f q s" and "g \<noteq> f"
  shows "\<exists>s'. echo_on_close g s = Inr s' \<and> leaked f q s'"
proof (cases "map_of (es_table s) g")
  case None
  then show ?thesis using assms(2) by (simp add: echo_on_close_def)
next
  case (Some r)
  obtain d where d: "es_conns s r = Some d" "ec_fd d = g" using in_table [OF echo_okD(1) [OF assms(1)] Some] by blast
  then have "r \<noteq> q" using assms(2,3) by (auto simp: leaked_def)
  with echo_on_close_ok [OF assms(1) Some d(1)] assms(2,3) show ?thesis by (auto simp: leaked_def)
qed

lemma leaked_refresh:
  assumes "echo_ok s" and "leaked f q s" and "es_conns s r = Some d" and "\<not> ec_closed d"
  shows "\<exists>s'. echo_refresh_timeout env r s = Inr s' \<and> leaked f q s'"
proof -
  have "r \<noteq> q" using assms(2-4) by (auto simp: leaked_def)
  with echo_refresh_ok [OF echo_okD(1) [OF assms(1)] assms(3,4), of env] assms(2) show ?thesis by (auto simp: leaked_def)
qed

lemma leaked_message:
  assumes "echo_ok s" and "leaked f q s" and "echo_on_message env g s = Inr s'"
  shows "leaked f q s'"
proof (cases "g = f")
  case True
  then have "echo_on_message env g s = Inr s" using leaked_open(1) [OF assms(1,2)] assms(2) by (auto simp: echo_on_message_def leaked_def)
  then show ?thesis using assms(2,3) by simp
next
  case False
  note close = leaked_close [OF assms(1,2) False]
  have wire: "leaked f q (s\<lparr>es_wire := w\<rparr>)" for w using assms(2) by (simp add: leaked_def)
  have refresh: "leaked f q t" if "echo_refresh_timeout env r (s\<lparr>es_wire := w\<rparr>) = Inr t" "es_conns s r = Some d" "\<not> ec_closed d" for t r w d
    using leaked_refresh [of "s\<lparr>es_wire := w\<rparr>" f q r d env] assms(1) wire that by simp
  from assms(2,3) close show ?thesis
    by (auto simp: echo_on_message_def Let_def intro: refresh split: option.splits if_splits sum.splits)
qed

lemma leaked_event:
  assumes "echo_ok s" and "leaked f q s" and "echo_event_ok ev s" and "ev \<noteq> EchoHungUp f" and "handle_echo ev s = Inr s'"
  shows "leaked f q s'"
proof (cases ev)
  case (EchoAccepted env g)
  have "es_next s \<noteq> q" using echo_invD(3) [OF echo_okD(1) [OF assms(1)], of q] assms(2) by (auto simp: leaked_def)
  then show ?thesis using assms EchoAccepted echo_accept_ok [OF assms(1), of g env]
    by (cases "g = kInvalidFd") (auto simp: echo_event_ok_def echo_on_accept_def leaked_def)
next
  case EchoTasks
  then show ?thesis using assms(2,5) echo_tasks_ok [OF assms(1)] by (auto simp: leaked_def simp del: handle_echo.simps)
next
  case (EchoTimer i)
  show ?thesis
  proof (cases "loop_timers (es_loop s) i")
    case None
    then show ?thesis using assms(2,5) EchoTimer by simp
  next
    case (Some t)
    from echo_timer_ok [OF assms(1) Some] obtain r d l where r: "es_conns s r = Some d" "\<not> ec_closed d" "pending_tasks l = pending_tasks (es_loop s)"
      "s' = s\<lparr>es_conns := (es_conns s)(r \<mapsto> d\<lparr>ec_closed := True\<rparr>), es_loop := l\<rparr>"
      using assms(5) EchoTimer by (metis sum.inject(2))
    moreover have "r \<noteq> q" using assms(2) r(1,2) by (auto simp: leaked_def)
    ultimately show ?thesis using assms(2) by (simp add: leaked_def)
  qed
next
  case (EchoReadable env g)
  then show ?thesis using leaked_message [OF assms(1,2)] assms(5) by simp
next
  case (EchoHungUp g)
  then show ?thesis using leaked_close [OF assms(1,2), of g] assms(4,5) by auto
qed

text \<open>The steps in which no hang-up or error is reported for the descriptor.\<close>

inductive quiet_step :: "int \<Rightarrow> echo_fault + echo_server \<Rightarrow> echo_fault + echo_server \<Rightarrow> bool" for f where
  "echo_event_ok ev s \<Longrightarrow> ev \<noteq> EchoHungUp f \<Longrightarrow> quiet_step f (Inr s) (handle_echo ev s)"

lemma leaked_forever:
  assumes "(quiet_step f)\<^sup>*\<^sup>* (Inr s) r" and "echo_ok s" and "leaked f q s"
  shows "\<exists>s'. r = Inr s' \<and> echo_ok s' \<and> leaked f q s'"
  using assms
proof (induction rule: rtranclp_induct)
  case (step y z)
  then obtain s1 where s1: "y = Inr s1" "echo_ok s1" "leaked f q s1" by blast
  from step.hyps(2) obtain ev where ev: "z = handle_echo ev s1" "echo_event_ok ev s1" "ev \<noteq> EchoHungUp f"
    using s1(1) by cases auto
  obtain s2 where "z = Inr s2" "echo_ok s2" using handle_echo_safe [OF s1(2) ev(2)] ev(1) by auto
  then show ?case using leaked_event [OF s1(2,3) ev(2,3)] ev(1) by simp
qed simp

section \<open>Properties\<close>

text \<open>A run for the witnesses: a server on descriptor 4 whose loop is woken through descriptor 3 accepts a client on descriptor 7.\<close>

definition echo_demo_env :: echo_env where
  "echo_demo_env = \<lparr>ec_now = 0, ec_recv = (\<lambda>f k. ((5, 0), ''hello'')), ec_send = (\<lambda>f bytes k. (3, 0))\<rparr>"

lemma echo_demo:
  "\<exists>r s c. echo_started r \<and> echo_step\<^sup>*\<^sup>* r (Inr s) \<and> echo_ok s \<and> map_of (es_table s) 7 = Some 0 \<and> es_conns s 0 = Some c \<and> ec_fd c = 7 \<and> \<not> ec_closed c \<and>
     es_wire s 7 = [] \<and> loop_timers (es_loop s) (ec_timer c) = Some (IdleTimeout 0)"
proof -
  obtain l :: "echo_task event_loop" where l: "EventLoop_new 1 Eventfd (Inr (3, 3)) 0 = Inr l"
    using EventLoop_new_works by blast
  obtain s where s: "EchoServer_new 4 True True {3} 1 l = Inr s" "echo_ok s" "es_open s = {4, 3}" "es_next s = 0"
    using echo_new_ok [OF l, of "{3}" 4] by (auto simp: kInvalidFd_def)
  have wire: "es_wire s = (\<lambda>f. [])"
    using s(1) by (auto simp: EchoServer_new_def es_new_channel_def es_on_loop_def Let_def map_sum_Inr_iff split: if_splits)
  obtain s1 c where s1: "echo_on_accept echo_demo_env 7 s = Inr s1" "echo_ok s1" "map_of (es_table s1) 7 = Some 0" "es_conns s1 0 = Some c"
    "ec_fd c = 7" "\<not> ec_closed c" "es_wire s1 = es_wire s" "loop_timers (es_loop s1) (ec_timer c) = Some (IdleTimeout 0)"
    using echo_accept_ok [OF s(2), of 7 echo_demo_env] s(3,4) by (auto simp: kInvalidFd_def)
  have "echo_started (Inr s)"
    unfolding echo_started_def using l s(1)
    by (intro exI [of _ 1] exI [of _ Eventfd] exI [of _ 3] exI [of _ 0] exI [of _ l] exI [of _ 4] exI [of _ "{3}"]) (simp add: kInvalidFd_def)
  moreover have "echo_step (Inr s) (Inr s1)"
    using echo_step.intros [of "EchoAccepted echo_demo_env 7" s] s(3) s1(1) by (simp add: echo_event_ok_def)
  ultimately show ?thesis using s1 wire by (intro exI [of _ "Inr s"] exI [of _ s1] exI [of _ c]) auto
qed

text \<open>C15. The reactor echo server never uses a connection object after it was deleted, whatever the order of accepted clients, readable sockets, hang-ups,
  deferred deletions and idle timeouts: in every run no handler faults, the buffer of \<open>on_message\<close> is never overrun, the table lists exactly the live
  objects under their own open descriptors, each with a live channel registered for it, and a pending timer belongs to a live, open connection that remembers it, so that its raw \<open>this\<close> pointer is valid.\<close>

theorem echo_safe:
  assumes "echo_started r" and "echo_step\<^sup>*\<^sup>* r r'"
  shows "\<exists>s. r' = Inr s \<and> (\<forall>f q. map_of (es_table s) f = Some q \<longleftrightarrow> (\<exists>c. es_conns s q = Some c \<and> ec_fd c = f)) \<and>
    (\<forall>q c. es_conns s q = Some c \<longrightarrow> ec_fd c \<in> es_open s \<and> map_of (channels (loop_poller (es_loop s))) (ec_fd c) = Some (ec_channel c) \<and>
       (\<exists>ch. heap (loop_poller (es_loop s)) (ec_channel c) = Some ch \<and> fd ch = ec_fd c)) \<and>
    (\<forall>i t. loop_timers (es_loop s) i = Some t \<longrightarrow> (\<exists>q c. t = IdleTimeout q \<and> es_conns s q = Some c \<and> ec_timer c = i \<and> \<not> ec_closed c))"
proof -
  obtain s where s: "r' = Inr s" "echo_ok s" using echo_reached [OF assms] by blast
  note inv = echo_okD(1) [OF s(2)]
  have "ec_fd c \<in> es_open s \<and> map_of (channels (loop_poller (es_loop s))) (ec_fd c) = Some (ec_channel c) \<and>
      (\<exists>ch. heap (loop_poller (es_loop s)) (ec_channel c) = Some ch \<and> fd ch = ec_fd c)" if "es_conns s q = Some c" for q c
    using echo_invD(8) [OF inv that] echo_invD(4) [OF inv] poller_okD(2) [OF echo_invD(1) [OF inv]] unfolding owns_def by blast
  moreover have "\<exists>q c. t = IdleTimeout q \<and> es_conns s q = Some c \<and> ec_timer c = i \<and> \<not> ec_closed c" if "loop_timers (es_loop s) i = Some t" for i t
    using timers_liveD [OF echo_invD(10) [OF inv] that] by blast
  ultimately show ?thesis using s(1) table_agreesD [OF echo_invD(7) [OF inv]] by blast
qed

theorem echo_safe_witness:
  "\<exists>r s c. echo_started r \<and> echo_step\<^sup>*\<^sup>* r (Inr s) \<and> es_conns s 0 = Some c \<and> ec_fd c = 7 \<and> 7 \<in> es_open s"
proof -
  obtain r s c where d: "echo_started r" "echo_step\<^sup>*\<^sup>* r (Inr s)" "es_conns s 0 = Some c" "ec_fd c = 7" using echo_demo by blast
  from echo_safe [OF d(1,2)] d(3,4) have "7 \<in> es_open s" by (metis sum.inject(2))
  with d show ?thesis by blast
qed

text \<open>C27. When a client of the echo server sends bytes and the socket accepts \<open>k\<close> of them, exactly the first \<open>k\<close> bytes received are sent back, after everything sent before and
  to no other client; the connection stays open and its idle timeout is renewed. The bytes the socket did not accept are dropped: nothing is queued for them.\<close>

theorem echo_echoes:
  assumes "echo_started r" and "echo_step\<^sup>*\<^sup>* r (Inr s)" and "map_of (es_table s) f = Some q" and "es_conns s q = Some c" and "\<not> ec_closed c"
    and "ec_recv env f 4095 = ((n, e), bytes)" and "0 < n" and "n \<le> 4095" and "ec_send env f (take (nat n) bytes) n = (k, e')" and "0 < k"
  shows "\<exists>s' i. handle_echo (EchoReadable env f) s = Inr s' \<and> es_wire s' = (es_wire s)(f := es_wire s f @ take (nat k) (take (nat n) bytes)) \<and>
    es_table s' = es_table s \<and> es_conns s' = (es_conns s)(q \<mapsto> c\<lparr>ec_timer := i\<rparr>) \<and> loop_timers (es_loop s') i = Some (IdleTimeout q) \<and>
    pending_tasks (es_loop s') = pending_tasks (es_loop s) \<and> loop_poller (es_loop s') = loop_poller (es_loop s)"
proof -
  have ok: "echo_ok s" using echo_reached [OF assms(1,2)] by auto
  have f: "ec_fd c = f" using table_agreesD [OF echo_invD(7) [OF echo_okD(1) [OF ok]]] assms(3,4) by auto
  let ?s = "s\<lparr>es_wire := (es_wire s)(f := es_wire s f @ take (nat k) (take (nat n) bytes))\<rparr>"
  have "count_to_int (word_of_int n) = n"
    using assms(7,8) by (simp add: count_to_int_def unsigned_of_int take_bit_int_eq_self signed_of_int signed_take_bit_int_eq_self)
  then have "echo_on_message env f s = echo_refresh_timeout env q ?s"
    using assms(3-10) f by (simp add: echo_on_message_def socket_read_def socket_write_def Let_def)
  moreover have "echo_inv ?s" using ok by (metis echo_okD(1) echo_ok_wire)
  ultimately show ?thesis using echo_refresh_ok [of ?s q c env] assms(4,5) by fastforce
qed

theorem echo_echoes_witness:
  "\<exists>r s s'. echo_started r \<and> echo_step\<^sup>*\<^sup>* r (Inr s) \<and> es_wire s 7 = [] \<and> handle_echo (EchoReadable echo_demo_env 7) s = Inr s' \<and> es_wire s' 7 = ''hel''"
proof -
  obtain r s c where d: "echo_started r" "echo_step\<^sup>*\<^sup>* r (Inr s)" "map_of (es_table s) 7 = Some 0" "es_conns s 0 = Some c" "\<not> ec_closed c" "es_wire s 7 = []"
    using echo_demo by blast
  from echo_echoes [OF d(1-5), of echo_demo_env 5 0 "''hello''" 3 0] obtain s' where
    "handle_echo (EchoReadable echo_demo_env 7) s = Inr s'" "es_wire s' = (es_wire s)(7 := es_wire s 7 @ take 3 (take 5 ''hello''))"
    by (auto simp: echo_demo_env_def)
  with d(1,2,6) show ?thesis by (intro exI [of _ r] exI [of _ s] exI [of _ s']) simp
qed

lemma hang_up_or_timeout:
  assumes "echo_started r" and "echo_step\<^sup>*\<^sup>* r (Inr s)" and "map_of (es_table s) f = Some q"
  shows "\<exists>s1 s2. handle_echo (EchoHungUp f) s = Inr s1 \<and> handle_echo EchoTasks s1 = Inr s2 \<and> map_of (es_table s2) f = None \<and> f \<notin> es_open s2"
    and "loop_timers (es_loop s) i = Some (IdleTimeout q) \<Longrightarrow>
      \<exists>s1 c ch. handle_echo (EchoTimer i) s = Inr s1 \<and> es_conns s1 q = Some c \<and> ec_closed c \<and>
        heap (loop_poller (es_loop s1)) (ec_channel c) = Some ch \<and> events ch = kNoneEvent \<and>
        (\<forall>t. (quiet_step f)\<^sup>*\<^sup>* (Inr s1) t \<longrightarrow> (\<exists>s2. t = Inr s2 \<and> map_of (es_table s2) f = Some q \<and> es_conns s2 q \<noteq> None \<and> f \<in> es_open s2))"
proof -
  have ok: "echo_ok s" using echo_reached [OF assms(1,2)] by auto
  obtain c where c: "es_conns s q = Some c" "ec_fd c = f" using in_table [OF echo_okD(1) [OF ok] assms(3)] by blast
  obtain s1 where s1: "echo_on_close f s = Inr s1" "echo_ok s1" "DeleteConnection f \<in> set (pending_tasks (es_loop s1))"
    using echo_on_close_ok [OF ok assms(3) c(1)] by auto
  then show "\<exists>s1 s2. handle_echo (EchoHungUp f) s = Inr s1 \<and> handle_echo EchoTasks s1 = Inr s2 \<and> map_of (es_table s2) f = None \<and> f \<notin> es_open s2"
    using echo_tasks_ok [OF s1(2)] by (metis handle_echo.simps(3))
  assume t: "loop_timers (es_loop s) i = Some (IdleTimeout q)"
  obtain l ch where l: "\<not> ec_closed c" "handle_echo (EchoTimer i) s = Inr (s\<lparr>es_conns := (es_conns s)(q \<mapsto> c\<lparr>ec_closed := True\<rparr>), es_loop := l\<rparr>)"
      "echo_ok (s\<lparr>es_conns := (es_conns s)(q \<mapsto> c\<lparr>ec_closed := True\<rparr>), es_loop := l\<rparr>)" "pending_tasks l = pending_tasks (es_loop s)"
      "heap (loop_poller l) (ec_channel c) = Some ch" "events ch = kNoneEvent"
    using echo_timer_ok [OF ok t] c(1) by auto
  let ?s = "s\<lparr>es_conns := (es_conns s)(q \<mapsto> c\<lparr>ec_closed := True\<rparr>), es_loop := l\<rparr>"
  have "DeleteConnection f \<notin> set (pending_tasks (es_loop s))"
    using echo_okD(2) [OF ok, of "DeleteConnection f"] l(1) assms(3) c(1) by (auto simp: doomed_def)
  then have leak: "leaked f q ?s" using c(2) l(4) by (simp add: leaked_def)
  have "\<exists>s2. u = Inr s2 \<and> map_of (es_table s2) f = Some q \<and> es_conns s2 q \<noteq> None \<and> f \<in> es_open s2" if "(quiet_step f)\<^sup>*\<^sup>* (Inr ?s) u" for u
    using leaked_forever [OF that l(3) leak] leaked_open unfolding leaked_def by (metis option.distinct(1))
  then show "\<exists>s1 c ch. handle_echo (EchoTimer i) s = Inr s1 \<and> es_conns s1 q = Some c \<and> ec_closed c \<and>
        heap (loop_poller (es_loop s1)) (ec_channel c) = Some ch \<and> events ch = kNoneEvent \<and>
        (\<forall>t. (quiet_step f)\<^sup>*\<^sup>* (Inr s1) t \<longrightarrow> (\<exists>s2. t = Inr s2 \<and> map_of (es_table s2) f = Some q \<and> es_conns s2 q \<noteq> None \<and> f \<in> es_open s2))"
    using l(2,5,6) by (intro exI [of _ ?s] exI [of _ "c\<lparr>ec_closed := True\<rparr>"] exI [of _ ch]) simp
qed



end
