(* ===== verification/Echo_Blocking.thy ===== *)
theory Echo_Blocking
  imports Socket_Io
begin

text \<open>
  The blocking echo server (\<open>src/hound/examples/echo_server.cpp\<close>): the loop of a client's thread, and the accept loop of \<open>main\<close>. What a client does is a list of turns, one for
  each pass of the loop; when the list is used up, the thread waits in \<open>read\<close>.
\<close>

section \<open>The thread of a client\<close>

text \<open>One pass: what \<open>recv\<close> returns, the bytes it delivers, and what \<open>send\<close> returns for the bytes to send.\<close>

record turn =
  turn_recv :: "int \<times> int"
  turn_bytes :: string
  turn_send :: "string \<Rightarrow> int \<times> int"

datatype client_end = ReadError | Disconnected | WriteError | BufferOverrun | Waiting

fun client_loop :: "int \<Rightarrow> turn list \<Rightarrow> string \<Rightarrow> client_end \<times> string" where
  "client_loop f [] sent = (Waiting, sent)"
| "client_loop f (t # ts) sent =
     (case socket_read (\<lambda>f k. turn_recv t) f 4095 of
        Inl e \<Rightarrow> (ReadError, sent)
      | Inr n \<Rightarrow>
          if n = 0 then (Disconnected, sent)
          else if n < 0 \<or> 4096 \<le> n then (BufferOverrun, sent)
          else
            let bytes = take (nat n) (turn_bytes t)
            in case socket_write (\<lambda>f k. turn_send t bytes) f (of_int n) of
                 Inl e \<Rightarrow> (WriteError, sent)
               | Inr k \<Rightarrow> client_loop f ts (sent @ take (nat k) bytes))"

text \<open>\<open>handle_client\<close> owns the socket it is passed, and closes it when it returns.\<close>

definition handle_client :: "nat \<Rightarrow> turn list \<Rightarrow> sock_store \<Rightarrow> sock_fault + (sock_store \<times> client_end \<times> string)" where
  "handle_client x ts st =
     (case sock_objs st x of
        None \<Rightarrow> Inl Lifetime
      | Some f \<Rightarrow>
          let (e, sent) = client_loop f ts []
          in if e = Waiting \<or> e = BufferOverrun then Inr (st, e, sent)
             else map_sum id (\<lambda>st1. (st1, e, sent)) (Socket_destroy x st))"

section \<open>The accept loop\<close>

text \<open>One pass of \<open>main\<close>: the accepted socket, an object \<open>y\<close> of the loop body, is moved to the object \<open>x\<close> of a new detached thread.\<close>

definition accept_pass :: "int \<Rightarrow> int \<Rightarrow> address \<Rightarrow> nat \<Rightarrow> nat \<Rightarrow> nat \<Rightarrow> sock_store \<times> nat list \<Rightarrow> sock_fault + sock_store \<times> nat list" where
  "accept_pass f errno ss len x y =
     (\<lambda>(st, threads).
        sum_bind (socket_accept f errno ss len y st)
          (\<lambda>(st1, client).
             case client of
               Inl e \<Rightarrow> Inr (st1, threads)
             | Inr peer \<Rightarrow>
                 sum_bind (Socket_move x y st1)
                   (\<lambda>st2. sum_bind (Socket_destroy y st2) (\<lambda>st3. Inr (st3, threads @ [x])))))"

section \<open>Properties\<close>

text \<open>A turn that delivers bytes which fit the buffer, and whose write is complete.\<close>

definition full_turn :: "turn \<Rightarrow> bool" where
  "full_turn t \<longleftrightarrow> turn_bytes t \<noteq> [] \<and> length (turn_bytes t) \<le> 4095 \<and>
     fst (turn_recv t) = int (length (turn_bytes t)) \<and> fst (turn_send t (turn_bytes t)) = int (length (turn_bytes t))"

definition end_of_stream :: turn where
  "end_of_stream = \<lparr>turn_recv = (0, 0), turn_bytes = [], turn_send = (\<lambda>b. (- 1, 0))\<rparr>"

lemma client_loop_echoes:
  "\<forall>t \<in> set ts. full_turn t \<Longrightarrow> client_loop f (ts @ [end_of_stream]) sent = (Disconnected, sent @ concat (map turn_bytes ts))"
proof (induction ts arbitrary: sent)
  case Nil
  then show ?case by (simp add: end_of_stream_def socket_read_def)
next
  case (Cons t ts)
  then show ?case
    by (cases "turn_recv t"; cases "turn_send t (turn_bytes t)") (auto simp: full_turn_def socket_read_def socket_write_def Let_def)
qed

text \<open>The buffer is never overrun, as a read returns no more than was asked for.\<close>

lemma client_loop_in_bounds:
  "\<forall>t \<in> set ts. fst (turn_recv t) \<le> 4095 \<Longrightarrow> fst (client_loop f ts sent) \<noteq> BufferOverrun"
proof (induction ts arbitrary: sent)
  case (Cons t ts)
  then have "fst (turn_recv t) \<le> 4095" "\<And>sent. fst (client_loop f ts sent) \<noteq> BufferOverrun" by simp_all
  then show ?case
    by (auto simp: socket_read_def io_error_def make_errno_result_def Let_def split: prod.splits sum.splits if_splits)
qed simp

text \<open>C36. A client of the blocking echo server that sends any number of chunks and then disconnects gets back exactly what it sent, in order; its
  thread returns, and the sockets and open descriptors are then what they were before the client was accepted. The vector of threads, however, is one longer for good.\<close>

theorem blocking_echo:
  assumes "sock_objs st x = None" and "sock_objs st y = None" and "x \<noteq> y" and "f \<notin> open_fds st" and "f \<noteq> kInvalidFd" and "\<forall>t \<in> set ts. full_turn t"
  shows "\<exists>st1. accept_pass f errno ss len x y (st, threads) = Inr (st1, threads @ [x]) \<and> sock_objs st1 = (sock_objs st)(x \<mapsto> f) \<and> open_fds st1 = insert f (open_fds st) \<and>
    handle_client x (ts @ [end_of_stream]) st1 = Inr (st, Disconnected, concat (map turn_bytes ts))"
proof -
  let ?st1 = "st\<lparr>sock_objs := (sock_objs st)(x \<mapsto> f), open_fds := insert f (open_fds st)\<rparr>"
  have "(sock_objs st)(y \<mapsto> f, x \<mapsto> f, y \<mapsto> kInvalidFd, y := None) = (sock_objs st)(x \<mapsto> f)"
    using assms(2,3) by (auto simp: fun_eq_iff)
  then have "accept_pass f errno ss len x y (st, threads) = Inr (?st1, threads @ [x])"
    using assms(1-5) by (simp add: accept_pass_def socket_accept_def new_obj_def Socket_move_def Socket_destroy_def Socket_close_def)
  moreover have "(sock_objs st)(x \<mapsto> f, x \<mapsto> kInvalidFd, x := None) = sock_objs st" "insert f (open_fds st) - {f} = open_fds st"
    using assms(1,4) by (auto simp: fun_eq_iff)
  then have "Socket_destroy x ?st1 = Inr st"
    using assms(5) by (simp add: Socket_destroy_def Socket_close_def)
  then have "handle_client x (ts @ [end_of_stream]) ?st1 = Inr (st, Disconnected, concat (map turn_bytes ts))"
    by (simp add: handle_client_def client_loop_echoes [OF assms(6)])
  ultimately show ?thesis by (intro exI [of _ ?st1]) simp
qed

theorem blocking_echo_witness:
  "\<exists>st1. accept_pass 7 0 Address_new 16 1 2 (\<lparr>sock_objs = [0 \<mapsto> 4], open_fds = {4}\<rparr>, []) = Inr (st1, [1]) \<and>
     handle_client 1 ([\<lparr>turn_recv = (2, 0), turn_bytes = ''he'', turn_send = (\<lambda>b. (2, 0))\<rparr>, \<lparr>turn_recv = (3, 0), turn_bytes = ''llo'', turn_send = (\<lambda>b. (3, 0))\<rparr>] @ [end_of_stream]) st1 =
       Inr (\<lparr>sock_objs = [0 \<mapsto> 4], open_fds = {4}\<rparr>, Disconnected, ''hello'')"
  using blocking_echo [of "\<lparr>sock_objs = [0 \<mapsto> 4], open_fds = {4}\<rparr>" 1 2 7
      "[\<lparr>turn_recv = (2, 0), turn_bytes = ''he'', turn_send = (\<lambda>b. (2, 0))\<rparr>, \<lparr>turn_recv = (3, 0), turn_bytes = ''llo'', turn_send = (\<lambda>b. (3, 0))\<rparr>]" 0 Address_new 16 "[]"]
  by (auto simp: kInvalidFd_def full_turn_def)

end
