(* ===== verification/Socket_Options.thy ===== *)
theory Socket_Options
  imports Socket_Io
begin

text \<open>
  The options of sockets that only call \<open>setsockopt\<close>, and the Windows branch of \<open>readv\<close> and \<open>writev\<close> (\<open>src/hound/src/io/socket.cpp\<close>).
\<close>

section \<open>Options\<close>

text \<open>The numbers are those of Linux. The options of all descriptors are a map, of which \<open>setsockopt\<close> changes one when it does not fail.\<close>

type_synonym sock_options = "int \<times> int \<times> int \<rightharpoonup> int"

definition SOL_SOCKET :: int where "SOL_SOCKET = 1"
definition SO_REUSEADDR :: int where "SO_REUSEADDR = 2"
definition SO_KEEPALIVE :: int where "SO_KEEPALIVE = 9"
definition SO_REUSEPORT :: int where "SO_REUSEPORT = 15"
definition IPPROTO_TCP :: int where "IPPROTO_TCP = 6"
definition TCP_NODELAY :: int where "TCP_NODELAY = 1"

lemmas option_numbers = SOL_SOCKET_def SO_REUSEADDR_def SO_KEEPALIVE_def SO_REUSEPORT_def IPPROTO_TCP_def TCP_NODELAY_def

type_synonym setsockopt_call = "int \<Rightarrow> int \<Rightarrow> int \<Rightarrow> int \<Rightarrow> int"

definition set_option :: "setsockopt_call \<Rightarrow> int \<Rightarrow> int \<Rightarrow> int \<Rightarrow> int \<Rightarrow> sock_options \<Rightarrow> sock_options" where
  "set_option setsockopt fd level optname value opts =
     (let ret = setsockopt fd level optname value in if ret < 0 then opts else opts((fd, level, optname) \<mapsto> value))"

definition set_reuse_addr :: "setsockopt_call \<Rightarrow> int \<Rightarrow> bool \<Rightarrow> sock_options \<Rightarrow> sock_options" where
  "set_reuse_addr setsockopt fd on = set_option setsockopt fd SOL_SOCKET SO_REUSEADDR (if on then 1 else 0)"

definition set_reuse_port :: "setsockopt_call \<Rightarrow> int \<Rightarrow> bool \<Rightarrow> sock_options \<Rightarrow> sock_options" where
  "set_reuse_port setsockopt fd on = set_option setsockopt fd SOL_SOCKET SO_REUSEPORT (if on then 1 else 0)"

definition socket_set_keep_alive :: "setsockopt_call \<Rightarrow> int \<Rightarrow> bool \<Rightarrow> sock_options \<Rightarrow> sock_options" where
  "socket_set_keep_alive setsockopt fd on = set_option setsockopt fd SOL_SOCKET SO_KEEPALIVE (if on then 1 else 0)"

definition set_tcp_nodelay :: "setsockopt_call \<Rightarrow> int \<Rightarrow> bool \<Rightarrow> sock_options \<Rightarrow> sock_options" where
  "set_tcp_nodelay setsockopt fd on = set_option setsockopt fd IPPROTO_TCP TCP_NODELAY (if on then 1 else 0)"

lemmas option_setters = set_reuse_addr_def set_reuse_port_def socket_set_keep_alive_def set_tcp_nodelay_def

text \<open>No two setters write the same option, so they can be called in any order.\<close>

lemma set_option_commute:
  "(fd, level, opt) \<noteq> (fd', level', opt') \<Longrightarrow>
   set_option call fd level opt v (set_option call fd' level' opt' v' opts) = set_option call fd' level' opt' v' (set_option call fd level opt v opts)"
  by (auto simp: set_option_def fun_eq_iff)

lemma option_setters_commute:
  "set_reuse_addr call fd a (set_tcp_nodelay call fd' b opts) = set_tcp_nodelay call fd' b (set_reuse_addr call fd a opts)"
  "set_reuse_addr call fd a (set_reuse_port call fd' b opts) = set_reuse_port call fd' b (set_reuse_addr call fd a opts)"
  "socket_set_keep_alive call fd a (set_tcp_nodelay call fd' b opts) = set_tcp_nodelay call fd' b (socket_set_keep_alive call fd a opts)"
  "socket_set_keep_alive call fd a (set_reuse_port call fd' b opts) = set_reuse_port call fd' b (socket_set_keep_alive call fd a opts)"
  by (simp_all add: option_setters set_option_commute option_numbers)

section \<open>Scattered input and output on Windows\<close>

text \<open>The Windows branch of \<open>readv\<close> and \<open>writev\<close>, which serves only the first buffer; \<open>iov\<close> is the list of buffer lengths.\<close>

definition socket_readv_win :: "io_call \<Rightarrow> int \<Rightarrow> size_t list \<Rightarrow> int result" where
  "socket_readv_win recv fd iov = (case iov of [] \<Rightarrow> Inr 0 | len # rest \<Rightarrow> socket_read recv fd len)"

definition socket_writev_win :: "io_call \<Rightarrow> int \<Rightarrow> size_t list \<Rightarrow> int result" where
  "socket_writev_win send fd iov = (case iov of [] \<Rightarrow> Inr 0 | len # rest \<Rightarrow> socket_write send fd len)"

text \<open>A gathered write on Windows never gets past the first buffer, whatever the system accepts.\<close>

lemma writev_win_first_only:
  assumes "socket_writev_win send fd (len # rest) = Inr n" and "fst (send fd (count_to_int len)) \<le> count_to_int len"
  shows "0 < n \<and> n \<le> count_to_int len"
  using assms by (auto simp: socket_writev_win_def socket_write_def io_error_def make_errno_result_def split: prod.splits if_splits)

end
