(* ===== verification/Value_Types.thy ===== *)
theory Value_Types
  imports Timer_Wheel Socket_Io
begin

text \<open>
  The rest of two value types: the observers of results (\<open>src/hound/src/util/result.h\<close>) and the differences of timestamps (\<open>src/hound/src/reactor/timestamp.h\<close>).
\<close>

section \<open>Results\<close>

text \<open>A result holds a value or an error. Asking a \<open>Result<T>\<close> for what it does not hold raises \<open>std::bad_variant_access\<close>; asking a \<open>Result<void>\<close> that holds no error for its error
  dereferences an empty optional.\<close>

datatype access_fault = BadVariantAccess | EmptyOptional

definition result_value :: "'a result \<Rightarrow> access_fault + 'a" where
  "result_value r = (case r of Inl e \<Rightarrow> Inl BadVariantAccess | Inr v \<Rightarrow> Inr v)"

definition result_error :: "'a result \<Rightarrow> access_fault + int" where
  "result_error r = (case r of Inl e \<Rightarrow> Inr (ec e) | Inr v \<Rightarrow> Inl BadVariantAccess)"

definition result_error_msg :: "'a result \<Rightarrow> access_fault + string" where
  "result_error_msg r = (case r of Inl e \<Rightarrow> Inr (error_msg e) | Inr v \<Rightarrow> Inl BadVariantAccess)"

definition void_error :: "unit result \<Rightarrow> access_fault + int" where
  "void_error r = (case r of Inl e \<Rightarrow> Inr (ec e) | Inr v \<Rightarrow> Inl EmptyOptional)"

definition void_error_msg :: "unit result \<Rightarrow> access_fault + string" where
  "void_error_msg r = (case r of Inl e \<Rightarrow> Inr (error_msg e) | Inr v \<Rightarrow> Inl EmptyOptional)"

text \<open>The pattern of every caller, testing \<open>has_value\<close> first, never faults.\<close>

lemma observers_guarded:
  "(if has_value r then map_sum id (\<lambda>v. ()) (result_value r) else map_sum id (\<lambda>m. ()) (result_error_msg r)) = Inr ()"
  "\<not> has_value r' \<Longrightarrow> \<exists>e m. void_error r' = Inr e \<and> void_error_msg r' = Inr m \<and> r' = make_errno_result e m"
  by (auto simp: has_value_def result_value_def result_error_msg_def void_error_def void_error_msg_def make_errno_result_def split: sum.splits)

section \<open>Differences of timestamps\<close>

definition diff_seconds :: "timestamp \<Rightarrow> timestamp \<Rightarrow> rat" where
  "diff_seconds us other = to_double (to_double (of_int (us - other)) / 1000000)"

lemma diff_ms_add_ms: "diff_ms (add_ms t ms) t = ms"
  by (simp add: diff_ms_def add_ms_def signed_divide_int_def abs_mult sgn_mult mult.commute) (metis mult_sgn_abs mult.commute)

text \<open>Whole numbers below \<open>2\<close> to the power 53 are doubles.\<close>

lemma floorlog_le: "nat \<bar>i\<bar> < 2 ^ n \<Longrightarrow> floorlog 2 (nat \<bar>i\<bar>) \<le> n"
  using floorlog_leI [of "nat \<bar>i\<bar>" 2 n] by simp

lemma round_even_int [simp]: "round_even (of_int i) = i"
  by (simp add: round_even_def)

lemma to_double_int:
  assumes "\<bar>i\<bar> < 2 ^ 53"
  shows "to_double (of_int i) = of_int i"
proof -
  have "0 \<le> fraction_bits (of_int i)"
    using floorlog_le [of i 53] assms by (auto simp: fraction_bits_def nat_less_iff simp flip: of_int_abs)
  then obtain n where n: "fraction_bits (of_int i) = int n"
    using nonneg_int_cases by blast
  have "of_int i * 2 ^ n = (of_int (i * 2 ^ n) :: rat)" by simp
  then have "round_even (of_int i * 2 ^ n) = i * 2 ^ n" using round_even_int by metis
  then show ?thesis by (simp add: to_double_def n)
qed

text \<open>Adding a whole number of seconds, up to 285 years, is exact, and the difference gives it back.\<close>

lemma diff_seconds_add_seconds:
  assumes "\<bar>s * 1000000\<bar> < 2 ^ 53"
  shows "add_seconds t (of_int s) = t + s * 1000000" and "diff_seconds (add_seconds t (of_int s)) t = of_int s"
proof -
  have d: "to_double (of_int (s * 1000000)) = of_int (s * 1000000)" by (rule to_double_int [OF assms])
  then have "to_double (of_int s * 1000000) = of_int (s * 1000000)" by simp
  then show a: "add_seconds t (of_int s) = t + s * 1000000"
    by (simp add: add_seconds_def trunc_def del: of_int_mult)
  have "\<bar>s\<bar> < 2 ^ 53" using assms by (simp add: abs_mult)
  then show "diff_seconds (add_seconds t (of_int s)) t = of_int s"
    using d to_double_int [of s] by (simp add: a diff_seconds_def)
qed

end
