(* ===== verification/Log_Lines.thy ===== *)
theory Log_Lines
  imports Cxx_Std
begin

text \<open>
  The logger (\<open>src/hound/src/util/logger.h\<close>). What \<open>snprintf\<close> makes of a format and its arguments, and the date \<open>strftime\<close> gives, are parameters; what is
  modelled is what the logger does with them: the bound of the buffers and the form of a line on \<open>stderr\<close>. The mutex makes every call one append.
\<close>

datatype log_level = TRACE | DEBUG | INFO | WARN | ERROR | FATAL

fun level_str :: "log_level \<Rightarrow> string" where
  "level_str TRACE = ''TRACE''"
| "level_str DEBUG = ''DEBUG''"
| "level_str INFO = ''INFO ''"
| "level_str WARN = ''WARN ''"
| "level_str ERROR = ''ERROR''"
| "level_str FATAL = ''FATAL''"

text \<open>\<open>snprintf\<close> into a buffer of \<open>n\<close> bytes keeps what fits before the terminating zero.\<close>

definition snprintf :: "nat \<Rightarrow> string \<Rightarrow> string" where
  "snprintf n s = take (n - 1) s"

definition pad3 :: "nat \<Rightarrow> string" where
  "pad3 n = (let d = dec_string n in replicate (3 - length d) (CHR ''0'') @ d)"

definition log_timestamp :: "string \<Rightarrow> nat \<Rightarrow> string" where
  "log_timestamp date since_epoch_ms = date @ snprintf (32 - length date) (''.'' @ pad3 (since_epoch_ms mod 1000))"

record log_call =
  log_date :: string
  log_ms :: nat
  log_lvl :: log_level
  log_file :: string
  log_lineno :: nat
  log_func :: string
  log_msg :: string

definition log_line :: "log_call \<Rightarrow> string \<Rightarrow> string" where
  "log_line c msg =
     ''['' @ log_timestamp (log_date c) (log_ms c) @ ''] ['' @ level_str (log_lvl c) @ ''] ['' @ log_file c @ '':'' @ dec_string (log_lineno c) @ '' '' @ log_func c @
     ''] '' @ msg @ [LF]"

text \<open>The macro \<open>HOUND_LOG\<close>, and \<open>LOG_FATAL\<close>, which does not return: \<^const>\<open>None\<close>.\<close>

definition HOUND_LOG :: "log_call \<Rightarrow> string \<Rightarrow> string" where
  "HOUND_LOG c err = err @ log_line c (snprintf 1024 (log_msg c))"

definition log_macro :: "log_call \<Rightarrow> string \<Rightarrow> string option \<times> string" where
  "log_macro c err = (let err' = HOUND_LOG c err in (if log_lvl c = FATAL then None else Some err', err'))"

section \<open>Properties\<close>

lemma level_str_width [simp]: "length (level_str v) = 5"
  by (cases v) simp_all

lemma level_str_inj: "level_str v = level_str w \<longleftrightarrow> v = w"
  by (cases v; cases w) simp_all

lemma level_str_no_LF: "LF \<notin> set (level_str v)"
  by (cases v) simp_all

lemma log_timestamp_no_LF: "LF \<notin> set d \<Longrightarrow> LF \<notin> set (log_timestamp d n)"
  using dec_string_no_crlf by (auto simp: log_timestamp_def snprintf_def pad3_def Let_def dest!: in_set_takeD)

definition one_line :: "log_call \<Rightarrow> bool" where
  "one_line c \<longleftrightarrow> LF \<notin> set (log_date c) \<and> LF \<notin> set (log_file c) \<and> LF \<notin> set (log_func c) \<and> LF \<notin> set (log_msg c)"

lemma log_line_shape:
  assumes "one_line c"
  shows "\<exists>l. LF \<notin> set l \<and> log_line c (snprintf 1024 (log_msg c)) = l @ [LF]"
  using assms dec_string_no_crlf level_str_no_LF log_timestamp_no_LF [of "log_date c"]
  by (auto simp: log_line_def one_line_def snprintf_def dest: in_set_takeD)

lemma getlines_log:
  assumes "one_line c"
  shows "getlines LF (log_line c (snprintf 1024 (log_msg c)) @ rest) = butlast (log_line c (snprintf 1024 (log_msg c))) # getlines LF rest"
proof -
  obtain l where "LF \<notin> set l" "log_line c (snprintf 1024 (log_msg c)) = l @ [LF]" using log_line_shape [OF assms] by blast
  then show ?thesis by (simp add: getlines_Cons)
qed

lemma HOUND_LOG_appends: "fold HOUND_LOG cs err = err @ concat (map (\<lambda>c. log_line c (snprintf 1024 (log_msg c))) cs)"
  by (induction cs arbitrary: err) (simp_all add: HOUND_LOG_def)

text \<open>As long as no logged text contains a line feed, the log has exactly one line per call, in the order of the calls, and each line carries the first 1023 bytes of its message.\<close>

lemma log_records:
  assumes "\<forall>c \<in> set cs. one_line c"
  shows "getlines LF (fold HOUND_LOG cs []) = map (\<lambda>c. butlast (log_line c (take 1023 (log_msg c)))) cs"
proof -
  have "getlines LF (concat (map (\<lambda>c. log_line c (snprintf 1024 (log_msg c))) cs)) = map (\<lambda>c. butlast (log_line c (take 1023 (log_msg c)))) cs"
    using assms
  proof (induction cs)
    case (Cons c cs)
    then show ?case using getlines_log [of c] by (simp add: snprintf_def)
  qed simp
  then show ?thesis by (simp add: HOUND_LOG_appends)
qed

text \<open>A message with a line feed in it writes what looks like the record of another call: bytes received from a client, which the echo servers log, can forge any record.\<close>

lemma log_forged:
  assumes "length m + length (log_line c' (log_msg c')) \<le> 1023" and "length (log_msg c') \<le> 1023"
  shows "HOUND_LOG (c\<lparr>log_msg := m @ LF # butlast (log_line c' (log_msg c'))\<rparr>) err = HOUND_LOG c' (HOUND_LOG (c\<lparr>log_msg := m\<rparr>) err)"
proof -
  have "butlast (log_line c' (log_msg c')) @ [LF] = log_line c' (log_msg c')" "log_line c' (log_msg c') \<noteq> []"
    by (simp_all add: log_line_def butlast_append)
  moreover have "snprintf 1024 (m @ LF # butlast (log_line c' (log_msg c'))) = m @ LF # butlast (log_line c' (log_msg c'))"
    "snprintf 1024 m = m" "snprintf 1024 (log_msg c') = log_msg c'"
    using assms calculation(2) by (simp_all add: snprintf_def)
  ultimately show ?thesis by (simp add: HOUND_LOG_def log_line_def)
qed

end
